(* ===== verification/Kernel_Prelude.thy ===== *)
theory Kernel_Prelude
  imports Main "HOL-Library.Word"
begin

text \<open>
  Shared vocabulary of the development: the C integer types at the width they have on the
  32-bit i386 port, the error numbers the modelled functions return
  (\<open>include/asm-i386/errno.h\<close>), the outcome type of functions that may hit a
  \<open>BUG()\<close> check, and the generic facts on lists that the component theories use.
\<close>

unbundle bit_operations_syntax

section \<open>Machine types and error numbers\<close>

text \<open>
  \<open>unsigned long\<close>, \<open>unsigned int\<close> and \<open>size_t\<close> are 32 bits wide on i386; their
  arithmetic wraps around.
\<close>

type_synonym ulong = "32 word"

datatype errno =
    EPERM | ENOENT | ESRCH | EINTR | E2BIG | EBADF | EAGAIN | ENOMEM | EACCES | EFAULT
  | EBUSY | EEXIST | ENODEV | EINVAL | EFBIG | ENOSPC | ERANGE | EDEADLK | ENOLCK | ENOSYS
  | EIDRM | ETXTBSY | ENOMSG

text \<open>
  A function guarded by \<open>BUG()\<close> checks either completes or stops the machine: \<open>Bug\<close>
  is the second outcome.
\<close>

datatype 'a outcome = Done 'a | Bug

fun bind_outcome :: "'a outcome \<Rightarrow> ('a \<Rightarrow> 'b outcome) \<Rightarrow> 'b outcome" where
  "bind_outcome (Done x) f = f x"
| "bind_outcome Bug f = Bug"

lemma bind_outcome_Done_iff [simp]:
  "bind_outcome m f = Done y \<longleftrightarrow> (\<exists>x. m = Done x \<and> f x = Done y)"
  by (cases m) auto

lemma bind_outcome_not_Bug_iff [simp]:
  "bind_outcome m f \<noteq> Bug \<longleftrightarrow> (\<exists>x. m = Done x \<and> f x \<noteq> Bug)"
  by (cases m) auto

lemma outcome_caseE:
  assumes "case m of Bug \<Rightarrow> False | Done s \<Rightarrow> P s"
  obtains s where "m = Done s" "P s"
  using assms by (cases m) auto

section \<open>Lists ordered by a key\<close>

text \<open>
  The kernel keeps many lists and trees of structures ordered by one field. The key is a
  function argument here, because the structures live in a store that the code mutates.
\<close>

abbreviation ordered_by :: "('a \<Rightarrow> 'k::linorder) \<Rightarrow> 'a list \<Rightarrow> bool" where
  "ordered_by key xs \<equiv> sorted_wrt (\<lambda>x y. key x < key y) xs"

lemma ordered_by_append:
  "ordered_by key (xs @ ys) \<longleftrightarrow>
     ordered_by key xs \<and> ordered_by key ys \<and> (\<forall>x\<in>set xs. \<forall>y\<in>set ys. key x < key y)"
  by (simp add: sorted_wrt_append)

lemma takeWhile_all_none:
  assumes "\<forall>x\<in>set xs. P x" and "\<forall>y\<in>set ys. \<not> P y"
  shows "takeWhile P (xs @ ys) = xs" and "dropWhile P (xs @ ys) = ys"
  using assms by (induction xs) (auto simp: takeWhile_eq_Nil_iff dropWhile_eq_self_iff)

lemma ordered_by_distinct: "ordered_by key xs \<Longrightarrow> distinct xs"
  by (induction xs) auto

section \<open>Masking off low bits\<close>

text \<open>
  \<open>x & ~(2^k - 1)\<close> rounds down to a multiple of \<open>2^k\<close> and \<open>x & (2^k - 1)\<close> is the
  remainder: the two idioms behind \<open>PAGE_ALIGN\<close> and every alignment of the source.
\<close>

lemma and_not_mask_sub: "(x :: 'a::len word) AND NOT (mask k) = x - take_bit k x"
proof -
  have "x = (x AND NOT (mask k)) OR (x AND mask k)"
    by (rule bit_eqI) (auto simp: bit_simps)
  also have "\<dots> = (x AND NOT (mask k)) + (x AND mask k)"
    by (rule disjunctive_add [symmetric]) (auto simp: bit_simps)
  finally show ?thesis by (simp add: take_bit_eq_mask algebra_simps)
qed

lemma unat_take_bit_mod: "unat (take_bit k (x :: 'a::len word)) = unat x mod 2 ^ k"
  by (subst unsigned_take_bit_eq) (simp add: take_bit_eq_mod)

lemma unat_and_mask: "unat ((x :: 'a::len word) AND mask k) = unat x mod 2 ^ k"
  by (simp flip: take_bit_eq_mask add: unat_take_bit_mod)

lemma unat_and_not_mask:
  "unat ((x :: 'a::len word) AND NOT (mask k)) = unat x div 2 ^ k * 2 ^ k"
proof -
  have "take_bit k x \<le> x" by (simp add: word_le_nat_alt unat_take_bit_mod)
  then show ?thesis
    by (simp add: and_not_mask_sub unat_sub unat_take_bit_mod minus_mod_eq_div_mult)
qed

lemma unat_drop_bit: "unat (drop_bit k (x :: 'a::len word)) = unat x div 2 ^ k"
proof -
  have "take_bit LENGTH('a) (unat x) = unat x"
    using unsigned_less [of x, where 'a = nat] by (simp add: take_bit_nat_eq_self)
  then show ?thesis by (subst unsigned_drop_bit_eq) (simp add: drop_bit_eq_div)
qed

lemma unat_plus_no_wrap:
  "unat (x :: 'a::len word) + unat y < 2 ^ LENGTH('a) \<Longrightarrow> unat (x + y) = unat x + unat y"
  by (simp add: unat_word_ariths)

lemma unat_sum_list:
  "(\<Sum>x\<leftarrow>xs. unat x) < 2 ^ LENGTH('a) \<Longrightarrow> unat (sum_list xs :: 'a::len word) = (\<Sum>x\<leftarrow>xs. unat x)"
  by (induction xs) (simp_all add: unat_plus_no_wrap)

lemma unat_minus_no_wrap: "y \<le> x \<Longrightarrow> unat ((x :: 'a::len word) - y) = unat x - unat y"
  by (rule unat_sub)

lemma unat_inc: "(i :: 'a::len word) < e \<Longrightarrow> unat (i + 1) = unat i + 1"
proof -
  assume "i < e"
  then have "unat i < unat e" by (simp add: word_less_nat_alt)
  moreover have "unat e < 2 ^ LENGTH('a)" by (rule unsigned_less)
  ultimately have "Suc (unat i) < 2 ^ LENGTH('a)" by linarith
  then show ?thesis by (simp add: unat_word_ariths)
qed

text \<open>The measure of a loop \<open>for (i = ...; i < e; i++)\<close>.\<close>

lemma upto_measure: "(i :: 'a::len word) < e \<Longrightarrow> unat e - unat (i + 1) < unat e - unat i"
  by (simp add: unat_inc word_less_nat_alt)

lemma unat_two_power: "k < 32 \<Longrightarrow> unat ((2 :: ulong) ^ k) = 2 ^ k"
proof -
  assume k: "k < 32"
  then have "(2 :: nat) ^ k < 2 ^ 32" by (intro power_strict_increasing) auto
  then have "unat (of_nat (2 ^ k) :: ulong) = 2 ^ k"
    using k by (simp add: unsigned_of_nat take_bit_nat_eq_self del: of_nat_power)
  then show ?thesis by simp
qed

text \<open>Rounding up to a multiple of \<open>2^k\<close>: \<open>(x + align - 1) & ~(align - 1)\<close>.\<close>

lemma unat_round_up:
  assumes "k < 32" and "unat (x :: ulong) + 2 ^ k \<le> 2 ^ 32"
  shows "unat ((x + 2 ^ k - 1) AND NOT (2 ^ k - 1)) = (unat x + 2 ^ k - 1) div 2 ^ k * 2 ^ k"
proof -
  have p: "unat ((2 :: ulong) ^ k) = 2 ^ k" using assms(1) by (rule unat_two_power)
  have "(1 :: nat) \<le> 2 ^ k" by simp
  then have "unat ((2 :: ulong) ^ k - 1) = 2 ^ k - 1"
    using p by (subst unat_minus_no_wrap) (simp_all add: word_le_nat_alt)
  then have "unat (x + (2 ^ k - 1)) = unat x + (2 ^ k - 1)"
    using assms(2) \<open>1 \<le> 2 ^ k\<close> by (subst unat_plus_no_wrap) simp_all
  moreover have "(2 :: ulong) ^ k - 1 = mask k" by (simp add: mask_eq_exp_minus_1)
  moreover have "unat x + 2 ^ k - 1 = unat x + (2 ^ k - 1)" by simp
  ultimately show ?thesis by (simp only: unat_and_not_mask add_diff_eq [symmetric])
qed

lemma round_up_least:
  fixes x a :: nat
  assumes "d dvd a" and "0 < d" and "x \<le> a"
  shows "(x + d - 1) div d * d \<le> a"
proof -
  obtain m where "a = d * m" using assms(1) by (rule dvdE)
  then have m: "a = m * d" by (simp only: mult.commute)
  have "x + d - 1 < (m + 1) * d" using assms(2,3) m by (simp add: algebra_simps)
  then have "(x + d - 1) div d < m + 1" by (simp only: div_less_iff_less_mult assms(2))
  then have "(x + d - 1) div d * d \<le> m * d" by (intro mult_right_mono) simp_all
  then show ?thesis by (simp only: m)
qed

lemma round_up_above: "0 < d \<Longrightarrow> (x :: nat) \<le> (x + d - 1) div d * d"
  using dividend_less_div_times [of d "x + d - 1"] by (simp add: algebra_simps)

section \<open>Pages\<close>

definition PAGE_SHIFT :: nat where
  "PAGE_SHIFT = 12"

definition PAGE_SIZE :: ulong where
  "PAGE_SIZE = 4096"

definition PAGE_MASK :: ulong where
  "PAGE_MASK = NOT (PAGE_SIZE - 1)"

definition PAGE_ALIGN :: "ulong \<Rightarrow> ulong" where
  "PAGE_ALIGN addr = (addr + PAGE_SIZE - 1) AND PAGE_MASK"

definition page_aligned :: "ulong \<Rightarrow> bool" where
  "page_aligned addr \<longleftrightarrow> addr AND NOT PAGE_MASK = 0"

lemma PAGE_MASK_mask: "PAGE_MASK = NOT (mask PAGE_SHIFT)"
  by (simp add: PAGE_MASK_def PAGE_SIZE_def PAGE_SHIFT_def mask_eq_exp_minus_1)

lemma unat_PAGE_SIZE [simp]: "unat PAGE_SIZE = 4096"
  by (simp add: PAGE_SIZE_def)

lemma page_aligned_iff: "page_aligned a \<longleftrightarrow> 4096 dvd unat a"
proof -
  have "a AND NOT PAGE_MASK = 0 \<longleftrightarrow> unat (a AND mask PAGE_SHIFT) = 0"
    by (simp only: PAGE_MASK_mask bit.double_compl word_unat_eq_iff unsigned_0)
  then show ?thesis
    by (simp add: page_aligned_def unat_and_mask PAGE_SHIFT_def dvd_eq_mod_eq_0)
qed

lemma page_aligned_PAGE_ALIGN [simp]: "page_aligned (PAGE_ALIGN a)"
  by (simp add: page_aligned_iff PAGE_ALIGN_def PAGE_MASK_mask unat_and_not_mask PAGE_SHIFT_def)

lemma unat_PAGE_ALIGN:
  assumes "unat a + 4095 < 2 ^ 32"
  shows "unat (PAGE_ALIGN a) = (unat a + 4095) div 4096 * 4096"
proof -
  have sum: "a + PAGE_SIZE - 1 = a + 4095" by (simp add: PAGE_SIZE_def algebra_simps)
  moreover have "unat (a + 4095) = unat a + 4095"
    using assms by (subst unat_plus_no_wrap) auto
  ultimately show ?thesis
    unfolding PAGE_ALIGN_def sum by (simp add: PAGE_MASK_mask unat_and_not_mask PAGE_SHIFT_def)
qed

lemma PAGE_ALIGN_aligned: "page_aligned a \<Longrightarrow> PAGE_ALIGN a = a"
proof -
  assume "page_aligned a"
  then obtain k where k: "unat a = 4096 * k" by (auto simp: page_aligned_iff)
  have "unat a < 2 ^ 32" using unsigned_less [of a, where 'a = nat] by simp
  then have "unat a + 4095 < 2 ^ 32" using k by simp
  then have "unat (PAGE_ALIGN a) = unat a" using k by (simp add: unat_PAGE_ALIGN)
  then show "PAGE_ALIGN a = a" by (simp add: word_unat_eq_iff)
qed

lemma drop_bit_page_add:
  assumes "page_aligned x" and "unat x + unat y < 2 ^ 32"
  shows "drop_bit PAGE_SHIFT (x + y) = drop_bit PAGE_SHIFT x + drop_bit PAGE_SHIFT y"
proof -
  obtain k where k: "unat x = 4096 * k" using assms(1) by (auto simp: page_aligned_iff)
  have "unat (drop_bit PAGE_SHIFT x + drop_bit PAGE_SHIFT y) = unat x div 4096 + unat y div 4096"
    using assms(2) by (subst unat_plus_no_wrap) (auto simp: unat_drop_bit PAGE_SHIFT_def)
  also have "\<dots> = (unat x + unat y) div 4096" using k by simp
  also have "\<dots> = unat (drop_bit PAGE_SHIFT (x + y))"
    using assms(2) by (simp add: unat_drop_bit unat_plus_no_wrap PAGE_SHIFT_def)
  finally show ?thesis by (simp add: word_unat_eq_iff)
qed

lemma page_aligned_diff: "page_aligned x \<Longrightarrow> page_aligned y \<Longrightarrow> page_aligned (x - y)"
proof -
  assume "page_aligned x" "page_aligned y"
  then have d: "4096 dvd unat x" "4096 dvd unat y" by (simp_all add: page_aligned_iff)
  have "(4096 :: nat) dvd 2 ^ 32" by simp
  with d have "4096 dvd unat x + 2 ^ 32 - unat y" by (intro dvd_diff_nat dvd_add)
  with d show ?thesis
    by (auto simp: page_aligned_iff unat_sub_if_size word_size intro: dvd_diff_nat)
qed

end
