(* ===== verification/Mmap_Avl.thy ===== *)
theory Mmap_Avl
  imports Kernel_Prelude
begin

text \<open>
  The AVL tree of memory areas, \<open>mm/mmap_avl.c\<close>. A tree node of the source is a
  \<open>vm_area_struct\<close> with the fields \<open>vm_avl_left\<close>, \<open>vm_avl_right\<close> and
  \<open>vm_avl_height\<close>; here a tree is a datatype that stores the identity of the area at each
  node together with its height field, and the search key \<open>vm_avl_key\<close> (the macro for
  \<open>vm_end\<close>) is a function argument \<open>key\<close>, because the areas live in a store that
  \<open>mm/mmap.c\<close> changes. The array \<open>stack\<close> of node places that insertion and removal push on
  the way down is a list of frames, innermost first: a frame is the node whose son's place was
  followed, with everything of that node but the followed son.
\<close>

section \<open>Trees, frames and rebalancing\<close>

datatype 'a vm_avl =
    vm_avl_empty
  | vm_avl_node (vm_avl_left: "'a vm_avl") 'a (vm_avl_height: nat) (vm_avl_right: "'a vm_avl")

definition avl_maxheight :: nat where
  "avl_maxheight = 41"

fun heightof :: "'a vm_avl \<Rightarrow> nat" where
  "heightof vm_avl_empty = 0"
| "heightof (vm_avl_node l x h r) = h"

datatype 'a frame =
    Went_left 'a nat "'a vm_avl"
  | Went_right "'a vm_avl" 'a nat

fun plug :: "'a frame \<Rightarrow> 'a vm_avl \<Rightarrow> 'a vm_avl" where
  "plug (Went_left x h r) t = vm_avl_node t x h r"
| "plug (Went_right l x h) t = vm_avl_node l x h t"

fun plug_all :: "'a frame list \<Rightarrow> 'a vm_avl \<Rightarrow> 'a vm_avl" where
  "plug_all [] t = t"
| "plug_all (f # fs) t = plug_all fs (plug f t)"

text \<open>
  One iteration of the loop of \<open>avl_rebalance\<close> on the node at the popped place: the new
  contents of the place, and whether the loop goes on (\<open>False\<close> is the \<open>break\<close>). The
  branches that return the node unchanged where a son is empty are not taken: a son whose
  height exceeds another height is not empty.
\<close>

fun rebalance_node :: "'a vm_avl \<Rightarrow> 'a vm_avl \<times> bool" where
  "rebalance_node vm_avl_empty = (vm_avl_empty, False)"
| "rebalance_node (vm_avl_node nodeleft x h noderight) =
    (let heightleft = heightof nodeleft; heightright = heightof noderight in
     if heightright + 1 < heightleft then
       (case nodeleft of
          vm_avl_empty \<Rightarrow> (vm_avl_node nodeleft x h noderight, False)
        | vm_avl_node nodeleftleft y hy nodeleftright \<Rightarrow>
            let heightleftright = heightof nodeleftright in
            if heightof nodeleftleft \<ge> heightleftright then
              (vm_avl_node nodeleftleft y (1 + (1 + heightleftright))
                 (vm_avl_node nodeleftright x (1 + heightleftright) noderight), True)
            else
              (case nodeleftright of
                 vm_avl_empty \<Rightarrow> (vm_avl_node nodeleft x h noderight, False)
               | vm_avl_node ll z hz rr \<Rightarrow>
                   (vm_avl_node (vm_avl_node nodeleftleft y heightleftright ll) z heightleft
                      (vm_avl_node rr x heightleftright noderight), True)))
     else if heightleft + 1 < heightright then
       (case noderight of
          vm_avl_empty \<Rightarrow> (vm_avl_node nodeleft x h noderight, False)
        | vm_avl_node noderightleft y hy noderightright \<Rightarrow>
            let heightrightleft = heightof noderightleft in
            if heightof noderightright \<ge> heightrightleft then
              (vm_avl_node (vm_avl_node nodeleft x (1 + heightrightleft) noderightleft) y
                 (1 + (1 + heightrightleft)) noderightright, True)
            else
              (case noderightleft of
                 vm_avl_empty \<Rightarrow> (vm_avl_node nodeleft x h noderight, False)
               | vm_avl_node ll z hz rr \<Rightarrow>
                   (vm_avl_node (vm_avl_node nodeleft x heightrightleft ll) z heightright
                      (vm_avl_node rr y heightrightleft noderightright), True)))
     else
       (let height = (if heightleft < heightright then heightright else heightleft) + 1 in
        if height = h then (vm_avl_node nodeleft x h noderight, False)
        else (vm_avl_node nodeleft x height noderight, True)))"

fun avl_rebalance :: "'a frame list \<Rightarrow> 'a vm_avl \<Rightarrow> 'a vm_avl" where
  "avl_rebalance [] t = t"
| "avl_rebalance (f # fs) t =
    (case rebalance_node (plug f t) of
       (t', True) \<Rightarrow> avl_rebalance fs t'
     | (t', False) \<Rightarrow> plug_all fs t')"

section \<open>Insertion\<close>

text \<open>
  The search loop of \<open>avl_insert\<close> and \<open>avl_insert_neighbours\<close>: the frames pushed, and
  \<open>to_the_left\<close>, \<open>to_the_right\<close> as the loop leaves them.
\<close>

fun insert_descend ::
  "('a \<Rightarrow> 'k::linorder) \<Rightarrow> 'k \<Rightarrow> 'a vm_avl \<Rightarrow> 'a frame list \<Rightarrow> 'a option \<Rightarrow> 'a option \<Rightarrow>
   'a frame list \<times> 'a option \<times> 'a option" where
  "insert_descend key k vm_avl_empty stack to_the_left to_the_right =
     (stack, to_the_left, to_the_right)"
| "insert_descend key k (vm_avl_node l x h r) stack to_the_left to_the_right =
    (if k < key x
     then insert_descend key k l (Went_left x h r # stack) to_the_left (Some x)
     else insert_descend key k r (Went_right l x h # stack) (Some x) to_the_right)"

definition avl_insert :: "('a \<Rightarrow> 'k::linorder) \<Rightarrow> 'a \<Rightarrow> 'a vm_avl \<Rightarrow> 'a vm_avl" where
  "avl_insert key new_node tree =
    (let (stack, _, _) = insert_descend key (key new_node) tree [] None None
     in avl_rebalance stack (vm_avl_node vm_avl_empty new_node 1 vm_avl_empty))"

definition avl_insert_neighbours ::
  "('a \<Rightarrow> 'k::linorder) \<Rightarrow> 'a \<Rightarrow> 'a vm_avl \<Rightarrow> 'a vm_avl \<times> 'a option \<times> 'a option" where
  "avl_insert_neighbours key new_node tree =
    (let (stack, to_the_left, to_the_right) =
           insert_descend key (key new_node) tree [] None None
     in (avl_rebalance stack (vm_avl_node vm_avl_empty new_node 1 vm_avl_empty),
         to_the_left, to_the_right))"

section \<open>Removal\<close>

text \<open>
  The first loop of \<open>avl_remove\<close>: the frames above the node with the key, and that node's
  fields. \<open>None\<close> is the null pointer the loop dereferences when the key is not in the tree.
\<close>

fun remove_descend ::
  "('a \<Rightarrow> 'k::linorder) \<Rightarrow> 'k \<Rightarrow> 'a vm_avl \<Rightarrow> 'a frame list \<Rightarrow>
   ('a frame list \<times> 'a vm_avl \<times> 'a \<times> nat \<times> 'a vm_avl) option" where
  "remove_descend key k vm_avl_empty stack = None"
| "remove_descend key k (vm_avl_node l x h r) stack =
    (if k = key x then Some (stack, l, x, h, r)
     else if k < key x then remove_descend key k l (Went_left x h r # stack)
     else remove_descend key k r (Went_right l x h # stack))"

text \<open>
  The second loop: from the left son of the node to delete to the last node on the right;
  the frames pushed, that node and its left son.
\<close>

fun rightmost_descend ::
  "'a vm_avl \<Rightarrow> 'a frame list \<Rightarrow> ('a frame list \<times> 'a vm_avl \<times> 'a) option" where
  "rightmost_descend vm_avl_empty stack = None"
| "rightmost_descend (vm_avl_node l x h r) stack =
    (if r = vm_avl_empty then Some (stack, l, x)
     else rightmost_descend r (Went_right l x h # stack))"

definition avl_remove :: "('a \<Rightarrow> 'k::linorder) \<Rightarrow> 'a \<Rightarrow> 'a vm_avl \<Rightarrow> 'a vm_avl option" where
  "avl_remove key node_to_delete tree =
    (case remove_descend key (key node_to_delete) tree [] of
       None \<Rightarrow> None
     | Some (stack, l, x, h, r) \<Rightarrow>
         (if l = vm_avl_empty then Some (avl_rebalance stack r)
          else case rightmost_descend l [] of
                 None \<Rightarrow> None
               | Some (stack', node_left, node) \<Rightarrow>
                   Some (avl_rebalance (stack' @ Went_left node h r # stack) node_left)))"

section \<open>Neighbours\<close>

text \<open>
  \<open>avl_neighbours\<close> looks a node up and reports the nodes on both sides of it, with the
  messages it prints; \<open>vm_next\<close> is the link of the area list it compares the tree with.
\<close>

datatype avl_message = Node_not_found | Node_not_exactly_found | Tree_inconsistent_with_list

fun neighbours_search ::
  "('a \<Rightarrow> 'k::linorder) \<Rightarrow> 'k \<Rightarrow> 'a vm_avl \<Rightarrow> 'a option \<Rightarrow> 'a option \<Rightarrow>
   'a vm_avl \<times> 'a option \<times> 'a option" where
  "neighbours_search key k vm_avl_empty to_the_left to_the_right =
     (vm_avl_empty, to_the_left, to_the_right)"
| "neighbours_search key k (vm_avl_node l x h r) to_the_left to_the_right =
    (if k = key x then (vm_avl_node l x h r, to_the_left, to_the_right)
     else if k < key x then neighbours_search key k l to_the_left (Some x)
     else neighbours_search key k r (Some x) to_the_right)"

fun rightmost_node :: "'a vm_avl \<Rightarrow> 'a option" where
  "rightmost_node vm_avl_empty = None"
| "rightmost_node (vm_avl_node l x h r) =
    (if r = vm_avl_empty then Some x else rightmost_node r)"

fun leftmost_node :: "'a vm_avl \<Rightarrow> 'a option" where
  "leftmost_node vm_avl_empty = None"
| "leftmost_node (vm_avl_node l x h r) =
    (if l = vm_avl_empty then Some x else leftmost_node l)"

definition avl_neighbours ::
  "('a \<Rightarrow> 'k::linorder) \<Rightarrow> ('a \<Rightarrow> 'a option) \<Rightarrow> 'a \<Rightarrow> 'a vm_avl \<Rightarrow>
   'a option \<times> 'a option \<times> avl_message list" where
  "avl_neighbours key vm_next node tree =
    (case neighbours_search key (key node) tree None None of
       (vm_avl_empty, to_the_left, to_the_right) \<Rightarrow>
         (to_the_left, to_the_right, [Node_not_found])
     | (vm_avl_node l x h r, to_the_left, to_the_right) \<Rightarrow>
         if x \<noteq> node then (to_the_left, to_the_right, [Node_not_exactly_found])
         else
           let lft = (if l \<noteq> vm_avl_empty then rightmost_node l else to_the_left);
               rgt = (if r \<noteq> vm_avl_empty then leftmost_node r else to_the_right)
           in (lft, rgt,
               if (case lft of None \<Rightarrow> False | Some a \<Rightarrow> vm_next a \<noteq> Some node) \<or>
                  vm_next node \<noteq> rgt
               then [Tree_inconsistent_with_list] else []))"

section \<open>The consistency checks of the source\<close>

text \<open>
  \<open>avl_checkheights\<close>, \<open>avl_checkleft\<close>, \<open>avl_checkright\<close> and \<open>avl_checkorder\<close> print a message
  where the tree is inconsistent; here they say whether they stay silent.
\<close>

fun avl_checkheights :: "'a vm_avl \<Rightarrow> bool" where
  "avl_checkheights vm_avl_empty = True"
| "avl_checkheights (vm_avl_node l x h r) =
    (avl_checkheights l \<and> avl_checkheights r \<and>
     (let hl = heightof l; hr = heightof r in
      (h = hl + 1 \<and> hr \<le> hl \<and> hl \<le> hr + 1) \<or> (h = hr + 1 \<and> hl \<le> hr \<and> hr \<le> hl + 1)))"

fun avl_checkleft :: "('a \<Rightarrow> 'k::linorder) \<Rightarrow> 'a vm_avl \<Rightarrow> 'k \<Rightarrow> bool" where
  "avl_checkleft key vm_avl_empty k = True"
| "avl_checkleft key (vm_avl_node l x h r) k =
    (avl_checkleft key l k \<and> avl_checkleft key r k \<and> key x < k)"

fun avl_checkright :: "('a \<Rightarrow> 'k::linorder) \<Rightarrow> 'a vm_avl \<Rightarrow> 'k \<Rightarrow> bool" where
  "avl_checkright key vm_avl_empty k = True"
| "avl_checkright key (vm_avl_node l x h r) k =
    (avl_checkright key l k \<and> avl_checkright key r k \<and> k < key x)"

fun avl_checkorder :: "('a \<Rightarrow> 'k::linorder) \<Rightarrow> 'a vm_avl \<Rightarrow> bool" where
  "avl_checkorder key vm_avl_empty = True"
| "avl_checkorder key (vm_avl_node l x h r) =
    (avl_checkorder key l \<and> avl_checkorder key r \<and>
     avl_checkleft key l (key x) \<and> avl_checkright key r (key x))"

text \<open>\<open>avl_check\<close> runs both checks on the tree of a task.\<close>

definition avl_check :: "('a \<Rightarrow> 'k::linorder) \<Rightarrow> 'a vm_avl \<Rightarrow> bool" where
  "avl_check key tree \<longleftrightarrow> avl_checkheights tree \<and> avl_checkorder key tree"


section \<open>In-order contents\<close>

fun inorder :: "'a vm_avl \<Rightarrow> 'a list" where
  "inorder vm_avl_empty = []"
| "inorder (vm_avl_node l x h r) = inorder l @ x # inorder r"

fun left_of :: "'a frame \<Rightarrow> 'a list" where
  "left_of (Went_left x h r) = []"
| "left_of (Went_right l x h) = inorder l @ [x]"

fun right_of :: "'a frame \<Rightarrow> 'a list" where
  "right_of (Went_left x h r) = x # inorder r"
| "right_of (Went_right l x h) = []"

definition before :: "'a frame list \<Rightarrow> 'a list" where
  "before fs = concat (map left_of (rev fs))"

definition after :: "'a frame list \<Rightarrow> 'a list" where
  "after fs = concat (map right_of fs)"

lemma before_after_simps [simp]:
  "before [] = []" "before (f # fs) = before fs @ left_of f"
  "before (fs @ gs) = before gs @ before fs"
  "after [] = []" "after (f # fs) = right_of f @ after fs"
  "after (fs @ gs) = after fs @ after gs"
  by (simp_all add: before_def after_def)

lemma inorder_plug [simp]: "inorder (plug f t) = left_of f @ inorder t @ right_of f"
  by (cases f) auto

lemma inorder_plug_all [simp]: "inorder (plug_all fs t) = before fs @ inorder t @ after fs"
  by (induction fs t rule: plug_all.induct) auto

lemma inorder_rebalance_node [simp]: "inorder (fst (rebalance_node t)) = inorder t"
  by (cases t rule: rebalance_node.cases)
     (auto simp: Let_def split: vm_avl.splits)

lemma inorder_avl_rebalance [simp]:
  "inorder (avl_rebalance fs t) = before fs @ inorder t @ after fs"
proof (induction fs t rule: avl_rebalance.induct)
  case (2 f fs t)
  obtain t' b where t': "rebalance_node (plug f t) = (t', b)" by fastforce
  then have "inorder t' = left_of f @ inorder t @ right_of f"
    using inorder_rebalance_node [of "plug f t"] by simp
  with 2 t' show ?case by (cases b) auto
qed simp

section \<open>Heights\<close>

text \<open>
  A stack of frames fits a hole of height \<open>n\<close> when filling the hole with a checked tree
  of that height gives a checked tree.
\<close>

abbreviation balanced :: "nat \<Rightarrow> nat \<Rightarrow> bool" where
  "balanced hl hr \<equiv> hl \<le> hr + 1 \<and> hr \<le> hl + 1"

fun stack_fits :: "'a frame list \<Rightarrow> nat \<Rightarrow> bool" where
  "stack_fits [] n = True"
| "stack_fits (Went_left x h r # fs) n =
    (avl_checkheights r \<and> balanced n (heightof r) \<and> h = 1 + max n (heightof r) \<and> stack_fits fs h)"
| "stack_fits (Went_right l x h # fs) n =
    (avl_checkheights l \<and> balanced (heightof l) n \<and> h = 1 + max (heightof l) n \<and> stack_fits fs h)"

lemma avl_checkheights_node:
  "avl_checkheights (vm_avl_node l x h r) \<longleftrightarrow>
     avl_checkheights l \<and> avl_checkheights r \<and> balanced (heightof l) (heightof r) \<and>
     h = 1 + max (heightof l) (heightof r)"
  by (auto simp: Let_def)

lemmas checkheights_simps = avl_checkheights.simps(1) avl_checkheights_node

declare avl_checkheights.simps(2) [simp del]

lemma heightof_0 [simp]: "avl_checkheights t \<Longrightarrow> heightof t = 0 \<longleftrightarrow> t = vm_avl_empty"
  by (cases t) (auto simp: checkheights_simps)

lemma plug_all_checkheights:
  "avl_checkheights t \<Longrightarrow> stack_fits fs (heightof t) \<Longrightarrow> avl_checkheights (plug_all fs t)"
proof (induction fs t rule: plug_all.induct)
  case (2 f fs t)
  then show ?case by (cases f) (auto simp: checkheights_simps)
qed simp

text \<open>
  One rebalancing step of a node whose sons are checked and whose heights differ by at most
  two: the result is checked, and its height is the larger son's height or one more.
\<close>

lemma rebalance_node_checkheights:
  assumes "avl_checkheights l" and "avl_checkheights r"
    and "heightof l \<le> heightof r + 2" and "heightof r \<le> heightof l + 2"
    and "rebalance_node (vm_avl_node l x h r) = (t, b)"
  shows "avl_checkheights t \<and>
    (if balanced (heightof l) (heightof r)
     then heightof t = 1 + max (heightof l) (heightof r)
     else b \<and> (heightof t = max (heightof l) (heightof r) \<or>
               heightof t = 1 + max (heightof l) (heightof r))) \<and> (\<not> b \<longrightarrow> heightof t = h)"
  using assms
  by (auto simp: Let_def checkheights_simps max_def split: if_splits vm_avl.splits)

lemma avl_rebalance_checkheights:
  assumes "stack_fits fs n" and "avl_checkheights t"
    and "heightof t \<le> n + 1" and "n \<le> heightof t + 1"
  shows "avl_checkheights (avl_rebalance fs t)"
  using assms
proof (induction fs t arbitrary: n rule: avl_rebalance.induct)
  case (2 f fs t)
  obtain l x h r where node: "plug f t = vm_avl_node l x h r" by (cases f) auto
  obtain t' b where t': "rebalance_node (vm_avl_node l x h r) = (t', b)" by fastforce
  have sons: "avl_checkheights l" "avl_checkheights r"
    "heightof l \<le> heightof r + 2" "heightof r \<le> heightof l + 2" and fits: "stack_fits fs h"
    using 2(2-) node by (cases f; auto)+
  note step = rebalance_node_checkheights [OF sons t']
  have "heightof t' \<le> h + 1 \<and> h \<le> heightof t' + 1"
    using step 2(2-) node by (cases f) (auto split: if_splits)
  with 2 t' step fits node show ?case
    by (cases b) (auto intro: plug_all_checkheights)
qed simp


section \<open>What the search loops find\<close>

lemma avl_checkleft_iff: "avl_checkleft key t k \<longleftrightarrow> (\<forall>x\<in>set (inorder t). key x < k)"
  by (induction t) auto

lemma avl_checkright_iff: "avl_checkright key t k \<longleftrightarrow> (\<forall>x\<in>set (inorder t). k < key x)"
  by (induction t) auto

lemma avl_checkorder_iff: "avl_checkorder key t \<longleftrightarrow> ordered_by key (inorder t)"
  by (induction t)
     (auto simp: avl_checkleft_iff avl_checkright_iff ordered_by_append dest: order.strict_trans)

abbreviation up_to :: "('a \<Rightarrow> 'k::linorder) \<Rightarrow> 'k \<Rightarrow> 'a list \<Rightarrow> 'a list" where
  "up_to key k xs \<equiv> takeWhile (\<lambda>y. key y \<le> k) xs"

abbreviation beyond :: "('a \<Rightarrow> 'k::linorder) \<Rightarrow> 'k \<Rightarrow> 'a list \<Rightarrow> 'a list" where
  "beyond key k xs \<equiv> dropWhile (\<lambda>y. key y \<le> k) xs"

lemma up_to_beyond_left:
  assumes "ordered_by key (xs @ x # ys)" and "k < key x"
  shows "up_to key k (xs @ x # ys) = up_to key k xs"
    and "beyond key k (xs @ x # ys) = beyond key k xs @ x # ys"
  using assms by (induction xs) auto

lemma up_to_beyond_right:
  assumes "ordered_by key (xs @ x # ys)" and "\<not> k < key x"
  shows "up_to key k (xs @ x # ys) = xs @ x # up_to key k ys"
    and "beyond key k (xs @ x # ys) = beyond key k ys"
proof -
  have "\<forall>y\<in>set xs. key y \<le> k" using assms by (fastforce simp: ordered_by_append)
  with assms(2) show "up_to key k (xs @ x # ys) = xs @ x # up_to key k ys"
    and "beyond key k (xs @ x # ys) = beyond key k ys" by auto
qed

definition last_or :: "'a list \<Rightarrow> 'a option \<Rightarrow> 'a option" where
  "last_or xs d = (if xs = [] then d else Some (last xs))"

definition first_or :: "'a list \<Rightarrow> 'a option \<Rightarrow> 'a option" where
  "first_or xs d = (case xs of [] \<Rightarrow> d | x # _ \<Rightarrow> Some x)"

lemma last_or_first_or_append [simp]:
  "last_or (xs @ x # ys) d = last_or ys (Some x)" "first_or (xs @ x # ys) d = first_or xs (Some x)"
  by (auto simp: last_or_def first_or_def split: list.splits)

lemma insert_descend_spec:
  assumes "ordered_by key (inorder t)"
    and "insert_descend key k t stack lft rgt = (stack', lft', rgt')"
  shows "before stack' = before stack @ up_to key k (inorder t) \<and>
    after stack' = beyond key k (inorder t) @ after stack \<and>
    lft' = last_or (up_to key k (inorder t)) lft \<and>
    rgt' = first_or (beyond key k (inorder t)) rgt"
  using assms
proof (induction t arbitrary: stack lft rgt)
  case (vm_avl_node l x h r)
  have ord: "ordered_by key (inorder l)" "ordered_by key (inorder r)"
    using vm_avl_node.prems(1) by (auto simp: ordered_by_append)
  note sides = up_to_beyond_left [OF vm_avl_node.prems(1) [simplified]]
    up_to_beyond_right [OF vm_avl_node.prems(1) [simplified]]
  show ?case
  proof (cases "k < key x")
    case True
    with vm_avl_node.prems(2) vm_avl_node.IH(1) [OF ord(1)] show ?thesis
      by (auto simp: sides)
  next
    case False
    with vm_avl_node.prems(2) vm_avl_node.IH(2) [OF ord(2)] show ?thesis
      by (auto simp: sides)
  qed
qed (simp add: last_or_def first_or_def)

lemma insert_descend_fits:
  assumes "insert_descend key k t stack lft rgt = (stack', lft', rgt')"
    and "avl_checkheights t" and "stack_fits stack (heightof t)"
  shows "stack_fits stack' 0 \<and> length stack' \<le> length stack + heightof t"
  using assms
proof (induction t arbitrary: stack lft rgt)
  case (vm_avl_node l x h r)
  show ?case
  proof (cases "k < key x")
    case True
    with vm_avl_node.prems vm_avl_node.IH(1) [of "Went_left x h r # stack" lft "Some x"]
    show ?thesis by (auto simp: checkheights_simps)
  next
    case False
    with vm_avl_node.prems vm_avl_node.IH(2) [of "Went_right l x h # stack" "Some x" rgt]
    show ?thesis by (auto simp: checkheights_simps)
  qed
qed simp

lemma remove_descend_spec:
  assumes "ordered_by key (inorder t)" and "x \<in> set (inorder t)"
  shows "\<exists>stack' l h r. remove_descend key (key x) t stack = Some (stack', l, x, h, r) \<and>
    before stack' @ inorder l @ x # inorder r @ after stack' =
      before stack @ inorder t @ after stack \<and>
    (avl_checkheights t \<longrightarrow> stack_fits stack (heightof t) \<longrightarrow>
      stack_fits stack' h \<and> avl_checkheights (vm_avl_node l x h r) \<and>
      length stack' + h \<le> length stack + heightof t)"
  using assms
proof (induction t arbitrary: stack)
  case (vm_avl_node l y h r)
  then have ord: "ordered_by key (inorder l)" "ordered_by key (inorder r)"
    and cmp: "\<forall>z\<in>set (inorder l). key z < key y" "\<forall>z\<in>set (inorder r). key y < key z"
    by (auto simp: ordered_by_append)
  consider "x = y" | "x \<in> set (inorder l)" "key x < key y" | "x \<in> set (inorder r)" "key y < key x"
    using vm_avl_node.prems(2) cmp by auto
  then show ?case
  proof cases
    case 1
    then show ?thesis by auto
  next
    case 2
    with vm_avl_node.IH(1) [OF ord(1), of "Went_left y h r # stack"] show ?thesis
      by (fastforce simp: checkheights_simps)
  next
    case 3
    with vm_avl_node.IH(2) [OF ord(2), of "Went_right l y h # stack"] show ?thesis
      by (fastforce simp: checkheights_simps)
  qed
qed simp

lemma rightmost_descend_spec:
  assumes "t \<noteq> vm_avl_empty" and "avl_checkheights t"
  shows "\<exists>pushed l x. (\<forall>stack. rightmost_descend t stack = Some (pushed @ stack, l, x)) \<and>
    before pushed @ inorder l @ [x] = inorder t \<and> after pushed = [] \<and> avl_checkheights l \<and>
    length pushed + 1 \<le> heightof t \<and>
    (\<forall>stack. stack_fits stack (heightof t) \<longrightarrow> stack_fits (pushed @ stack) (Suc (heightof l)))"
  using assms
proof (induction t)
  case (vm_avl_node l x h r)
  show ?case
  proof (cases "r = vm_avl_empty")
    case True
    with vm_avl_node.prems show ?thesis
      by (intro exI [of _ "[]"] exI [of _ l] exI [of _ x]) (auto simp: checkheights_simps)
  next
    case False
    with vm_avl_node.IH(2) vm_avl_node.prems obtain pushed l' y where
      "\<forall>stack. rightmost_descend r stack = Some (pushed @ stack, l', y)"
      "before pushed @ inorder l' @ [y] = inorder r" "after pushed = []" "avl_checkheights l'"
      "length pushed + 1 \<le> heightof r"
      "\<forall>stack. stack_fits stack (heightof r) \<longrightarrow> stack_fits (pushed @ stack) (Suc (heightof l'))"
      by (auto simp: checkheights_simps)
    with False vm_avl_node.prems show ?thesis
      by (intro exI [of _ "pushed @ [Went_right l x h]"] exI [of _ l'] exI [of _ y])
         (auto simp: checkheights_simps)
  qed
qed simp

lemma inorder_Nil_iff [simp]: "inorder t = [] \<longleftrightarrow> t = vm_avl_empty"
  by (cases t) auto

lemma first_or_last_or_append2:
  "first_or (xs @ ys) d = first_or xs (first_or ys d)"
  "last_or (xs @ ys) d = last_or ys (last_or xs d)"
  by (auto simp: last_or_def first_or_def split: list.splits)

lemma rightmost_node_last: "rightmost_node t = last_or (inorder t) None"
  by (induction t) (auto simp: last_or_def split: if_splits)

lemma leftmost_node_first: "leftmost_node t = first_or (inorder t) None"
  by (induction t) (auto simp: first_or_def split: if_splits list.splits)

lemma neighbours_search_spec:
  assumes "ordered_by key (inorder t)" and "x \<in> set (inorder t)"
  shows "\<exists>l h r xs ys. neighbours_search key (key x) t lft rgt =
      (vm_avl_node l x h r, last_or xs lft, first_or ys rgt) \<and>
    inorder t = xs @ inorder l @ x # inorder r @ ys"
  using assms
proof (induction t arbitrary: lft rgt)
  case (vm_avl_node l y h r)
  then have ord: "ordered_by key (inorder l)" "ordered_by key (inorder r)"
    and cmp: "\<forall>z\<in>set (inorder l). key z < key y" "\<forall>z\<in>set (inorder r). key y < key z"
    by (auto simp: ordered_by_append)
  consider "x = y" | "x \<in> set (inorder l)" "key x < key y" | "x \<in> set (inorder r)" "key y < key x"
    using vm_avl_node.prems(2) cmp by auto
  then show ?case
  proof cases
    case 1
    then show ?thesis
      by - (rule exI [of _ l], rule exI [of _ h], rule exI [of _ r], rule exI [of _ "[]"],
          rule exI [of _ "[]"], simp add: last_or_def first_or_def)
  next
    case 2
    obtain l' h' r' xs ys where "neighbours_search key (key x) l lft (Some y) =
        (vm_avl_node l' x h' r', last_or xs lft, first_or ys (Some y))"
      "inorder l = xs @ inorder l' @ x # inorder r' @ ys"
      using vm_avl_node.IH(1) [OF ord(1) 2(1)] by blast
    with 2 show ?thesis
      by - (rule exI [of _ l'], rule exI [of _ h'], rule exI [of _ r'],
          rule exI [of _ xs], rule exI [of _ "ys @ y # inorder r"], auto)
  next
    case 3
    obtain l' h' r' xs ys where "neighbours_search key (key x) r (Some y) rgt =
        (vm_avl_node l' x h' r', last_or xs (Some y), first_or ys rgt)"
      "inorder r = xs @ inorder l' @ x # inorder r' @ ys"
      using vm_avl_node.IH(2) [OF ord(2) 3(1)] by blast
    with 3 show ?thesis
      by - (rule exI [of _ l'], rule exI [of _ h'], rule exI [of _ r'],
          rule exI [of _ "inorder l @ y # xs"], rule exI [of _ ys], auto)
  qed
qed simp

section \<open>Insertion and removal keep the checks\<close>

lemma avl_insert_eq: "avl_insert key x t = fst (avl_insert_neighbours key x t)"
  by (simp add: avl_insert_def avl_insert_neighbours_def split: prod.splits)

lemma avl_insert_neighbours_contents:
  assumes "ordered_by key (inorder t)" and "avl_insert_neighbours key x t = (t', lft, rgt)"
  shows "inorder t' = up_to key (key x) (inorder t) @ x # beyond key (key x) (inorder t) \<and>
    lft = last_or (up_to key (key x) (inorder t)) None \<and>
    rgt = first_or (beyond key (key x) (inorder t)) None"
  using assms insert_descend_spec [OF assms(1), of "key x" "[]" None None]
  by (auto simp: avl_insert_neighbours_def split: prod.splits)

lemma avl_insert_neighbours_heights:
  assumes "avl_checkheights t"
  shows "avl_checkheights (fst (avl_insert_neighbours key x t))"
proof -
  obtain stack lft rgt where d: "insert_descend key (key x) t [] None None = (stack, lft, rgt)"
    by (metis prod_cases3)
  then have "stack_fits stack 0" using insert_descend_fits [OF d assms] by simp
  then have "avl_checkheights (avl_rebalance stack (vm_avl_node vm_avl_empty x 1 vm_avl_empty))"
    by (rule avl_rebalance_checkheights) (auto simp: checkheights_simps)
  with d show ?thesis by (simp add: avl_insert_neighbours_def)
qed

lemma set_up_to_beyond: "set (up_to key k xs) \<union> set (beyond key k xs) = set xs"
  by (metis set_append takeWhile_dropWhile_id)

lemma ordered_insert:
  assumes "ordered_by key xs" and "\<forall>y\<in>set xs. key y \<noteq> key x"
  shows "ordered_by key (up_to key (key x) xs @ x # beyond key (key x) xs)"
  using assms
proof (induction xs)
  case (Cons y ys)
  show ?case
  proof (cases "key y \<le> key x")
    case True
    have "\<forall>z\<in>set (up_to key (key x) ys @ x # beyond key (key x) ys). key y < key z"
      using Cons.prems True set_up_to_beyond [of key "key x" ys] by fastforce
    with Cons True show ?thesis by simp
  next
    case False
    with Cons.prems show ?thesis by (fastforce intro: order.strict_trans)
  qed
qed simp

lemma avl_remove_spec:
  assumes "ordered_by key (inorder t)" and "x \<in> set (inorder t)" and "avl_checkheights t"
  shows "\<exists>t' xs ys. avl_remove key x t = Some t' \<and> avl_checkheights t' \<and>
    inorder t = xs @ x # ys \<and> inorder t' = xs @ ys"
proof -
  obtain stack l h r where d: "remove_descend key (key x) t [] = Some (stack, l, x, h, r)"
    and io: "before stack @ inorder l @ x # inorder r @ after stack = inorder t"
    and fits: "stack_fits stack h" and node: "avl_checkheights (vm_avl_node l x h r)"
    using remove_descend_spec [OF assms(1,2), of "[]"] assms(3) by auto
  have split: "inorder t = (before stack @ inorder l) @ x # (inorder r @ after stack)"
    using io by simp
  show ?thesis
  proof (cases "l = vm_avl_empty")
    case True
    have "avl_checkheights (avl_rebalance stack r)"
      using node True by (intro avl_rebalance_checkheights [OF fits]) (auto simp: checkheights_simps)
    with True d split show ?thesis by (fastforce simp: avl_remove_def)
  next
    case False
    obtain pushed nl y where d': "\<And>stack. rightmost_descend l stack = Some (pushed @ stack, nl, y)"
      and io': "before pushed @ inorder nl @ [y] = inorder l" "after pushed = []"
      and nl: "avl_checkheights nl"
      and fits': "\<And>stack. stack_fits stack (heightof l) \<Longrightarrow>
        stack_fits (pushed @ stack) (Suc (heightof nl))"
      using rightmost_descend_spec [OF False] node by (auto simp: checkheights_simps)
    have "stack_fits (pushed @ Went_left y h r # stack) (Suc (heightof nl))"
      using node fits by (intro fits') (auto simp: checkheights_simps)
    then have "avl_checkheights (avl_rebalance (pushed @ Went_left y h r # stack) nl)"
      by (rule avl_rebalance_checkheights) (use nl in auto)
    moreover have "inorder (avl_rebalance (pushed @ Went_left y h r # stack) nl) =
        (before stack @ inorder l) @ (inorder r @ after stack)"
      using io' by (simp flip: io'(1))
    ultimately show ?thesis using False d d' split by (fastforce simp: avl_remove_def)
  qed
qed


section \<open>The height of a checked tree\<close>

text \<open>The fewest nodes a checked tree of a given height has.\<close>

fun min_nodes :: "nat \<Rightarrow> nat" where
  "min_nodes 0 = 0"
| "min_nodes (Suc 0) = 1"
| "min_nodes (Suc (Suc n)) = min_nodes (Suc n) + min_nodes n + 1"

lemma min_nodes_mono_Suc: "min_nodes n \<le> min_nodes (Suc n)"
  by (induction n rule: min_nodes.induct) auto

lemma min_nodes_mono: "m \<le> n \<Longrightarrow> min_nodes m \<le> min_nodes n"
  by (rule lift_Suc_mono_le [of min_nodes, OF min_nodes_mono_Suc])

lemma min_nodes_le_size: "avl_checkheights t \<Longrightarrow> min_nodes (heightof t) \<le> length (inorder t)"
proof (induction t)
  case (vm_avl_node l x h r)
  define m where "m = max (heightof l) (heightof r)"
  have m: "m - 1 \<le> heightof l" "m - 1 \<le> heightof r" "h = Suc m" and
    "m = heightof l \<or> m = heightof r"
    using vm_avl_node.prems by (auto simp: checkheights_simps m_def)
  then have "min_nodes m + min_nodes (m - 1) \<le> min_nodes (heightof l) + min_nodes (heightof r)"
    by (metis add.commute add_le_mono le_refl min_nodes_mono)
  moreover have "min_nodes (heightof l) \<le> length (inorder l)"
    "min_nodes (heightof r) \<le> length (inorder r)"
    using vm_avl_node by (auto simp: checkheights_simps)
  moreover have "min_nodes h = min_nodes m + min_nodes (m - 1) + 1"
    using m(3) by (cases m) auto
  ultimately show ?case by simp
qed simp

lemma min_nodes_pair:
  "((\<lambda>(a, b). (b, b + a + 1)) ^^ n) (0, 1) = (int (min_nodes n), int (min_nodes (Suc n)))"
  by (induction n) auto

lemma min_nodes_42: "min_nodes 42 = 701408732"
proof -
  have "int (min_nodes 42) = fst (((\<lambda>(a, b). (b, b + a + 1)) ^^ 42) (0, 1 :: int))"
    by (simp only: min_nodes_pair fst_conv)
  also have "\<dots> = 701408732" by code_simp
  finally show ?thesis by simp
qed

lemma heightof_le_maxheight:
  assumes "avl_checkheights t" and "length (inorder t) < 701408732"
  shows "heightof t \<le> avl_maxheight"
proof (rule ccontr)
  assume "\<not> heightof t \<le> avl_maxheight"
  then have "min_nodes 42 \<le> min_nodes (heightof t)"
    by (intro min_nodes_mono) (simp add: avl_maxheight_def)
  with min_nodes_le_size [OF assms(1)] assms(2) show False by (simp add: min_nodes_42)
qed

section \<open>The index interface\<close>

text \<open>
  What \<open>mm/mmap.c\<close> relies on: an index of areas by key whose contents are the list of areas in
  key order, under insertion and removal.
\<close>

locale area_index =
  fixes empty :: 't
    and insert :: "('a \<Rightarrow> 'k::linorder) \<Rightarrow> 'a \<Rightarrow> 't \<Rightarrow> 't"
    and remove :: "('a \<Rightarrow> 'k) \<Rightarrow> 'a \<Rightarrow> 't \<Rightarrow> 't option"
    and contents :: "'t \<Rightarrow> 'a list"
    and ok :: "'t \<Rightarrow> bool"
  assumes ok_empty: "ok empty" and contents_empty: "contents empty = []"
    and ok_insert: "ok t \<Longrightarrow> ok (insert key x t)"
    and contents_insert: "ok t \<Longrightarrow> ordered_by key (contents t) \<Longrightarrow>
      contents (insert key x t) = up_to key (key x) (contents t) @ x # beyond key (key x) (contents t)"
    and remove_found: "ok t \<Longrightarrow> ordered_by key (contents t) \<Longrightarrow> x \<in> set (contents t) \<Longrightarrow>
      \<exists>t'. remove key x t = Some t' \<and> ok t' \<and> contents t' = remove1 x (contents t)"
begin

lemma ordered_contents_insert:
  "ok t \<Longrightarrow> ordered_by key (contents t) \<Longrightarrow> \<forall>y\<in>set (contents t). key y \<noteq> key x \<Longrightarrow>
     ordered_by key (contents (insert key x t))"
  by (simp add: contents_insert ordered_insert)

lemma contents_insert_last:
  assumes "ok t" and "ordered_by key (contents t @ [x])"
  shows "contents (insert key x t) = contents t @ [x]"
proof -
  have "\<forall>y\<in>set (contents t). key y \<le> key x" using assms(2) by (auto simp: ordered_by_append)
  then have "up_to key (key x) (contents t) = contents t" "beyond key (key x) (contents t) = []"
    by (auto simp: takeWhile_eq_all_conv)
  with assms show ?thesis by (simp add: contents_insert ordered_by_append)
qed

text \<open>Inserting the elements of an ordered list in turn indexes exactly that list.\<close>

lemma fold_insert:
  "ok t \<Longrightarrow> ordered_by key (contents t @ xs) \<Longrightarrow>
     ok (fold (insert key) xs t) \<and> contents (fold (insert key) xs t) = contents t @ xs"
proof (induction xs arbitrary: t)
  case (Cons x xs)
  have "ordered_by key (contents t @ [x])" using Cons.prems(2) by (simp add: ordered_by_append)
  then have "contents (insert key x t) = contents t @ [x]"
    using Cons.prems(1) by (simp add: contents_insert_last)
  with Cons.prems Cons.IH [of "insert key x t"] show ?case by (simp add: ok_insert)
qed simp

end

lemma remove1_split:
  "distinct (xs @ x # ys) \<Longrightarrow> remove1 x (xs @ x # ys) = xs @ ys"
  by (simp add: remove1_append)

interpretation avl: area_index vm_avl_empty avl_insert avl_remove inorder avl_checkheights
proof unfold_locales
  fix t :: "'a vm_avl" and key :: "'a \<Rightarrow> 'k::linorder" and x
  assume ok: "avl_checkheights t"
  then show "avl_checkheights (avl_insert key x t)"
    by (simp add: avl_insert_eq avl_insert_neighbours_heights)
  assume ord: "ordered_by key (inorder t)"
  then show "inorder (avl_insert key x t) =
      up_to key (key x) (inorder t) @ x # beyond key (key x) (inorder t)"
    using avl_insert_neighbours_contents [OF ord, of x] by (simp add: avl_insert_eq prod_eq_iff)
  assume "x \<in> set (inorder t)"
  from avl_remove_spec [OF ord this ok] ordered_by_distinct [OF ord]
  show "\<exists>t'. avl_remove key x t = Some t' \<and> avl_checkheights t' \<and>
      inorder t' = remove1 x (inorder t)"
    by (metis remove1_split)
qed auto


section \<open>Properties\<close>

text \<open>
  C6: inserting an area whose key no area of the tree has keeps the tree consistent in the
  sense of the source's own \<open>avl_check\<close> (stored heights, balance, strict key order), adds
  exactly that area, at its place in key order, and reports the areas next to it.
\<close>

theorem avl_insert_neighbours_correct:
  assumes "avl_check key t" and "\<forall>y\<in>set (inorder t). key y \<noteq> key x"
    and "avl_insert_neighbours key x t = (t', to_the_left, to_the_right)"
  shows "avl_check key t' \<and> avl_insert key x t = t' \<and>
    (\<exists>xs ys. inorder t = xs @ ys \<and> inorder t' = xs @ x # ys \<and>
      to_the_left = last_or xs None \<and> to_the_right = first_or ys None)"
proof -
  have ord: "ordered_by key (inorder t)" and ok: "avl_checkheights t"
    using assms(1) by (auto simp: avl_check_def avl_checkorder_iff)
  note contents = avl_insert_neighbours_contents [OF ord assms(3)]
  have "avl_checkheights t'"
    using avl_insert_neighbours_heights [OF ok, of key x] assms(3) by simp
  moreover have "ordered_by key (inorder t')"
    using contents ordered_insert [OF ord assms(2)] by simp
  moreover have "avl_insert key x t = t'" using assms(3) by (simp add: avl_insert_eq)
  ultimately show ?thesis
    using contents takeWhile_dropWhile_id [of "\<lambda>y. key y \<le> key x" "inorder t"]
    by (metis avl_check_def avl_checkorder_iff)
qed

theorem avl_insert_neighbours_correct_witness:
  "avl_check id (avl_insert id (5::nat) (avl_insert id 9 (avl_insert id 3 vm_avl_empty))) \<and>
   snd (avl_insert_neighbours id (5::nat) (avl_insert id 9 (avl_insert id 3 vm_avl_empty))) =
     (Some 3, Some 9)"
proof -
  let ?t = "avl_insert id (9::nat) (avl_insert id 3 vm_avl_empty)"
  obtain t' l r where t': "avl_insert_neighbours id 5 ?t = (t', l, r)" by (metis prod_cases3)
  have h: "avl_check id ?t" "\<forall>y\<in>set (inorder ?t). id y \<noteq> id 5" by code_simp+
  have "snd (avl_insert_neighbours id 5 ?t) = (Some 3, Some 9)" by code_simp
  with avl_insert_neighbours_correct [OF h t'] show ?thesis by simp
qed

text \<open>
  C7: removing an area of a consistent tree succeeds (the search never follows a null
  pointer), keeps the tree consistent and takes exactly that area out of the key order.
\<close>

theorem avl_remove_correct:
  assumes "avl_check key t" and "x \<in> set (inorder t)"
  shows "\<exists>t'. avl_remove key x t = Some t' \<and> avl_check key t' \<and>
    inorder t' = remove1 x (inorder t)"
proof -
  have ord: "ordered_by key (inorder t)" and ok: "avl_checkheights t"
    using assms(1) by (auto simp: avl_check_def avl_checkorder_iff)
  obtain t' xs ys where t': "avl_remove key x t = Some t'" "avl_checkheights t'"
    "inorder t = xs @ x # ys" "inorder t' = xs @ ys"
    using avl_remove_spec [OF ord assms(2) ok] by blast
  moreover have "remove1 x (inorder t) = inorder t'"
    using t' ordered_by_distinct [OF ord] by (simp add: remove1_split)
  moreover have "ordered_by key (inorder t')" using ord t' by (auto simp: ordered_by_append)
  ultimately show ?thesis by (auto simp: avl_check_def avl_checkorder_iff)
qed

definition example_tree :: "nat vm_avl" where
  "example_tree = fold (avl_insert id) [1, 2, 3, 4, 5, 6, 7] vm_avl_empty"

theorem avl_remove_correct_witness:
  "\<exists>t'. avl_remove id 4 example_tree = Some t' \<and> avl_check id t' \<and> inorder t' = [1, 2, 3, 5, 6, 7]"
proof -
  have h: "avl_check id example_tree" "4 \<in> set (inorder example_tree)" by code_simp+
  have "remove1 4 (inorder example_tree) = [1, 2, 3, 5, 6, 7]" by code_simp
  with avl_remove_correct [OF h] show ?thesis by simp
qed

text \<open>
  C20: the array \<open>stack[avl_maxheight]\<close> that insertion and removal keep on the kernel stack
  is never overrun, for any consistent tree of fewer than 701408732 areas: insertion pushes at
  most \<open>avl_maxheight\<close> places, and so does removal, which also writes to the slot just above
  the place of the node to delete.
\<close>

theorem avl_stack_not_overrun:
  assumes "avl_check key t" and "length (inorder t) < 701408732"
  shows "length (fst (insert_descend key k t [] None None)) \<le> avl_maxheight \<and>
    (\<forall>x stack l h r stack' nl y.
       x \<in> set (inorder t) \<longrightarrow> remove_descend key (key x) t [] = Some (stack, l, x, h, r) \<longrightarrow>
       length stack + 1 \<le> avl_maxheight \<and>
       (rightmost_descend l [] = Some (stack', nl, y) \<longrightarrow>
        length stack' + length stack + 1 \<le> avl_maxheight \<and> length stack + 1 < avl_maxheight))"
proof -
  have ord: "ordered_by key (inorder t)" and ok: "avl_checkheights t"
    using assms(1) by (auto simp: avl_check_def avl_checkorder_iff)
  have max: "heightof t \<le> avl_maxheight" by (rule heightof_le_maxheight [OF ok assms(2)])
  have "length (fst (insert_descend key k t [] None None)) \<le> avl_maxheight"
    using insert_descend_fits [OF _ ok, of key k "[]" None None] max by (cases "insert_descend key k t [] None None") fastforce
  moreover have "length stack + 1 \<le> avl_maxheight \<and>
       (rightmost_descend l [] = Some (stack', nl, y) \<longrightarrow>
        length stack' + length stack + 1 \<le> avl_maxheight \<and> length stack + 1 < avl_maxheight)"
    if "x \<in> set (inorder t)" "remove_descend key (key x) t [] = Some (stack, l, x, h, r)"
    for x stack l h r stack' nl y
  proof -
    have node: "avl_checkheights (vm_avl_node l x h r)" "length stack + h \<le> heightof t"
      using remove_descend_spec [OF ord that(1), of "[]"] that(2) ok by auto
    moreover have "length stack' + 1 \<le> heightof l" if "rightmost_descend l [] = Some (stack', nl, y)"
      using rightmost_descend_spec [of l] that node by (cases l) (auto simp: checkheights_simps)
    ultimately show ?thesis using max by (auto simp: checkheights_simps)
  qed
  ultimately show ?thesis by blast
qed

theorem avl_stack_not_overrun_witness:
  "length (fst (insert_descend id 8 example_tree [] None None)) \<le> avl_maxheight"
proof -
  have "length (inorder example_tree) = 7" and check: "avl_check id example_tree" by code_simp+
  then have size: "length (inorder example_tree) < 701408732" by simp
  show ?thesis using avl_stack_not_overrun [OF check size, of 8] by blast
qed

text \<open>
  on a consistent tree whose area list agrees with its in-order contents, the debugging
  function \<open>avl_neighbours\<close> finds the areas next to a node of the tree and stays silent.
\<close>

theorem avl_neighbours_correct:
  assumes "avl_check key t" and "inorder t = xs @ x # ys"
    and "vm_next x = first_or ys None" and "xs \<noteq> [] \<Longrightarrow> vm_next (last xs) = Some x"
  shows "avl_neighbours key vm_next x t = (last_or xs None, first_or ys None, [])"
proof -
  have ord: "ordered_by key (inorder t)"
    using assms(1) by (auto simp: avl_check_def avl_checkorder_iff)
  obtain l h r xs' ys' where search: "neighbours_search key (key x) t None None =
      (vm_avl_node l x h r, last_or xs' None, first_or ys' None)"
    and io: "inorder t = xs' @ inorder l @ x # inorder r @ ys'"
    using neighbours_search_spec [OF ord, of x] assms(2) by fastforce
  have "distinct (xs @ x # ys)" using ordered_by_distinct [OF ord] assms(2) by simp
  then have sides: "xs = xs' @ inorder l" "ys = inorder r @ ys'"
    using io assms(2) append_Cons_eq_iff [of x xs ys "xs' @ inorder l" "inorder r @ ys'"] by auto
  have lft: "(if l \<noteq> vm_avl_empty then rightmost_node l else last_or xs' None) = last_or xs None"
    by (cases "inorder l = []") (auto simp: sides rightmost_node_last first_or_last_or_append2 last_or_def)
  have rgt: "(if r \<noteq> vm_avl_empty then leftmost_node r else first_or ys' None) = first_or ys None"
    by (cases "inorder r = []") (auto simp: sides leftmost_node_first first_or_last_or_append2 first_or_def split: list.splits)
  show ?thesis
    unfolding avl_neighbours_def search prod.case vm_avl.case Let_def lft rgt
    using assms(3,4) by (auto simp: last_or_def)
qed

theorem avl_neighbours_correct_witness:
  "avl_neighbours id (\<lambda>a. if a < 7 then Some (Suc a) else None) 4 example_tree =
     (Some 3, Some 5, [])"
proof -
  have h: "avl_check id example_tree" "inorder example_tree = [1, 2, 3] @ 4 # [5, 6, 7]" by code_simp+
  show ?thesis
    using avl_neighbours_correct [OF h, of "\<lambda>a. if a < 7 then Some (Suc a) else None"]
    by (simp add: last_or_def first_or_def)
qed

end
