(* ===== verification/Mmap_Areas.thy ===== *)
theory Mmap_Areas
  imports Mmap_Avl
begin

text \<open>
  The memory areas of a process, \<open>mm/mmap.c\<close>: data and lookup. Areas are numbered objects in
  a store \<open>areas\<close>, so that the list \<open>mmap\<close> (the chain of \<open>vm_next\<close> links), the tree
  \<open>mmap_avl\<close> and the cache \<open>mmap_cache\<close> share them as the pointers of the source do. The
  allocator of area structures (\<open>vm_area_cachep\<close>) is the list of its free objects:
  \<open>kmem_cache_alloc\<close> takes the first and fails when there is none. Calls that leave the
  component (driver callbacks, page tables, TLB and cache flushes) are recorded in the field
  \<open>vm_trace\<close>, in order. The kernel runs these functions under \<open>mmap_sem\<close>, so one at a time.
\<close>

section \<open>Data\<close>

definition TASK_SIZE :: ulong where
  "TASK_SIZE = 0xC0000000"

definition TASK_UNMAPPED_BASE :: ulong where
  "TASK_UNMAPPED_BASE = TASK_SIZE div 3"

definition MAX_MAP_COUNT :: int where
  "MAX_MAP_COUNT = 65536"

definition AVL_MIN_MAP_COUNT :: int where
  "AVL_MIN_MAP_COUNT = 32"

definition PGDIR_SHIFT :: nat where
  "PGDIR_SHIFT = 22"

definition PGDIR_SIZE :: ulong where
  "PGDIR_SIZE = 0x400000"

definition PGDIR_MASK :: ulong where
  "PGDIR_MASK = NOT (PGDIR_SIZE - 1)"

definition USER_PTRS_PER_PGD :: ulong where
  "USER_PTRS_PER_PGD = TASK_SIZE div PGDIR_SIZE"

text \<open>The driver's operations of an area: their address and which of them are set.\<close>

record vm_operations_struct =
  ops_address :: nat
  ops_open :: bool
  ops_close :: bool
  ops_unmap :: bool

record vm_area_struct =
  vm_start :: ulong
  vm_end :: ulong
  vm_page_prot :: nat
  vm_flags :: "16 word"
  vm_ops :: "vm_operations_struct option"
  vm_pgoff :: ulong
  vm_file :: "nat option"
  vm_private_data :: ulong

definition VM_READ :: "16 word" where "VM_READ = 0x0001"
definition VM_WRITE :: "16 word" where "VM_WRITE = 0x0002"
definition VM_EXEC :: "16 word" where "VM_EXEC = 0x0004"
definition VM_SHARED :: "16 word" where "VM_SHARED = 0x0008"
definition VM_MAYREAD :: "16 word" where "VM_MAYREAD = 0x0010"
definition VM_MAYWRITE :: "16 word" where "VM_MAYWRITE = 0x0020"
definition VM_MAYEXEC :: "16 word" where "VM_MAYEXEC = 0x0040"
definition VM_MAYSHARE :: "16 word" where "VM_MAYSHARE = 0x0080"
definition VM_GROWSDOWN :: "16 word" where "VM_GROWSDOWN = 0x0100"
definition VM_SHM :: "16 word" where "VM_SHM = 0x0400"
definition VM_DENYWRITE :: "16 word" where "VM_DENYWRITE = 0x0800"
definition VM_EXECUTABLE :: "16 word" where "VM_EXECUTABLE = 0x1000"
definition VM_LOCKED :: "16 word" where "VM_LOCKED = 0x2000"

text \<open>What the mapping code uses of an open file and of its inode.\<close>

record map_file =
  f_inode :: nat
  f_count :: int
  f_mode :: ulong
  f_op_mmap :: bool

record map_inode =
  i_writecount :: int
  i_mmap :: "nat list"
  i_append :: bool
  i_mandatory_locked :: bool

datatype vm_event =
    Op_open nat
  | Op_close nat
  | Op_unmap nat ulong ulong
  | Flush_cache_range ulong ulong
  | Flush_tlb_range ulong ulong
  | Zap_page_range ulong ulong
  | Clear_page_tables ulong ulong
  | Make_pages_present ulong ulong
  | Release_segments
  | Tree_inconsistent
  | Map_count_left int

text \<open>
  \<open>struct mm_struct\<close> of the current process, with the resource limits of the process, the
  counters \<open>vm_enough_memory\<close> reads, and the objects areas point to.
\<close>

record vm_state =
  areas :: "nat \<Rightarrow> vm_area_struct"
  vm_area_cachep :: "nat list"
  mmap :: "nat list"
  mmap_avl :: "nat vm_avl"
  mmap_cache :: "nat option"
  map_count :: int
  end_code :: ulong
  brk :: ulong
  rss :: ulong
  total_vm :: ulong
  locked_vm :: ulong
  def_flags :: ulong
  rlim_data :: ulong
  rlim_stack :: ulong
  rlim_memlock :: ulong
  rlim_as :: ulong
  sysctl_overcommit_memory :: bool
  buffermem_pages :: int
  page_cache_size :: int
  free_page_count :: int
  nr_swap_pages :: int
  files :: "nat \<Rightarrow> map_file"
  inodes :: "nat \<Rightarrow> map_inode"
  vm_trace :: "vm_event list"

abbreviation start_of :: "vm_state \<Rightarrow> nat \<Rightarrow> ulong" where
  "start_of s i \<equiv> vm_start (areas s i)"

abbreviation end_of :: "vm_state \<Rightarrow> nat \<Rightarrow> ulong" where
  "end_of s i \<equiv> vm_end (areas s i)"

definition log_event :: "vm_event \<Rightarrow> vm_state \<Rightarrow> vm_state" where
  "log_event e s = s\<lparr>vm_trace := vm_trace s @ [e]\<rparr>"

definition upd_area :: "nat \<Rightarrow> (vm_area_struct \<Rightarrow> vm_area_struct) \<Rightarrow> vm_state \<Rightarrow> vm_state" where
  "upd_area i f s = s\<lparr>areas := (areas s)(i := f (areas s i))\<rparr>"

definition upd_file :: "nat \<Rightarrow> (map_file \<Rightarrow> map_file) \<Rightarrow> vm_state \<Rightarrow> vm_state" where
  "upd_file f g s = s\<lparr>files := (files s)(f := g (files s f))\<rparr>"

definition upd_inode :: "nat \<Rightarrow> (map_inode \<Rightarrow> map_inode) \<Rightarrow> vm_state \<Rightarrow> vm_state" where
  "upd_inode n g s = s\<lparr>inodes := (inodes s)(n := g (inodes s n))\<rparr>"

definition get_file :: "nat \<Rightarrow> vm_state \<Rightarrow> vm_state" where
  "get_file f s = upd_file f (\<lambda>r. r\<lparr>f_count := f_count r + 1\<rparr>) s"

definition fput :: "nat \<Rightarrow> vm_state \<Rightarrow> vm_state" where
  "fput f s = upd_file f (\<lambda>r. r\<lparr>f_count := f_count r - 1\<rparr>) s"

definition kmem_cache_free :: "nat \<Rightarrow> vm_state \<Rightarrow> vm_state" where
  "kmem_cache_free i s = s\<lparr>vm_area_cachep := i # vm_area_cachep s\<rparr>"

definition vm_enough_memory :: "vm_state \<Rightarrow> int \<Rightarrow> bool" where
  "vm_enough_memory s pages =
    (if sysctl_overcommit_memory s then True
     else buffermem_pages s + page_cache_size s + free_page_count s + nr_swap_pages s > pages)"

section \<open>Looking areas up\<close>

text \<open>The linear search of \<open>find_vma\<close>.\<close>

fun find_in_list :: "(nat \<Rightarrow> vm_area_struct) \<Rightarrow> ulong \<Rightarrow> nat list \<Rightarrow> nat option" where
  "find_in_list a addr [] = None"
| "find_in_list a addr (v # vs) =
    (if vm_end (a v) \<le> addr then find_in_list a addr vs else Some v)"

text \<open>The tree search of \<open>find_vma\<close>; the last argument is the variable \<open>vma\<close>.\<close>

fun find_in_tree ::
  "(nat \<Rightarrow> vm_area_struct) \<Rightarrow> ulong \<Rightarrow> nat vm_avl \<Rightarrow> nat option \<Rightarrow> nat option" where
  "find_in_tree a addr vm_avl_empty vma = vma"
| "find_in_tree a addr (vm_avl_node l x h r) vma =
    (if vm_end (a x) > addr
     then (if vm_start (a x) \<le> addr then Some x else find_in_tree a addr l (Some x))
     else find_in_tree a addr r vma)"

definition find_vma :: "vm_state \<Rightarrow> ulong \<Rightarrow> nat option \<times> vm_state" where
  "find_vma s addr =
    (if (case mmap_cache s of
           None \<Rightarrow> False
         | Some vma \<Rightarrow> end_of s vma > addr \<and> start_of s vma \<le> addr)
     then (mmap_cache s, s)
     else
       (let vma = (if mmap_avl s = vm_avl_empty then find_in_list (areas s) addr (mmap s)
                   else find_in_tree (areas s) addr (mmap_avl s) None)
        in (vma, if vma \<noteq> None then s\<lparr>mmap_cache := vma\<rparr> else s)))"

fun find_prev_in_list ::
  "(nat \<Rightarrow> vm_area_struct) \<Rightarrow> ulong \<Rightarrow> nat list \<Rightarrow> nat option \<Rightarrow> nat option \<times> nat option" where
  "find_prev_in_list a addr [] prev = (None, prev)"
| "find_prev_in_list a addr (v # vs) prev =
    (if vm_end (a v) \<le> addr then find_prev_in_list a addr vs (Some v) else (Some v, prev))"

text \<open>
  The tree search of \<open>find_vma_prev\<close>: the subtree whose root is \<open>vma\<close> (if any), \<open>prev\<close> and
  \<open>last_turn_right\<close>.
\<close>

fun find_prev_in_tree ::
  "(nat \<Rightarrow> vm_area_struct) \<Rightarrow> ulong \<Rightarrow> nat vm_avl \<Rightarrow>
   (nat vm_avl \<times> nat) option \<Rightarrow> nat option \<Rightarrow> nat option \<Rightarrow>
   (nat vm_avl \<times> nat) option \<times> nat option" where
  "find_prev_in_tree a addr vm_avl_empty vma prev last_turn_right = (vma, prev)"
| "find_prev_in_tree a addr (vm_avl_node l x h r) vma prev last_turn_right =
    (if vm_end (a x) > addr
     then (if vm_start (a x) \<le> addr then (Some (l, x), last_turn_right)
           else find_prev_in_tree a addr l (Some (l, x)) last_turn_right last_turn_right)
     else find_prev_in_tree a addr r vma prev (Some x))"

text \<open>The area after \<open>prev\<close> in the list, the first one for a null pointer.\<close>

fun next_in_list :: "nat list \<Rightarrow> nat option \<Rightarrow> nat option" where
  "next_in_list vs None = (case vs of [] \<Rightarrow> None | v # _ \<Rightarrow> Some v)"
| "next_in_list vs (Some p) =
    (case dropWhile (\<lambda>v. v \<noteq> p) vs of _ # v # _ \<Rightarrow> Some v | _ \<Rightarrow> None)"

text \<open>The areas of the list up to \<open>prev\<close>, and the chain that starts at an area.\<close>

fun list_up_to :: "nat list \<Rightarrow> nat option \<Rightarrow> nat list" where
  "list_up_to vs None = []"
| "list_up_to vs (Some p) =
    (if p \<in> set vs then takeWhile (\<lambda>v. v \<noteq> p) vs @ [p] else vs)"

definition chain_from :: "nat list \<Rightarrow> nat \<Rightarrow> nat list" where
  "chain_from vs v = dropWhile (\<lambda>w. w \<noteq> v) vs"

definition find_vma_prev :: "vm_state \<Rightarrow> ulong \<Rightarrow> nat option \<times> nat option \<times> vm_state" where
  "find_vma_prev s addr =
    (if mmap_avl s = vm_avl_empty then
       (let (vma, prev) = find_prev_in_list (areas s) addr (mmap s) None in (vma, prev, s))
     else
       (case find_prev_in_tree (areas s) addr (mmap_avl s) None None None of
          (Some (l, vma), prev) \<Rightarrow>
            (let prev' = (if l \<noteq> vm_avl_empty then rightmost_node l else prev);
                 s' = (if next_in_list (mmap s) prev' \<noteq> Some vma
                       then log_event Tree_inconsistent s else s)
             in (Some vma, prev', s'))
        | (None, _) \<Rightarrow> (None, None, s)))"

definition find_vma_intersection ::
  "vm_state \<Rightarrow> ulong \<Rightarrow> ulong \<Rightarrow> nat option \<times> vm_state" where
  "find_vma_intersection s start_addr end_addr =
    (case find_vma s start_addr of
       (Some v, s') \<Rightarrow> (if end_addr \<le> start_of s' v then None else Some v, s')
     | (None, s') \<Rightarrow> (None, s'))"

text \<open>
  The loop of \<open>get_unmapped_area\<close>, along the list from the area the search found; the value
  0 is the failure.
\<close>

fun unmapped_loop ::
  "(nat \<Rightarrow> vm_area_struct) \<Rightarrow> ulong \<Rightarrow> ulong \<Rightarrow> nat list \<Rightarrow> ulong" where
  "unmapped_loop a len addr [] = (if TASK_SIZE - len < addr then 0 else addr)"
| "unmapped_loop a len addr (v # vs) =
    (if TASK_SIZE - len < addr then 0
     else if addr + len \<le> vm_start (a v) then addr
     else unmapped_loop a len (vm_end (a v)) vs)"

definition get_unmapped_area :: "vm_state \<Rightarrow> ulong \<Rightarrow> ulong \<Rightarrow> ulong \<times> vm_state" where
  "get_unmapped_area s addr len =
    (if len > TASK_SIZE then (0, s)
     else
       (let addr = (if addr = 0 then TASK_UNMAPPED_BASE else addr); addr = PAGE_ALIGN addr in
        case find_vma s addr of
          (Some v, s') \<Rightarrow> (unmapped_loop (areas s') len addr (chain_from (mmap s') v), s')
        | (None, s') \<Rightarrow> (unmapped_loop (areas s') len addr [], s')))"

definition expand_stack :: "vm_state \<Rightarrow> nat \<Rightarrow> ulong \<Rightarrow> errno option \<times> vm_state" where
  "expand_stack s vma address =
    (let address = address AND PAGE_MASK;
         grow = drop_bit PAGE_SHIFT (start_of s vma - address) in
     if end_of s vma - address > rlim_stack s \<or>
        push_bit PAGE_SHIFT (total_vm s + grow) > rlim_as s
     then (Some ENOMEM, s)
     else
       (let s = upd_area vma (\<lambda>v. v\<lparr>vm_start := address, vm_pgoff := vm_pgoff v - grow\<rparr>) s;
            s = s\<lparr>total_vm := total_vm s + grow\<rparr>
        in (None, if vm_flags (areas s vma) AND VM_LOCKED \<noteq> 0
                  then s\<lparr>locked_vm := locked_vm s + grow\<rparr> else s)))"

text \<open>\<open>make_pages_present\<close> (\<open>mm/memory.c\<close>) looks the area up and faults its pages in.\<close>

definition make_pages_present :: "vm_state \<Rightarrow> ulong \<Rightarrow> ulong \<Rightarrow> vm_state outcome" where
  "make_pages_present s addr end_addr =
    (case find_vma s addr of
       (None, s') \<Rightarrow> Bug
     | (Some _, s') \<Rightarrow>
         if addr \<ge> end_addr then Bug else Done (log_event (Make_pages_present addr end_addr) s'))"

definition find_extend_vma :: "vm_state \<Rightarrow> ulong \<Rightarrow> (nat option \<times> vm_state) outcome" where
  "find_extend_vma s addr =
    (let addr = addr AND PAGE_MASK in
     case find_vma s addr of
       (None, s) \<Rightarrow> Done (None, s)
     | (Some vma, s) \<Rightarrow>
         if start_of s vma \<le> addr then Done (Some vma, s)
         else if vm_flags (areas s vma) AND VM_GROWSDOWN = 0 then Done (None, s)
         else
           (let start = start_of s vma in
            case expand_stack s vma addr of
              (Some _, s) \<Rightarrow> Done (None, s)
            | (None, s) \<Rightarrow>
                if vm_flags (areas s vma) AND VM_LOCKED \<noteq> 0
                then bind_outcome (make_pages_present s addr start) (\<lambda>s. Done (Some vma, s))
                else Done (Some vma, s)))"

section \<open>Well-formed address spaces\<close>

definition area_ok :: "vm_area_struct \<Rightarrow> bool" where
  "area_ok v \<longleftrightarrow> vm_start v < vm_end v \<and> vm_end v \<le> TASK_SIZE \<and>
     page_aligned (vm_start v) \<and> page_aligned (vm_end v)"

abbreviation precedes :: "(nat \<Rightarrow> vm_area_struct) \<Rightarrow> nat \<Rightarrow> nat \<Rightarrow> bool" where
  "precedes a i j \<equiv> vm_end (a i) \<le> vm_start (a j)"

definition areas_ok :: "(nat \<Rightarrow> vm_area_struct) \<Rightarrow> nat list \<Rightarrow> bool" where
  "areas_ok a vs \<longleftrightarrow> (\<forall>i\<in>set vs. area_ok (a i)) \<and> sorted_wrt (precedes a) vs"

text \<open>
  The list is ordered and free of overlaps, the tree, when there is one, indexes exactly the
  list, the counters and the cache agree with it, and no area in use is free.
\<close>

definition vm_wf :: "vm_state \<Rightarrow> bool" where
  "vm_wf s \<longleftrightarrow> areas_ok (areas s) (mmap s) \<and>
     (mmap_avl s = vm_avl_empty \<or>
      avl_checkheights (mmap_avl s) \<and> inorder (mmap_avl s) = mmap s) \<and>
     map_count s = int (length (mmap s)) \<and>
     (\<forall>c. mmap_cache s = Some c \<longrightarrow> c \<in> set (mmap s)) \<and>
     distinct (vm_area_cachep s) \<and> set (vm_area_cachep s) \<inter> set (mmap s) = {}"

lemma areas_ok_simps [simp]:
  "areas_ok a []"
  "areas_ok a (v # vs) \<longleftrightarrow> area_ok (a v) \<and> (\<forall>w\<in>set vs. precedes a v w) \<and> areas_ok a vs"
  by (auto simp: areas_ok_def)

lemma areas_ok_append:
  "areas_ok a (vs @ ws) \<longleftrightarrow> areas_ok a vs \<and> areas_ok a ws \<and>
     (\<forall>v\<in>set vs. \<forall>w\<in>set ws. precedes a v w)"
  by (auto simp: areas_ok_def sorted_wrt_append)

lemma area_ok_nonempty [dest]: "area_ok v \<Longrightarrow> vm_start v < vm_end v"
  by (simp add: area_ok_def)

lemma areas_ok_ordered: "areas_ok a vs \<Longrightarrow> ordered_by (\<lambda>i. vm_end (a i)) vs"
  unfolding areas_ok_def
  by (rule sorted_wrt_mono_rel [of _ "precedes a"]) (auto simp: area_ok_def intro: order.strict_trans1)

lemma areas_ok_distinct: "areas_ok a vs \<Longrightarrow> distinct vs"
  by (rule ordered_by_distinct [OF areas_ok_ordered])

text \<open>The areas that end at or before an address, and those that end after it.\<close>

abbreviation ending_by :: "(nat \<Rightarrow> vm_area_struct) \<Rightarrow> ulong \<Rightarrow> nat list \<Rightarrow> nat list" where
  "ending_by a addr vs \<equiv> takeWhile (\<lambda>v. vm_end (a v) \<le> addr) vs"

abbreviation ending_after :: "(nat \<Rightarrow> vm_area_struct) \<Rightarrow> ulong \<Rightarrow> nat list \<Rightarrow> nat list" where
  "ending_after a addr vs \<equiv> dropWhile (\<lambda>v. vm_end (a v) \<le> addr) vs"

lemma ending_cut:
  assumes "areas_ok a (xs @ x # ys)"
  shows "addr < vm_end (a x) \<Longrightarrow> ending_by a addr (xs @ x # ys) = ending_by a addr xs"
    and "addr < vm_end (a x) \<Longrightarrow>
      ending_after a addr (xs @ x # ys) = ending_after a addr xs @ x # ys"
    and "vm_end (a x) \<le> addr \<Longrightarrow> ending_by a addr (xs @ x # ys) = xs @ x # ending_by a addr ys"
    and "vm_end (a x) \<le> addr \<Longrightarrow> ending_after a addr (xs @ x # ys) = ending_after a addr ys"
  using up_to_beyond_left [OF areas_ok_ordered [OF assms], of addr]
    up_to_beyond_right [OF areas_ok_ordered [OF assms], of addr]
  by (auto simp: not_less)

lemma all_ending_by:
  assumes "areas_ok a (xs @ x # ys)" and "vm_start (a x) \<le> addr"
  shows "ending_by a addr xs = xs" and "ending_after a addr xs = []"
  using assms by (auto simp: areas_ok_append takeWhile_eq_all_conv intro: order_trans)

lemma find_in_list_spec: "find_in_list a addr vs = first_or (ending_after a addr vs) None"
  by (induction vs) (auto simp: first_or_def)

declare dropWhile_eq_Nil_conv [simp del]

lemma first_or_last_or_simps [simp]:
  "first_or [] d = d" "first_or (x # xs) d = Some x" "last_or [] d = d"
  by (simp_all add: first_or_def last_or_def)

lemma find_in_tree_spec:
  "areas_ok a (inorder t) \<Longrightarrow>
     find_in_tree a addr t vma = first_or (ending_after a addr (inorder t)) vma"
proof (induction t arbitrary: vma)
  case (vm_avl_node l x h r)
  note cut = ending_cut [OF vm_avl_node.prems [simplified], of addr]
    all_ending_by [OF vm_avl_node.prems [simplified], of addr]
  have "areas_ok a (inorder l)" "areas_ok a (inorder r)"
    using vm_avl_node.prems by (auto simp: areas_ok_append)
  with vm_avl_node.IH show ?case
    by (auto simp: cut not_less)
qed simp

lemma find_prev_in_list_spec:
  "find_prev_in_list a addr vs prev =
     (first_or (ending_after a addr vs) None, last_or (ending_by a addr vs) prev)"
  by (induction vs arbitrary: prev) (auto simp: last_or_def)

lemma left_neighbour_last_or:
  "(if l \<noteq> vm_avl_empty then rightmost_node l else p) = last_or (inorder l) p"
  by (auto simp: rightmost_node_last last_or_def)

lemma ending_by_all: "ending_after a addr vs = [] \<Longrightarrow> ending_by a addr vs = vs"
  using takeWhile_dropWhile_id [of "\<lambda>v. vm_end (a v) \<le> addr" vs] by simp

lemma find_prev_in_tree_None:
  "areas_ok a (inorder t) \<Longrightarrow> ending_after a addr (inorder t) = [] \<Longrightarrow>
     find_prev_in_tree a addr t vma prev ltr = (vma, prev)"
proof (induction t arbitrary: ltr)
  case (vm_avl_node l x h r)
  note cut = ending_cut [OF vm_avl_node.prems(1) [simplified], of addr]
  have "\<not> addr < vm_end (a x)" using cut(2) vm_avl_node.prems(2) by force
  moreover from this have "ending_after a addr (inorder r) = []"
    using cut(4) vm_avl_node.prems(2) by (simp add: not_less)
  ultimately show ?case using vm_avl_node by (simp add: areas_ok_append)
qed simp

lemma find_prev_in_tree_Some:
  "areas_ok a (inorder t) \<Longrightarrow> ending_after a addr (inorder t) = y # ys \<Longrightarrow>
     \<exists>l p. find_prev_in_tree a addr t vma prev ltr = (Some (l, y), p) \<and>
       last_or (inorder l) p = last_or (ending_by a addr (inorder t)) ltr"
proof (induction t arbitrary: vma prev ltr ys)
  case (vm_avl_node l x h r)
  note cut = ending_cut [OF vm_avl_node.prems(1) [simplified], of addr]
    all_ending_by [OF vm_avl_node.prems(1) [simplified], of addr]
  have ok: "areas_ok a (inorder l)" "areas_ok a (inorder r)"
    using vm_avl_node.prems by (auto simp: areas_ok_append)
  consider (here) "addr < vm_end (a x)" "vm_start (a x) \<le> addr"
    | (left) "addr < vm_end (a x)" "\<not> vm_start (a x) \<le> addr" | (right) "vm_end (a x) \<le> addr"
    by force
  then show ?case
  proof cases
    case here
    then have "ending_by a addr (inorder l @ x # inorder r) = inorder l"
      and "ending_after a addr (inorder l @ x # inorder r) = x # inorder r"
      by (simp_all add: cut)
    with here vm_avl_node.prems(2) show ?thesis by auto
  next
    case left
    show ?thesis
    proof (cases "ending_after a addr (inorder l)")
      case Nil
      then have "ending_by a addr (inorder l @ x # inorder r) = inorder l"
        and "ending_after a addr (inorder l @ x # inorder r) = x # inorder r"
        using left ending_by_all [OF Nil] by (simp_all add: cut)
      with left vm_avl_node.prems(2) find_prev_in_tree_None [OF ok(1) Nil] show ?thesis
        by auto
    next
      case (Cons z zs)
      with left vm_avl_node.prems(2) vm_avl_node.IH(1) [OF ok(1), of zs] show ?thesis
        by (auto simp: cut)
    qed
  next
    case right
    with vm_avl_node.prems(2) vm_avl_node.IH(2) [OF ok(2), of ys vma prev "Some x"] show ?thesis
      by (auto simp: cut)
  qed
qed simp

lemma next_in_list_last_or:
  assumes "distinct (xs @ ys)"
  shows "next_in_list (xs @ ys) (last_or xs None) = first_or ys None"
proof (cases xs rule: rev_cases)
  case Nil
  then show ?thesis by (simp add: first_or_def)
next
  case (snoc zs z)
  with assms have "\<forall>v\<in>set zs. v \<noteq> z" by auto
  then have "dropWhile (\<lambda>v. v \<noteq> z) ((zs @ [z]) @ ys) = z # ys"
    by (induction zs) auto
  with snoc show ?thesis by (simp add: last_or_def first_or_def split: list.splits)
qed

lemma find_vma_prev_spec:
  fixes s addr
  assumes "vm_wf s"
  defines "xs \<equiv> ending_by (areas s) addr (mmap s)" and "ys \<equiv> ending_after (areas s) addr (mmap s)"
  shows "find_vma_prev s addr = (first_or ys None,
    if ys = [] \<and> mmap_avl s \<noteq> vm_avl_empty then None else last_or xs None, s)"
proof (cases "mmap_avl s = vm_avl_empty")
  case True
  then show ?thesis by (simp add: find_vma_prev_def find_prev_in_list_spec xs_def ys_def)
next
  case False
  then have io: "inorder (mmap_avl s) = mmap s" and ok: "areas_ok (areas s) (inorder (mmap_avl s))"
    using assms(1) by (auto simp: vm_wf_def)
  have whole: "mmap s = xs @ ys" by (simp add: xs_def ys_def)
  have "distinct (xs @ ys)" using areas_ok_distinct [OF ok] whole io by simp
  note next_first = next_in_list_last_or [OF this]
  show ?thesis
  proof (cases ys)
    case Nil
    with False find_prev_in_tree_None [OF ok, of addr] io show ?thesis
      by (simp add: find_vma_prev_def ys_def)
  next
    case (Cons y ys')
    with find_prev_in_tree_Some [OF ok, of addr] io obtain l p where
      "find_prev_in_tree (areas s) addr (mmap_avl s) None None None = (Some (l, y), p)"
      and p: "last_or (inorder l) p = last_or xs None"
      unfolding ys_def xs_def by metis
    with False Cons next_first whole show ?thesis
      by (simp only: find_vma_prev_def Let_def left_neighbour_last_or) (simp add: p)
  qed
qed

lemma find_vma_spec:
  assumes "vm_wf s"
  shows "\<exists>c. find_vma s addr =
      (first_or (ending_after (areas s) addr (mmap s)) None, s\<lparr>mmap_cache := c\<rparr>) \<and>
    vm_wf (s\<lparr>mmap_cache := c\<rparr>)"
proof -
  have ok: "areas_ok (areas s) (mmap s)" using assms by (simp add: vm_wf_def)
  let ?search = "if mmap_avl s = vm_avl_empty then find_in_list (areas s) addr (mmap s)
                   else find_in_tree (areas s) addr (mmap_avl s) None"
  have search: "?search = first_or (ending_after (areas s) addr (mmap s)) None"
    using assms find_in_tree_spec [of "areas s" "mmap_avl s"] by (auto simp: vm_wf_def find_in_list_spec)
  have cached: "Some c = first_or (ending_after (areas s) addr (mmap s)) None"
    if c: "mmap_cache s = Some c" "end_of s c > addr" "start_of s c \<le> addr" for c
  proof -
    from assms c(1) obtain xs ys where "mmap s = xs @ c # ys"
      by (auto simp: vm_wf_def dest!: split_list)
    with ok c(2,3) ending_cut(2) [of "areas s" xs c ys addr] all_ending_by(2) [of "areas s" xs c ys addr]
    show ?thesis by simp
  qed
  have "c \<in> set (mmap s)" if "first_or (ending_after (areas s) addr (mmap s)) None = Some c" for c
    using that set_dropWhileD [of c "\<lambda>v. end_of s v \<le> addr" "mmap s"]
    by (auto simp: first_or_def split: list.splits)
  note found = this
  let ?first = "first_or (ending_after (areas s) addr (mmap s)) None"
  show ?thesis
  proof (cases "case mmap_cache s of None \<Rightarrow> False
      | Some vma \<Rightarrow> end_of s vma > addr \<and> start_of s vma \<le> addr")
    case True
    then obtain c where c: "mmap_cache s = Some c" "end_of s c > addr" "start_of s c \<le> addr"
      by (auto split: option.splits)
    have "find_vma s addr = (mmap_cache s, s)"
      unfolding find_vma_def using True by (simp only: if_True)
    moreover have "s\<lparr>mmap_cache := mmap_cache s\<rparr> = s" by simp
    ultimately show ?thesis using assms cached [OF c] c(1) by metis
  next
    case False
    then have eq: "find_vma s addr = (?first, if ?first \<noteq> None then s\<lparr>mmap_cache := ?first\<rparr> else s)"
      by (simp only: find_vma_def search Let_def if_False)
    show ?thesis
    proof (cases ?first)
      case None
      moreover have "s\<lparr>mmap_cache := mmap_cache s\<rparr> = s" by simp
      ultimately show ?thesis using eq assms by (metis (full_types))
    next
      case (Some c)
      then have "vm_wf (s\<lparr>mmap_cache := Some c\<rparr>)" using assms found by (simp add: vm_wf_def)
      with eq Some show ?thesis by auto
    qed
  qed
qed

section \<open>Free ranges\<close>

definition range_free :: "vm_state \<Rightarrow> ulong \<Rightarrow> ulong \<Rightarrow> bool" where
  "range_free s addr len \<longleftrightarrow>
     (\<forall>i\<in>set (mmap s). end_of s i \<le> addr \<or> addr + len \<le> start_of s i)"

lemma fits_below_iff:
  "len \<le> TASK_SIZE \<Longrightarrow>
     \<not> TASK_SIZE - len < addr \<longleftrightarrow> unat addr + unat len \<le> unat TASK_SIZE"
  by (simp add: word_less_nat_alt word_le_nat_alt unat_sub not_less TASK_SIZE_def) linarith

lemma unat_fits_plus:
  "unat (addr :: ulong) + unat len \<le> unat TASK_SIZE \<Longrightarrow> unat (addr + len) = unat addr + unat len"
  by (rule unat_plus_no_wrap) (simp add: TASK_SIZE_def)

lemma unmapped_loop_sound:
  assumes "areas_ok a vs" and "len \<le> TASK_SIZE" and "unmapped_loop a len addr vs \<noteq> 0"
    and "\<forall>v\<in>set vs. addr < vm_end (a v)" and "page_aligned addr"
  defines "r \<equiv> unmapped_loop a len addr vs"
  shows "addr \<le> r \<and> unat r + unat len \<le> unat TASK_SIZE \<and> page_aligned r \<and>
    (\<forall>v\<in>set vs. vm_end (a v) \<le> r \<or> r + len \<le> vm_start (a v))"
  unfolding r_def using assms(1-5)
proof (induction vs arbitrary: addr)
  case Nil
  then show ?case by (auto simp: fits_below_iff split: if_splits)
next
  case (Cons v vs)
  have fits: "\<not> TASK_SIZE - len < addr" using Cons.prems(3) by (auto split: if_splits)
  show ?case
  proof (cases "addr + len \<le> vm_start (a v)")
    case True
    moreover have "addr + len \<le> vm_start (a w)" if "w \<in> set vs" for w
      using True Cons.prems(1) that by (auto simp: area_ok_def intro: order_trans less_imp_le)
    ultimately show ?thesis using fits Cons.prems by (auto simp: fits_below_iff)
  next
    case False
    have "\<forall>w\<in>set vs. vm_end (a v) < vm_end (a w)"
      using areas_ok_ordered [OF Cons.prems(1)] by simp
    moreover have "page_aligned (vm_end (a v))" using Cons.prems(1) by (simp add: area_ok_def)
    ultimately have "vm_end (a v) \<le> unmapped_loop a len (vm_end (a v)) vs \<and>
        unat (unmapped_loop a len (vm_end (a v)) vs) + unat len \<le> unat TASK_SIZE \<and>
        page_aligned (unmapped_loop a len (vm_end (a v)) vs) \<and>
        (\<forall>w\<in>set vs. vm_end (a w) \<le> unmapped_loop a len (vm_end (a v)) vs \<or>
          unmapped_loop a len (vm_end (a v)) vs + len \<le> vm_start (a w))"
      using Cons.prems fits False by (intro Cons.IH) auto
    then show ?thesis using fits False Cons.prems(4) by (auto intro: order_trans less_imp_le)
  qed
qed

lemma unmapped_loop_complete:
  assumes "areas_ok a vs" and "len \<le> TASK_SIZE" and "unmapped_loop a len addr vs = 0"
    and "addr \<noteq> 0" and "addr \<le> c" and "unat c + unat len \<le> unat TASK_SIZE"
  shows "\<exists>v\<in>set vs. \<not> (vm_end (a v) \<le> c \<or> c + len \<le> vm_start (a v))"
  using assms
proof (induction vs arbitrary: addr)
  case Nil
  then have "unat addr + unat len \<le> unat TASK_SIZE" by (simp add: word_le_nat_alt)
  then have "\<not> TASK_SIZE - len < addr" using fits_below_iff [OF assms(2)] by simp
  with Nil show ?case by simp
next
  case (Cons v vs)
  have fits: "unat addr + unat len \<le> unat TASK_SIZE"
    using Cons.prems by (simp add: word_le_nat_alt)
  then have "\<not> TASK_SIZE - len < addr" using fits_below_iff [OF assms(2)] by simp
  then have "\<not> addr + len \<le> vm_start (a v)" and rest: "unmapped_loop a len (vm_end (a v)) vs = 0"
    using Cons.prems by (auto split: if_splits)
  then have overlap: "\<not> c + len \<le> vm_start (a v)"
    using Cons.prems fits by (auto simp: word_le_nat_alt unat_fits_plus)
  show ?case
  proof (cases "vm_end (a v) \<le> c")
    case True
    have "vm_end (a v) \<noteq> 0" using Cons.prems(1) by (auto simp: area_ok_def)
    with Cons.IH [OF _ _ rest _ True] Cons.prems show ?thesis by auto
  next
    case False
    with overlap show ?thesis by auto
  qed
qed

lemma chain_from_ending_after:
  assumes "distinct vs" and "ending_after a addr vs = v # ws"
  shows "chain_from vs v = v # ws"
proof -
  have split: "vs = ending_by a addr vs @ v # ws"
    using takeWhile_dropWhile_id [of "\<lambda>i. vm_end (a i) \<le> addr" vs] assms(2) by simp
  then have "\<forall>w\<in>set (ending_by a addr vs). w \<noteq> v" using assms(1) by (metis disjoint_insert(1) distinct_append list.simps(15))
  then have "chain_from (ending_by a addr vs @ v # ws) v = v # ws"
    by (simp add: chain_from_def)
  with split show ?thesis by metis
qed

lemma ending_after_gt:
  assumes "ordered_by (\<lambda>i. vm_end (a i)) vs" and "v \<in> set (ending_after a addr vs)"
  shows "addr < vm_end (a v)"
  using assms by (induction vs) (auto split: if_splits)

text \<open>\<open>get_unmapped_area\<close> as one search from the rounded hint.\<close>

lemma get_unmapped_area_loop:
  fixes addr :: ulong
  assumes "vm_wf s" and "len \<le> TASK_SIZE"
  defines "start \<equiv> PAGE_ALIGN (if addr = 0 then TASK_UNMAPPED_BASE else addr)"
  shows "fst (get_unmapped_area s addr len) =
    unmapped_loop (areas s) len start (ending_after (areas s) start (mmap s))"
proof -
  have ok: "areas_ok (areas s) (mmap s)" using assms(1) by (simp add: vm_wf_def)
  obtain c where fv: "find_vma s start =
      (first_or (ending_after (areas s) start (mmap s)) None, s\<lparr>mmap_cache := c\<rparr>)"
    using find_vma_spec [OF assms(1)] by blast
  have "\<not> TASK_SIZE < len" using assms(2) by simp
  then have eq: "get_unmapped_area s addr len =
      (case find_vma s start of
         (Some v, s') \<Rightarrow> (unmapped_loop (areas s') len start (chain_from (mmap s') v), s')
       | (None, s') \<Rightarrow> (unmapped_loop (areas s') len start [], s'))"
    by (simp only: get_unmapped_area_def Let_def start_def if_False)
  show ?thesis
  proof (cases "ending_after (areas s) start (mmap s)")
    case Nil
    then show ?thesis by (simp add: eq fv)
  next
    case (Cons w ws)
    with chain_from_ending_after [OF areas_ok_distinct [OF ok] Cons] show ?thesis
      by (simp add: eq fv)
  qed
qed

lemma get_unmapped_area_state:
  assumes "vm_wf s"
  shows "\<exists>c. snd (get_unmapped_area s addr len) = s\<lparr>mmap_cache := c\<rparr> \<and> vm_wf (s\<lparr>mmap_cache := c\<rparr>)"
proof (cases "len > TASK_SIZE")
  case True
  have "s\<lparr>mmap_cache := mmap_cache s\<rparr> = s" by simp
  with True assms show ?thesis by (metis get_unmapped_area_def snd_conv)
next
  case False
  obtain v c where "find_vma s (PAGE_ALIGN (if addr = 0 then TASK_UNMAPPED_BASE else addr)) =
      (v, s\<lparr>mmap_cache := c\<rparr>)" "vm_wf (s\<lparr>mmap_cache := c\<rparr>)"
    using find_vma_spec [OF assms] by blast
  with False show ?thesis by (cases v) (auto simp: get_unmapped_area_def Let_def simp del: if_split)
qed

lemma get_unmapped_area_sound:
  assumes "vm_wf s" and "len \<le> TASK_SIZE"
    and start: "start = PAGE_ALIGN (if addr = 0 then TASK_UNMAPPED_BASE else addr)"
    and "fst (get_unmapped_area s addr len) = r" and "r \<noteq> 0"
  shows "start \<le> r \<and> page_aligned r \<and> unat r + unat len \<le> unat TASK_SIZE \<and> range_free s r len"
proof -
  let ?vs = "ending_after (areas s) start (mmap s)"
  have ok: "areas_ok (areas s) (mmap s)" using assms(1) by (simp add: vm_wf_def)
  have split: "mmap s = ending_by (areas s) start (mmap s) @ ?vs" by simp
  have ok': "areas_ok (areas s) ?vs" using ok split areas_ok_append by metis
  have r: "unmapped_loop (areas s) len start ?vs = r"
    using get_unmapped_area_loop [OF assms(1,2), of addr] assms(4) by (simp add: start)
  have after: "\<forall>v\<in>set ?vs. start < end_of s v"
    using ending_after_gt [OF areas_ok_ordered [OF ok]] by blast
  have by_start: "end_of s i \<le> start" if "i \<in> set (mmap s)" "i \<notin> set ?vs" for i
    using that split by (metis (no_types, lifting) Un_iff set_append set_takeWhileD)
  have "unmapped_loop (areas s) len start ?vs \<noteq> 0" "page_aligned start"
    using r assms(5) by (simp_all add: start)
  from unmapped_loop_sound [OF ok' assms(2) this(1) after this(2)]
  have a: "start \<le> r" "unat r + unat len \<le> unat TASK_SIZE" "page_aligned r"
    "\<forall>v\<in>set ?vs. end_of s v \<le> r \<or> r + len \<le> start_of s v"
    by (simp_all add: r)
  have "range_free s r len"
    unfolding range_free_def using a(1,4) by_start order_trans by blast
  with a show ?thesis by simp
qed

text \<open>
  C32: the address \<open>get_unmapped_area\<close> returns for a well-formed address space is page
  aligned, at or above the rounded hint, and starts a range of \<open>len\<close> bytes that lies in the
  user part of memory and overlaps no area; it returns 0 only when every range of \<open>len\<close> bytes
  that starts at or above the rounded hint overlaps some area.
\<close>

theorem get_unmapped_area_correct:
  assumes "vm_wf s" and "len \<le> TASK_SIZE"
    and start: "start = PAGE_ALIGN (if addr = 0 then TASK_UNMAPPED_BASE else addr)"
    and "start \<noteq> 0"
  shows "let r = fst (get_unmapped_area s addr len) in
    if r \<noteq> 0 then start \<le> r \<and> page_aligned r \<and> unat r + unat len \<le> unat TASK_SIZE \<and> range_free s r len
    else \<forall>c. start \<le> c \<and> unat c + unat len \<le> unat TASK_SIZE \<longrightarrow> \<not> range_free s c len"
proof (cases "fst (get_unmapped_area s addr len) = 0")
  case False
  with get_unmapped_area_sound [OF assms(1-3) refl] show ?thesis by (simp add: Let_def)
next
  case True
  let ?vs = "ending_after (areas s) start (mmap s)"
  have ok: "areas_ok (areas s) (mmap s)" using assms(1) by (simp add: vm_wf_def)
  have "mmap s = ending_by (areas s) start (mmap s) @ ?vs" by simp
  then have ok': "areas_ok (areas s) ?vs" using ok areas_ok_append by metis
  have zero: "unmapped_loop (areas s) len start ?vs = 0"
    using get_unmapped_area_loop [OF assms(1,2), of addr] True by (simp add: start)
  have "\<not> range_free s c len" if "start \<le> c" "unat c + unat len \<le> unat TASK_SIZE" for c
    using unmapped_loop_complete [OF ok' assms(2) zero assms(4) that] set_dropWhileD
    by (fastforce simp: range_free_def)
  with True show ?thesis by simp
qed

section \<open>An example\<close>

text \<open>
  A process with four pages of program text mapped from file 0, two pages of data, and a stack
  of two pages; three area structures are free.
\<close>

definition example_areas :: "nat \<Rightarrow> vm_area_struct" where
  "example_areas i =
    (if i = 0 then \<lparr>vm_start = 0x08048000, vm_end = 0x0804C000, vm_page_prot = 5, vm_flags = 0x1875,
                    vm_ops = None, vm_pgoff = 0, vm_file = Some 0, vm_private_data = 0\<rparr>
     else if i = 1 then \<lparr>vm_start = 0x0804C000, vm_end = 0x0804E000, vm_page_prot = 7,
                    vm_flags = 0x77, vm_ops = None, vm_pgoff = 0, vm_file = None,
                    vm_private_data = 0\<rparr>
     else \<lparr>vm_start = 0xBFFFE000, vm_end = 0xC0000000, vm_page_prot = 7, vm_flags = 0x177,
           vm_ops = None, vm_pgoff = 0, vm_file = None, vm_private_data = 0\<rparr>)"

definition example_vm :: vm_state where
  "example_vm =
    \<lparr>areas = example_areas, vm_area_cachep = [3, 4, 5], mmap = [0, 1, 2],
     mmap_avl = vm_avl_empty, mmap_cache = None, map_count = 3, end_code = 0x0804C000,
     brk = 0x0804E000, rss = 3, total_vm = 8, locked_vm = 0, def_flags = 0,
     rlim_data = 0xFFFFFFFF, rlim_stack = 0x800000, rlim_memlock = 0xFFFFFFFF,
     rlim_as = 0xFFFFFFFF, sysctl_overcommit_memory = False, buffermem_pages = 100,
     page_cache_size = 100, free_page_count = 1000, nr_swap_pages = 0,
     files = (\<lambda>_. \<lparr>f_inode = 0, f_count = 1, f_mode = 1, f_op_mmap = True\<rparr>),
     inodes = (\<lambda>_. \<lparr>i_writecount = - 1, i_mmap = [0], i_append = False,
                    i_mandatory_locked = False\<rparr>),
     vm_trace = []\<rparr>"

lemma example_vm_wf: "vm_wf example_vm"
  by (simp add: vm_wf_def example_vm_def example_areas_def area_ok_def page_aligned_def
      PAGE_MASK_def PAGE_SIZE_def TASK_SIZE_def)

theorem get_unmapped_area_correct_witness:
  "let r = fst (get_unmapped_area example_vm 0 0x3000) in
    if r \<noteq> 0 then TASK_UNMAPPED_BASE \<le> r \<and> page_aligned r \<and>
      unat r + unat (0x3000 :: ulong) \<le> unat TASK_SIZE \<and> range_free example_vm r 0x3000
    else \<forall>c. TASK_UNMAPPED_BASE \<le> c \<and> unat c + unat (0x3000 :: ulong) \<le> unat TASK_SIZE \<longrightarrow>
      \<not> range_free example_vm c 0x3000"
  using get_unmapped_area_correct [OF example_vm_wf, of "0x3000" TASK_UNMAPPED_BASE 0]
  by (simp add: TASK_UNMAPPED_BASE_def TASK_SIZE_def PAGE_ALIGN_def PAGE_MASK_def PAGE_SIZE_def)

section \<open>The lookup as a linear search\<close>

lemma first_or_find: "first_or (dropWhile (\<lambda>x. \<not> P x) xs) None = List.find P xs"
  by (induction xs) auto

text \<open>
  C31: with or without the tree and whatever the cache holds, \<open>find_vma\<close> returns what a search
  of the list for the first area that ends above the address returns; it changes nothing but the
  cache and keeps the address space well formed.
\<close>

theorem find_vma_correct:
  assumes "vm_wf s"
  shows "fst (find_vma s addr) = List.find (\<lambda>i. addr < end_of s i) (mmap s) \<and>
    (\<exists>c. snd (find_vma s addr) = s\<lparr>mmap_cache := c\<rparr>) \<and> vm_wf (snd (find_vma s addr))"
proof -
  have "(\<lambda>i. \<not> addr < end_of s i) = (\<lambda>i. end_of s i \<le> addr)" by (auto simp: not_less)
  then have "first_or (ending_after (areas s) addr (mmap s)) None =
      List.find (\<lambda>i. addr < end_of s i) (mmap s)"
    using first_or_find [of "\<lambda>i. addr < end_of s i" "mmap s"] by simp
  with find_vma_spec [OF assms, of addr] show ?thesis by auto
qed

theorem find_vma_correct_witness:
  "fst (find_vma example_vm 0x0804D123) = List.find (\<lambda>i. 0x0804D123 < end_of example_vm i) (mmap example_vm)"
  using find_vma_correct [OF example_vm_wf, of "0x0804D123"] by blast

end
