(* ===== verification/Mmap_Modify.thy ===== *)
theory Mmap_Modify
  imports Mmap_Areas
begin

text \<open>
  The operations of \<open>mm/mmap.c\<close> that change the set of areas: insertion, merging, unmapping,
  \<open>do_brk\<close>, \<open>do_mmap\<close>, \<open>sys_brk\<close> and \<open>exit_mmap\<close>, with the theorems that each keeps the address
  space well formed and changes exactly the addresses it is asked to change.
\<close>

section \<open>The share ring of an inode\<close>

definition remove_shared_vm_struct :: "nat \<Rightarrow> vm_state \<Rightarrow> vm_state" where
  "remove_shared_vm_struct vma s =
    (case vm_file (areas s vma) of
       None \<Rightarrow> s
     | Some file \<Rightarrow>
         upd_inode (f_inode (files s file))
           (\<lambda>n. n\<lparr>i_writecount := i_writecount n +
                     (if vm_flags (areas s vma) AND VM_DENYWRITE \<noteq> 0 then 1 else 0),
                  i_mmap := remove1 vma (i_mmap n)\<rparr>) s)"

definition add_shared_vm_struct :: "nat \<Rightarrow> vm_state \<Rightarrow> vm_state" where
  "add_shared_vm_struct vmp s =
    (case vm_file (areas s vmp) of
       None \<Rightarrow> s
     | Some file \<Rightarrow>
         upd_inode (f_inode (files s file))
           (\<lambda>n. n\<lparr>i_writecount := i_writecount n -
                     (if vm_flags (areas s vmp) AND VM_DENYWRITE \<noteq> 0 then 1 else 0),
                  i_mmap := vmp # i_mmap n\<rparr>) s)"

section \<open>The driver's operations and the file of an area\<close>

definition run_open :: "nat \<Rightarrow> vm_state \<Rightarrow> vm_state" where
  "run_open area s =
    (case vm_ops (areas s area) of
       None \<Rightarrow> s
     | Some ops \<Rightarrow> if ops_open ops then log_event (Op_open area) s else s)"

definition run_close :: "nat \<Rightarrow> vm_state \<Rightarrow> vm_state" where
  "run_close area s =
    (case vm_ops (areas s area) of
       None \<Rightarrow> s
     | Some ops \<Rightarrow> if ops_close ops then log_event (Op_close area) s else s)"

definition run_unmap :: "nat \<Rightarrow> ulong \<Rightarrow> ulong \<Rightarrow> vm_state \<Rightarrow> vm_state" where
  "run_unmap area st sz s =
    (case vm_ops (areas s area) of
       None \<Rightarrow> s
     | Some ops \<Rightarrow> if ops_unmap ops then log_event (Op_unmap area st sz) s else s)"

definition get_area_file :: "nat \<Rightarrow> vm_state \<Rightarrow> vm_state" where
  "get_area_file area s =
    (case vm_file (areas s area) of None \<Rightarrow> s | Some f \<Rightarrow> get_file f s)"

definition fput_area :: "nat \<Rightarrow> vm_state \<Rightarrow> vm_state" where
  "fput_area area s = (case vm_file (areas s area) of None \<Rightarrow> s | Some f \<Rightarrow> fput f s)"

section \<open>Insertion\<close>

definition build_mmap_avl :: "vm_state \<Rightarrow> vm_state" where
  "build_mmap_avl s = s\<lparr>mmap_avl := fold (avl_insert (\<lambda>i. end_of s i)) (mmap s) vm_avl_empty\<rparr>"

text \<open>The list insertion of \<open>insert_vm_struct\<close> when there is no tree.\<close>

definition insert_by_start :: "vm_state \<Rightarrow> nat \<Rightarrow> nat list" where
  "insert_by_start s vmp =
    takeWhile (\<lambda>v. start_of s v \<le> start_of s vmp) (mmap s) @
    vmp # dropWhile (\<lambda>v. start_of s v \<le> start_of s vmp) (mmap s)"

text \<open>The list insertion after the left neighbour the tree insertion reports.\<close>

fun insert_after :: "nat list \<Rightarrow> nat option \<Rightarrow> nat \<Rightarrow> nat list" where
  "insert_after vs None vmp = vmp # vs"
| "insert_after [] (Some p) vmp = []"
| "insert_after (v # vs) (Some p) vmp =
    (if v = p then v # vmp # vs else v # insert_after vs (Some p) vmp)"

definition insert_vm_struct :: "vm_state \<Rightarrow> nat \<Rightarrow> vm_state" where
  "insert_vm_struct s vmp =
    (let s = (if mmap_avl s = vm_avl_empty then s\<lparr>mmap := insert_by_start s vmp\<rparr>
              else
                (let (tree, prev, next) =
                       avl_insert_neighbours (\<lambda>i. end_of s i) vmp (mmap_avl s);
                     s = (if next_in_list (mmap s) prev \<noteq> next
                          then log_event Tree_inconsistent s else s)
                 in s\<lparr>mmap_avl := tree, mmap := insert_after (mmap s) prev vmp\<rparr>));
         s = s\<lparr>map_count := map_count s + 1\<rparr>;
         s = (if map_count s \<ge> AVL_MIN_MAP_COUNT \<and> mmap_avl s = vm_avl_empty
              then build_mmap_avl s else s)
     in add_shared_vm_struct vmp s)"

section \<open>Merging\<close>

text \<open>The condition under which \<open>merge_segments\<close> joins \<open>mpnt\<close> to \<open>prev\<close>.\<close>

definition can_merge :: "vm_area_struct \<Rightarrow> vm_area_struct \<Rightarrow> bool" where
  "can_merge prev mpnt \<longleftrightarrow>
     \<not> (vm_file mpnt \<noteq> vm_file prev \<or> vm_private_data mpnt \<noteq> vm_private_data prev \<or>
        vm_ops mpnt \<noteq> vm_ops prev \<or> vm_flags mpnt \<noteq> vm_flags prev \<or> vm_end prev \<noteq> vm_start mpnt) \<and>
     \<not> ((vm_file mpnt \<noteq> None \<or> vm_flags mpnt AND VM_SHM \<noteq> 0) \<and>
        vm_pgoff prev + drop_bit PAGE_SHIFT (vm_end prev - vm_start prev) \<noteq> vm_pgoff mpnt)"

text \<open>The part of the loop body that joins \<open>mpnt\<close>, the area after \<open>prev\<close>, to it.\<close>

definition merge_into :: "vm_state \<Rightarrow> nat \<Rightarrow> nat \<Rightarrow> vm_state outcome" where
  "merge_into s prev mpnt =
    bind_outcome
      (if mmap_avl s = vm_avl_empty then Done s
       else case avl_remove (\<lambda>i. end_of s i) mpnt (mmap_avl s) of
              None \<Rightarrow> Bug
            | Some tree \<Rightarrow> Done (s\<lparr>mmap_avl := tree\<rparr>))
      (\<lambda>s. let s = upd_area prev (\<lambda>v. v\<lparr>vm_end := end_of s mpnt\<rparr>) s;
               s = s\<lparr>mmap := remove1 mpnt (mmap s)\<rparr>;
               s = (case vm_ops (areas s mpnt) of
                      None \<Rightarrow> s
                    | Some ops \<Rightarrow>
                        if ops_close ops
                        then log_event (Op_close mpnt)
                               (upd_area mpnt
                                  (\<lambda>v. v\<lparr>vm_pgoff := vm_pgoff v +
                                           drop_bit PAGE_SHIFT (vm_end v - vm_start v),
                                         vm_start := vm_end v\<rparr>) s)
                        else s);
               s = s\<lparr>map_count := map_count s - 1\<rparr>;
               s = remove_shared_vm_struct mpnt s;
               s = fput_area mpnt s
           in Done (kmem_cache_free mpnt s))"

text \<open>
  The loop of \<open>merge_segments\<close>: \<open>prev\<close>, and the chain of areas after it, whose first is
  \<open>mpnt\<close>.
\<close>

fun merge_loop :: "vm_state \<Rightarrow> ulong \<Rightarrow> nat \<Rightarrow> nat list \<Rightarrow> vm_state outcome" where
  "merge_loop s end_addr prev [] = Done s"
| "merge_loop s end_addr prev (mpnt # chain) =
    (if start_of s prev < end_addr then
       (if can_merge (areas s prev) (areas s mpnt)
        then bind_outcome (merge_into s prev mpnt) (\<lambda>s. merge_loop s end_addr prev chain)
        else merge_loop s end_addr mpnt chain)
     else Done s)"

definition merge_segments :: "vm_state \<Rightarrow> ulong \<Rightarrow> ulong \<Rightarrow> vm_state outcome" where
  "merge_segments s start_addr end_addr =
    (case find_vma_prev s start_addr of
       (None, _, s) \<Rightarrow> Done s
     | (Some mpnt, Some prev1, s) \<Rightarrow>
         merge_loop (s\<lparr>mmap_cache := None\<rparr>) end_addr prev1 (chain_from (mmap s) mpnt)
     | (Some mpnt, None, s) \<Rightarrow>
         merge_loop (s\<lparr>mmap_cache := None\<rparr>) end_addr mpnt (tl (chain_from (mmap s) mpnt)))"

section \<open>Unmapping\<close>

definition unmap_fixup ::
  "vm_state \<Rightarrow> nat \<Rightarrow> ulong \<Rightarrow> ulong \<Rightarrow> nat option \<Rightarrow> (vm_state \<times> nat option) outcome" where
  "unmap_fixup s area addr len extra =
    (let end_addr = addr + len;
         s = s\<lparr>total_vm := total_vm s - drop_bit PAGE_SHIFT len\<rparr>;
         s = (if vm_flags (areas s area) AND VM_LOCKED \<noteq> 0
              then s\<lparr>locked_vm := locked_vm s - drop_bit PAGE_SHIFT len\<rparr> else s) in
     if addr = start_of s area \<and> end_addr = end_of s area then
       (let s = run_close area s;
            s = fput_area area s
        in Done (kmem_cache_free area s, extra))
     else if end_addr = end_of s area then
       Done (insert_vm_struct (upd_area area (\<lambda>v. v\<lparr>vm_end := addr\<rparr>) s) area, extra)
     else if addr = start_of s area then
       Done (insert_vm_struct
               (upd_area area
                  (\<lambda>v. v\<lparr>vm_pgoff := vm_pgoff v + drop_bit PAGE_SHIFT (end_addr - vm_start v),
                         vm_start := end_addr\<rparr>) s) area, extra)
     else
       (case extra of
          None \<Rightarrow> Bug
        | Some mpnt \<Rightarrow>
            (let a = areas s area;
                 s = upd_area mpnt
                       (\<lambda>_. \<lparr>vm_start = end_addr, vm_end = vm_end a,
                             vm_page_prot = vm_page_prot a, vm_flags = vm_flags a,
                             vm_ops = vm_ops a, vm_pgoff = vm_pgoff a, vm_file = vm_file a,
                             vm_private_data = vm_private_data a\<rparr>) s;
                 s = upd_area area
                       (\<lambda>v. v\<lparr>vm_pgoff := vm_pgoff v +
                                drop_bit PAGE_SHIFT (end_addr - vm_start v)\<rparr>) s;
                 s = get_area_file mpnt s;
                 s = run_open mpnt s;
                 s = upd_area area (\<lambda>v. v\<lparr>vm_end := addr\<rparr>) s;
                 s = insert_vm_struct s mpnt
             in Done (insert_vm_struct s area, None))))"

text \<open>The loop of \<open>free_pgtables\<close> from \<open>prev\<close> along the list: \<open>first\<close> and \<open>last\<close> after it.\<close>

fun pgtables_scan ::
  "(nat \<Rightarrow> vm_area_struct) \<Rightarrow> ulong \<Rightarrow> ulong \<Rightarrow> ulong \<Rightarrow> nat \<Rightarrow> nat list \<Rightarrow> ulong \<times> ulong" where
  "pgtables_scan a start first last_addr prev [] =
    (if vm_end (a prev) > first then vm_end (a prev) + PGDIR_SIZE - 1 else first, last_addr)"
| "pgtables_scan a start first last_addr prev (next # chain) =
    (if vm_start (a next) < start then pgtables_scan a start first last_addr next chain
     else
       (if vm_end (a prev) > first then vm_end (a prev) + PGDIR_SIZE - 1 else first,
        if last_addr > vm_start (a next) then vm_start (a next) else last_addr))"

definition free_pgtables_range ::
  "vm_state \<Rightarrow> nat option \<Rightarrow> ulong \<Rightarrow> ulong \<Rightarrow> ulong \<times> ulong" where
  "free_pgtables_range s prev start end_addr =
    (let first = start AND PGDIR_MASK; last_addr = (end_addr + PGDIR_SIZE - 1) AND PGDIR_MASK in
     case prev of
       Some p \<Rightarrow> pgtables_scan (areas s) start first last_addr p (tl (chain_from (mmap s) p))
     | None \<Rightarrow>
         (case mmap s of
            [] \<Rightarrow> (first, last_addr)
          | p # chain \<Rightarrow>
              if end_of s p > start
              then (first, if last_addr > start_of s p then start_of s p else last_addr)
              else pgtables_scan (areas s) start first last_addr p chain))"

definition free_pgtables :: "vm_state \<Rightarrow> nat option \<Rightarrow> ulong \<Rightarrow> ulong \<Rightarrow> vm_state" where
  "free_pgtables s prev start end_addr =
    (let (first, last_addr) = free_pgtables_range s prev start end_addr;
         first = drop_bit PGDIR_SHIFT first; last_addr = drop_bit PGDIR_SHIFT last_addr
     in if last_addr > first then log_event (Clear_page_tables first (last_addr - first)) s else s)"

text \<open>
  The first loop of \<open>do_munmap\<close>, along the chain from the first affected area: the affected
  areas leave the tree and are pushed on the list \<open>free\<close>; the rest of the chain stays.
\<close>

fun unlink_loop ::
  "vm_state \<Rightarrow> ulong \<Rightarrow> nat list \<Rightarrow> nat list \<Rightarrow> (vm_state \<times> nat list \<times> nat list) outcome" where
  "unlink_loop s end_addr [] free = Done (s, [], free)"
| "unlink_loop s end_addr (mpnt # chain) free =
    (if start_of s mpnt < end_addr then
       (if mmap_avl s = vm_avl_empty then unlink_loop s end_addr chain (mpnt # free)
        else case avl_remove (\<lambda>i. end_of s i) mpnt (mmap_avl s) of
               None \<Rightarrow> Bug
             | Some tree \<Rightarrow> unlink_loop (s\<lparr>mmap_avl := tree\<rparr>) end_addr chain (mpnt # free))
     else Done (s, mpnt # chain, free))"

text \<open>The second loop of \<open>do_munmap\<close>, over the list \<open>free\<close>.\<close>

fun release_loop ::
  "vm_state \<Rightarrow> ulong \<Rightarrow> ulong \<Rightarrow> nat option \<Rightarrow> nat list \<Rightarrow> (vm_state \<times> nat option) outcome" where
  "release_loop s addr len extra [] = Done (s, extra)"
| "release_loop s addr len extra (mpnt # free) =
    (let st = (if addr < start_of s mpnt then start_of s mpnt else addr);
         end_addr = addr + len;
         end_addr = (if end_addr > end_of s mpnt then end_of s mpnt else end_addr);
         size = end_addr - st;
         s = run_unmap mpnt st size s;
         s = remove_shared_vm_struct mpnt s;
         s = s\<lparr>map_count := map_count s - 1\<rparr>;
         s = log_event (Flush_cache_range st end_addr) s;
         s = log_event (Zap_page_range st size) s;
         s = log_event (Flush_tlb_range st end_addr) s
     in bind_outcome (unmap_fixup s mpnt st size extra)
          (\<lambda>(s, extra). release_loop s addr len extra free))"

definition do_munmap ::
  "vm_state \<Rightarrow> ulong \<Rightarrow> ulong \<Rightarrow> (errno option \<times> vm_state) outcome" where
  "do_munmap s addr len =
    (if addr AND NOT PAGE_MASK \<noteq> 0 \<or> addr > TASK_SIZE \<or> len > TASK_SIZE - addr
     then Done (Some EINVAL, s)
     else
       (let len = PAGE_ALIGN len in
        if len = 0 then Done (Some EINVAL, s)
        else
          (case find_vma_prev s addr of
             (None, _, s) \<Rightarrow> Done (None, s)
           | (Some mpnt, prev, s) \<Rightarrow>
               if start_of s mpnt \<ge> addr + len then Done (None, s)
               else if start_of s mpnt < addr \<and> end_of s mpnt > addr + len \<and>
                       map_count s \<ge> MAX_MAP_COUNT
               then Done (Some ENOMEM, s)
               else
                 (case vm_area_cachep s of
                    [] \<Rightarrow> Done (Some ENOMEM, s)
                  | extra # cache \<Rightarrow>
                      bind_outcome
                        (unlink_loop (s\<lparr>vm_area_cachep := cache\<rparr>) (addr + len)
                           (chain_from (mmap s) mpnt) [])
                        (\<lambda>(s, chain, free).
                           let s = s\<lparr>mmap := list_up_to (mmap s) prev @ chain, mmap_cache := None\<rparr>
                           in bind_outcome (release_loop s addr len (Some extra) free)
                                (\<lambda>(s, extra).
                                   let s = (case extra of None \<Rightarrow> s
                                            | Some x \<Rightarrow> kmem_cache_free x s)
                                   in Done (None, free_pgtables s prev addr (addr + len))))))))"

text \<open>The system call takes \<open>mmap_sem\<close> around the call.\<close>

definition sys_munmap :: "vm_state \<Rightarrow> ulong \<Rightarrow> ulong \<Rightarrow> (errno option \<times> vm_state) outcome" where
  "sys_munmap s addr len = do_munmap s addr len"

section \<open>Mapping\<close>

definition PROT_READ :: ulong where "PROT_READ = 1"
definition PROT_WRITE :: ulong where "PROT_WRITE = 2"
definition PROT_EXEC :: ulong where "PROT_EXEC = 4"
definition MAP_SHARED :: ulong where "MAP_SHARED = 1"
definition MAP_PRIVATE :: ulong where "MAP_PRIVATE = 2"
definition MAP_TYPE :: ulong where "MAP_TYPE = 0xf"
definition MAP_FIXED :: ulong where "MAP_FIXED = 0x10"
definition MAP_GROWSDOWN :: ulong where "MAP_GROWSDOWN = 0x100"
definition MAP_DENYWRITE :: ulong where "MAP_DENYWRITE = 0x800"
definition MAP_EXECUTABLE :: ulong where "MAP_EXECUTABLE = 0x1000"
definition MAP_NORESERVE :: ulong where "MAP_NORESERVE = 0x4000"
definition RLIM_INFINITY :: ulong where "RLIM_INFINITY = NOT 0"

definition trans_bit :: "ulong \<Rightarrow> ulong \<Rightarrow> 16 word \<Rightarrow> 16 word" where
  "trans_bit x bit1 bit2 = (if bit1 = ucast bit2 then ucast (x AND bit1)
                            else if x AND bit1 \<noteq> 0 then bit2 else 0)"

definition calc_vm_flags :: "ulong \<Rightarrow> ulong \<Rightarrow> 16 word" where
  "calc_vm_flags prot flags =
    (trans_bit prot PROT_READ VM_READ OR trans_bit prot PROT_WRITE VM_WRITE OR
     trans_bit prot PROT_EXEC VM_EXEC) OR
    (trans_bit flags MAP_GROWSDOWN VM_GROWSDOWN OR trans_bit flags MAP_DENYWRITE VM_DENYWRITE OR
     trans_bit flags MAP_EXECUTABLE VM_EXECUTABLE)"

text \<open>
  \<open>protection_map\<close> is indexed by the low four flag bits; the model keeps the index.
\<close>

definition page_prot_of :: "16 word \<Rightarrow> nat" where
  "page_prot_of flags = unat (flags AND 0x0f)"

text \<open>
  The common tail of \<open>do_mmap\<close> and \<open>do_brk\<close>: insert the new area, merge it with its
  neighbours, account for it and lock its pages in if asked to.
\<close>

definition finish_mapping ::
  "vm_state \<Rightarrow> nat \<Rightarrow> ulong \<Rightarrow> (vm_state \<times> ulong) outcome" where
  "finish_mapping s vma len =
    (let flags = vm_flags (areas s vma); addr = start_of s vma;
         s = insert_vm_struct s vma in
     bind_outcome (merge_segments s (start_of s vma) (end_of s vma))
       (\<lambda>s. let s = s\<lparr>total_vm := total_vm s + drop_bit PAGE_SHIFT len\<rparr> in
            if flags AND VM_LOCKED \<noteq> 0
            then bind_outcome
                   (make_pages_present
                      (s\<lparr>locked_vm := locked_vm s + drop_bit PAGE_SHIFT len\<rparr>) addr (addr + len))
                   (\<lambda>s. Done (s, addr))
            else Done (s, addr)))"

definition do_brk :: "vm_state \<Rightarrow> ulong \<Rightarrow> ulong \<Rightarrow> ((errno + ulong) \<times> vm_state) outcome" where
  "do_brk s addr len =
    (let len = PAGE_ALIGN len in
     if len = 0 then Done (Inr addr, s)
     else if ucast (def_flags s) AND VM_LOCKED \<noteq> 0 \<and>
             push_bit PAGE_SHIFT (locked_vm s) + len > rlim_memlock s
     then Done (Inl EAGAIN, s)
     else
       bind_outcome (do_munmap s addr len)
         (\<lambda>(retval, s).
            case retval of
              Some e \<Rightarrow> Done (Inl e, s)
            | None \<Rightarrow>
                if push_bit PAGE_SHIFT (total_vm s) + len > rlim_as s then Done (Inl ENOMEM, s)
                else if map_count s > MAX_MAP_COUNT then Done (Inl ENOMEM, s)
                else if \<not> vm_enough_memory s (sint (drop_bit PAGE_SHIFT len))
                then Done (Inl ENOMEM, s)
                else
                  (case vm_area_cachep s of
                     [] \<Rightarrow> Done (Inl ENOMEM, s)
                   | vma # cache \<Rightarrow>
                       (let flags = calc_vm_flags (PROT_READ OR PROT_WRITE OR PROT_EXEC)
                                      (MAP_FIXED OR MAP_PRIVATE) OR ucast (def_flags s) OR
                                    (VM_MAYREAD OR VM_MAYWRITE OR VM_MAYEXEC);
                            s = s\<lparr>vm_area_cachep := cache\<rparr>;
                            s = upd_area vma
                                  (\<lambda>_. \<lparr>vm_start = addr, vm_end = addr + len,
                                        vm_page_prot = page_prot_of flags, vm_flags = flags,
                                        vm_ops = None, vm_pgoff = 0, vm_file = None,
                                        vm_private_data = 0\<rparr>) s
                        in bind_outcome (finish_mapping s vma len)
                             (\<lambda>(s, addr). Done (Inr addr, s))))))"

text \<open>
  The driver's \<open>mmap\<close> operation of a file is a parameter: it returns its error, if any, and the
  area as it leaves it.
\<close>

type_synonym mmap_op = "nat \<Rightarrow> vm_area_struct \<Rightarrow> errno option \<times> vm_area_struct"

text \<open>The checks of \<open>do_mmap\<close> that depend on the file, \<open>None\<close> when they pass.\<close>

definition mmap_check_file ::
  "vm_state \<Rightarrow> nat option \<Rightarrow> ulong \<Rightarrow> ulong \<Rightarrow> errno option" where
  "mmap_check_file s file prot flags =
    (case file of
       Some f \<Rightarrow>
         (let mode = f_mode (files s f); n = inodes s (f_inode (files s f)) in
          if flags AND MAP_TYPE = MAP_SHARED then
            (if prot AND PROT_WRITE \<noteq> 0 \<and> mode AND 2 = 0 then Some EACCES
             else if i_append n \<and> mode AND 2 \<noteq> 0 then Some EACCES
             else if i_mandatory_locked n then Some EAGAIN
             else if mode AND 1 = 0 then Some EACCES else None)
          else if flags AND MAP_TYPE = MAP_PRIVATE then
            (if mode AND 1 = 0 then Some EACCES else None)
          else Some EINVAL)
     | None \<Rightarrow> if flags AND MAP_TYPE \<noteq> MAP_PRIVATE then Some EINVAL else None)"

definition mmap_area_flags :: "vm_state \<Rightarrow> nat option \<Rightarrow> ulong \<Rightarrow> ulong \<Rightarrow> 16 word" where
  "mmap_area_flags s file prot flags =
    (let fl = calc_vm_flags prot flags OR ucast (def_flags s) in
     case file of
       Some f \<Rightarrow>
         (let mode = f_mode (files s f);
              fl = (if mode AND 1 \<noteq> 0 then fl OR (VM_MAYREAD OR VM_MAYWRITE OR VM_MAYEXEC) else fl)
          in if flags AND MAP_SHARED \<noteq> 0 then
               (let fl = fl OR (VM_SHARED OR VM_MAYSHARE)
                in if mode AND 2 = 0 then fl AND NOT (VM_MAYWRITE OR VM_SHARED) else fl)
             else fl)
     | None \<Rightarrow> fl OR (VM_MAYREAD OR VM_MAYWRITE OR VM_MAYEXEC))"

text \<open>
  The part of \<open>do_mmap\<close> after the old maps were cleared, for a new area already filled in.
\<close>

definition mmap_install ::
  "mmap_op \<Rightarrow> vm_state \<Rightarrow> nat option \<Rightarrow> nat \<Rightarrow> ulong \<Rightarrow> ulong \<Rightarrow> ((errno + ulong) \<times> vm_state) outcome"
where
  "mmap_install op s file vma len flags =
    (if push_bit PAGE_SHIFT (total_vm s) + len > rlim_as s
     then Done (Inl ENOMEM, kmem_cache_free vma s)
     else if vm_flags (areas s vma) AND (VM_SHARED OR VM_WRITE) = VM_WRITE \<and>
             flags AND MAP_NORESERVE = 0 \<and>
             \<not> vm_enough_memory s (sint (drop_bit PAGE_SHIFT len))
     then Done (Inl ENOMEM, kmem_cache_free vma s)
     else
       (case file of
          None \<Rightarrow> bind_outcome (finish_mapping s vma len) (\<lambda>(s, addr). Done (Inr addr, s))
        | Some f \<Rightarrow>
            (let ino = f_inode (files s f);
                 deny = (vm_flags (areas s vma) AND VM_DENYWRITE \<noteq> 0) in
             if deny \<and> i_writecount (inodes s ino) > 0
             then Done (Inl ETXTBSY, kmem_cache_free vma s)
             else
               (let (error, area) = op f (areas s vma);
                    s = upd_area vma (\<lambda>_. area) s in
                case error of
                  Some e \<Rightarrow>
                    (let st = start_of s vma; en = end_of s vma;
                         s = log_event (Flush_cache_range st en) s;
                         s = log_event (Zap_page_range st (en - st)) s;
                         s = log_event (Flush_tlb_range st en) s
                     in Done (Inl e, kmem_cache_free vma s))
                | None \<Rightarrow>
                    (let s = upd_area vma (\<lambda>v. v\<lparr>vm_file := Some f\<rparr>) s;
                         s = get_file f s
                     in bind_outcome (finish_mapping s vma len)
                          (\<lambda>(s, addr). Done (Inr addr, s)))))))"

text \<open>
  The part of \<open>do_mmap\<close> from the allocation of the area on, for the address it has chosen.
\<close>

definition mmap_place ::
  "mmap_op \<Rightarrow> vm_state \<Rightarrow> nat option \<Rightarrow> ulong \<Rightarrow> ulong \<Rightarrow> ulong \<Rightarrow> ulong \<Rightarrow> ulong \<Rightarrow>
   ((errno + ulong) \<times> vm_state) outcome" where
  "mmap_place op s file addr len prot flags off =
    (case vm_area_cachep s of
       [] \<Rightarrow> Done (Inl ENOMEM, s)
     | vma # cache \<Rightarrow>
         (let fl = mmap_area_flags s file prot flags;
              s = s\<lparr>vm_area_cachep := cache\<rparr>;
              s = upd_area vma
                    (\<lambda>_. \<lparr>vm_start = addr, vm_end = addr + len,
                          vm_page_prot = page_prot_of fl, vm_flags = fl,
                          vm_ops = None, vm_pgoff = drop_bit PAGE_SHIFT off,
                          vm_file = None, vm_private_data = 0\<rparr>) s
          in bind_outcome (do_munmap s addr len)
               (\<lambda>(error, s).
                  case error of
                    Some _ \<Rightarrow> Done (Inl ENOMEM, kmem_cache_free vma s)
                  | None \<Rightarrow> mmap_install op s file vma len flags)))"

text \<open>
  The checks of \<open>do_mmap\<close> before it looks for a place, with \<open>len\<close> already rounded: the value
  it returns, or \<open>None\<close> to go on.
\<close>

definition mmap_early ::
  "vm_state \<Rightarrow> nat option \<Rightarrow> ulong \<Rightarrow> ulong \<Rightarrow> ulong \<Rightarrow> ulong \<Rightarrow> ulong \<Rightarrow> (errno + ulong) option" where
  "mmap_early s file addr len prot flags off =
    (if (case file of None \<Rightarrow> False | Some f \<Rightarrow> \<not> f_op_mmap (files s f)) then Some (Inl ENODEV)
     else if len = 0 then Some (Inr addr)
     else if len > TASK_SIZE \<or> addr > TASK_SIZE - len then Some (Inl EINVAL)
     else if off AND NOT PAGE_MASK \<noteq> 0 then Some (Inl EINVAL)
     else if off + len < off then Some (Inl EINVAL)
     else if map_count s > MAX_MAP_COUNT then Some (Inl ENOMEM)
     else if ucast (def_flags s) AND VM_LOCKED \<noteq> 0 \<and>
             push_bit PAGE_SHIFT (locked_vm s) + len > rlim_memlock s
     then Some (Inl EAGAIN)
     else
       (case mmap_check_file s file prot flags of
          Some e \<Rightarrow> Some (Inl e)
        | None \<Rightarrow>
            if flags AND MAP_FIXED \<noteq> 0 \<and> addr AND NOT PAGE_MASK \<noteq> 0 then Some (Inl EINVAL)
            else None))"

definition do_mmap ::
  "mmap_op \<Rightarrow> vm_state \<Rightarrow> nat option \<Rightarrow> ulong \<Rightarrow> ulong \<Rightarrow> ulong \<Rightarrow> ulong \<Rightarrow> ulong \<Rightarrow>
   ((errno + ulong) \<times> vm_state) outcome" where
  "do_mmap op s file addr len prot flags off =
    (let len = PAGE_ALIGN len in
     case mmap_early s file addr len prot flags off of
       Some r \<Rightarrow> Done (r, s)
     | None \<Rightarrow>
         if flags AND MAP_FIXED \<noteq> 0 then mmap_place op s file addr len prot flags off
         else
           (let (addr, s) = get_unmapped_area s addr len in
            if addr = 0 then Done (Inl ENOMEM, s)
            else mmap_place op s file addr len prot flags off))"

definition sys_brk :: "vm_state \<Rightarrow> ulong \<Rightarrow> (ulong \<times> vm_state) outcome" where
  "sys_brk s new_brk =
    (if new_brk < end_code s then Done (brk s, s)
     else
       (let newbrk = PAGE_ALIGN new_brk; oldbrk = PAGE_ALIGN (brk s) in
        if oldbrk = newbrk then Done (new_brk, s\<lparr>brk := new_brk\<rparr>)
        else if new_brk \<le> brk s then
          bind_outcome (do_munmap s newbrk (oldbrk - newbrk))
            (\<lambda>(error, s). case error of
                None \<Rightarrow> Done (new_brk, s\<lparr>brk := new_brk\<rparr>)
              | Some _ \<Rightarrow> Done (brk s, s))
        else if rlim_data s < RLIM_INFINITY \<and> new_brk - end_code s > rlim_data s
        then Done (brk s, s)
        else
          (case find_vma_intersection s oldbrk (newbrk + PAGE_SIZE) of
             (Some _, s) \<Rightarrow> Done (brk s, s)
           | (None, s) \<Rightarrow>
               if \<not> vm_enough_memory s (sint (drop_bit PAGE_SHIFT (newbrk - oldbrk)))
               then Done (brk s, s)
               else
                 bind_outcome (do_brk s oldbrk (newbrk - oldbrk))
                   (\<lambda>(r, s). if r = Inr oldbrk then Done (new_brk, s\<lparr>brk := new_brk\<rparr>)
                             else Done (brk s, s)))))"

text \<open>The loop of \<open>exit_mmap\<close> over the detached chain of areas.\<close>

fun exit_loop :: "vm_state \<Rightarrow> nat list \<Rightarrow> vm_state" where
  "exit_loop s [] = s"
| "exit_loop s (mpnt # chain) =
    (let start = start_of s mpnt; size = end_of s mpnt - start_of s mpnt;
         s = run_unmap mpnt start size s;
         s = run_close mpnt s;
         s = s\<lparr>map_count := map_count s - 1\<rparr>;
         s = remove_shared_vm_struct mpnt s;
         s = log_event (Zap_page_range start size) s;
         s = fput_area mpnt s
     in exit_loop (kmem_cache_free mpnt s) chain)"

definition exit_mmap :: "vm_state \<Rightarrow> vm_state" where
  "exit_mmap s =
    (let s = log_event Release_segments s;
         chain = mmap s;
         s = s\<lparr>mmap := [], mmap_avl := vm_avl_empty, mmap_cache := None,
               rss := 0, total_vm := 0, locked_vm := 0\<rparr>;
         s = exit_loop s chain;
         s = (if map_count s \<noteq> 0 then log_event (Map_count_left (map_count s)) s else s)
     in log_event (Clear_page_tables 0 USER_PTRS_PER_PGD) s)"

section \<open>What the helpers leave alone\<close>

lemma log_event_simps [simp]:
  "areas (log_event e s) = areas s" "vm_area_cachep (log_event e s) = vm_area_cachep s"
  "mmap (log_event e s) = mmap s" "mmap_avl (log_event e s) = mmap_avl s"
  "mmap_cache (log_event e s) = mmap_cache s" "map_count (log_event e s) = map_count s"
  "total_vm (log_event e s) = total_vm s" "locked_vm (log_event e s) = locked_vm s"
  "files (log_event e s) = files s" "inodes (log_event e s) = inodes s"
  "vm_trace (log_event e s) = vm_trace s @ [e]" "brk (log_event e s) = brk s"
  by (simp_all add: log_event_def)

lemma upd_file_simps [simp]:
  "areas (upd_file f g s) = areas s" "vm_area_cachep (upd_file f g s) = vm_area_cachep s"
  "mmap (upd_file f g s) = mmap s" "mmap_avl (upd_file f g s) = mmap_avl s"
  "mmap_cache (upd_file f g s) = mmap_cache s" "map_count (upd_file f g s) = map_count s"
  "total_vm (upd_file f g s) = total_vm s" "locked_vm (upd_file f g s) = locked_vm s"
  "vm_trace (upd_file f g s) = vm_trace s" "brk (upd_file f g s) = brk s"
  by (simp_all add: upd_file_def)

lemma upd_inode_simps [simp]:
  "areas (upd_inode f g s) = areas s" "vm_area_cachep (upd_inode f g s) = vm_area_cachep s"
  "mmap (upd_inode f g s) = mmap s" "mmap_avl (upd_inode f g s) = mmap_avl s"
  "mmap_cache (upd_inode f g s) = mmap_cache s" "map_count (upd_inode f g s) = map_count s"
  "total_vm (upd_inode f g s) = total_vm s" "locked_vm (upd_inode f g s) = locked_vm s"
  "files (upd_inode f g s) = files s" "vm_trace (upd_inode f g s) = vm_trace s"
  "brk (upd_inode f g s) = brk s"
  by (simp_all add: upd_inode_def)

lemma upd_area_simps [simp]:
  "areas (upd_area i g s) = (areas s)(i := g (areas s i))"
  "vm_area_cachep (upd_area i g s) = vm_area_cachep s"
  "mmap (upd_area i g s) = mmap s" "mmap_avl (upd_area i g s) = mmap_avl s"
  "mmap_cache (upd_area i g s) = mmap_cache s" "map_count (upd_area i g s) = map_count s"
  "total_vm (upd_area i g s) = total_vm s" "locked_vm (upd_area i g s) = locked_vm s"
  "files (upd_area i g s) = files s" "inodes (upd_area i g s) = inodes s"
  "vm_trace (upd_area i g s) = vm_trace s" "brk (upd_area i g s) = brk s"
  by (simp_all add: upd_area_def)

lemma file_count_simps [simp]:
  "areas (fput f s) = areas s" "vm_area_cachep (fput f s) = vm_area_cachep s"
  "mmap (fput f s) = mmap s" "mmap_avl (fput f s) = mmap_avl s"
  "mmap_cache (fput f s) = mmap_cache s" "map_count (fput f s) = map_count s"
  "total_vm (fput f s) = total_vm s" "locked_vm (fput f s) = locked_vm s"
  "vm_trace (fput f s) = vm_trace s" "brk (fput f s) = brk s"
  "areas (get_file f s) = areas s" "vm_area_cachep (get_file f s) = vm_area_cachep s"
  "mmap (get_file f s) = mmap s" "mmap_avl (get_file f s) = mmap_avl s"
  "mmap_cache (get_file f s) = mmap_cache s" "map_count (get_file f s) = map_count s"
  "total_vm (get_file f s) = total_vm s" "locked_vm (get_file f s) = locked_vm s"
  "vm_trace (get_file f s) = vm_trace s" "brk (get_file f s) = brk s"
  by (simp_all add: fput_def get_file_def)

lemma shared_simps [simp]:
  "areas (remove_shared_vm_struct v s) = areas s"
  "vm_area_cachep (remove_shared_vm_struct v s) = vm_area_cachep s"
  "mmap (remove_shared_vm_struct v s) = mmap s"
  "mmap_avl (remove_shared_vm_struct v s) = mmap_avl s"
  "mmap_cache (remove_shared_vm_struct v s) = mmap_cache s"
  "map_count (remove_shared_vm_struct v s) = map_count s"
  "total_vm (remove_shared_vm_struct v s) = total_vm s"
  "locked_vm (remove_shared_vm_struct v s) = locked_vm s"
  "vm_trace (remove_shared_vm_struct v s) = vm_trace s"
  "areas (add_shared_vm_struct v s) = areas s"
  "vm_area_cachep (add_shared_vm_struct v s) = vm_area_cachep s"
  "mmap (add_shared_vm_struct v s) = mmap s"
  "mmap_avl (add_shared_vm_struct v s) = mmap_avl s"
  "mmap_cache (add_shared_vm_struct v s) = mmap_cache s"
  "map_count (add_shared_vm_struct v s) = map_count s"
  "total_vm (add_shared_vm_struct v s) = total_vm s"
  "locked_vm (add_shared_vm_struct v s) = locked_vm s"
  "vm_trace (add_shared_vm_struct v s) = vm_trace s"
  by (simp_all add: remove_shared_vm_struct_def add_shared_vm_struct_def split: option.splits)

lemma area_call_simps [simp]:
  "areas (run_open v s) = areas s"
  "vm_area_cachep (run_open v s) = vm_area_cachep s"
  "mmap (run_open v s) = mmap s"
  "mmap_avl (run_open v s) = mmap_avl s"
  "mmap_cache (run_open v s) = mmap_cache s"
  "map_count (run_open v s) = map_count s"
  "total_vm (run_open v s) = total_vm s"
  "locked_vm (run_open v s) = locked_vm s"
  "areas (run_close v s) = areas s"
  "vm_area_cachep (run_close v s) = vm_area_cachep s"
  "mmap (run_close v s) = mmap s"
  "mmap_avl (run_close v s) = mmap_avl s"
  "mmap_cache (run_close v s) = mmap_cache s"
  "map_count (run_close v s) = map_count s"
  "total_vm (run_close v s) = total_vm s"
  "locked_vm (run_close v s) = locked_vm s"
  "areas (run_unmap v st sz s) = areas s"
  "vm_area_cachep (run_unmap v st sz s) = vm_area_cachep s"
  "mmap (run_unmap v st sz s) = mmap s"
  "mmap_avl (run_unmap v st sz s) = mmap_avl s"
  "mmap_cache (run_unmap v st sz s) = mmap_cache s"
  "map_count (run_unmap v st sz s) = map_count s"
  "total_vm (run_unmap v st sz s) = total_vm s"
  "locked_vm (run_unmap v st sz s) = locked_vm s"
  "areas (get_area_file v s) = areas s"
  "vm_area_cachep (get_area_file v s) = vm_area_cachep s"
  "mmap (get_area_file v s) = mmap s"
  "mmap_avl (get_area_file v s) = mmap_avl s"
  "mmap_cache (get_area_file v s) = mmap_cache s"
  "map_count (get_area_file v s) = map_count s"
  "total_vm (get_area_file v s) = total_vm s"
  "locked_vm (get_area_file v s) = locked_vm s"
  "areas (fput_area v s) = areas s"
  "vm_area_cachep (fput_area v s) = vm_area_cachep s"
  "mmap (fput_area v s) = mmap s"
  "mmap_avl (fput_area v s) = mmap_avl s"
  "mmap_cache (fput_area v s) = mmap_cache s"
  "map_count (fput_area v s) = map_count s"
  "total_vm (fput_area v s) = total_vm s"
  "locked_vm (fput_area v s) = locked_vm s"
  by (simp_all add: run_open_def run_close_def run_unmap_def get_area_file_def fput_area_def
      split: option.splits)

lemma kmem_cache_free_simps [simp]:
  "areas (kmem_cache_free v s) = areas s" "mmap (kmem_cache_free v s) = mmap s"
  "mmap_avl (kmem_cache_free v s) = mmap_avl s" "mmap_cache (kmem_cache_free v s) = mmap_cache s"
  "map_count (kmem_cache_free v s) = map_count s" "total_vm (kmem_cache_free v s) = total_vm s"
  "locked_vm (kmem_cache_free v s) = locked_vm s" "vm_trace (kmem_cache_free v s) = vm_trace s"
  "vm_area_cachep (kmem_cache_free v s) = v # vm_area_cachep s"
  by (simp_all add: kmem_cache_free_def)

section \<open>Insertion keeps the address space well formed\<close>

definition clear_of :: "(nat \<Rightarrow> vm_area_struct) \<Rightarrow> nat \<Rightarrow> nat list \<Rightarrow> bool" where
  "clear_of a x vs \<longleftrightarrow> (\<forall>i\<in>set vs. precedes a i x \<or> precedes a x i)"

lemma split_at_area:
  assumes "areas_ok a vs" and "area_ok (a x)" and "clear_of a x vs"
  obtains xs ys where "vs = xs @ ys" and "\<forall>v\<in>set xs. precedes a v x" and "\<forall>v\<in>set ys. precedes a x v"
  using assms
proof (induction vs arbitrary: thesis)
  case Nil
  then show ?case by simp
next
  case (Cons v vs)
  show ?case
  proof (cases "precedes a v x")
    case True
    obtain xs ys where "vs = xs @ ys" "\<forall>v\<in>set xs. precedes a v x" "\<forall>v\<in>set ys. precedes a x v"
      using Cons by (auto simp: clear_of_def)
    with True Cons.prems(1) [of "v # xs" ys] show ?thesis by simp
  next
    case False
    then have "precedes a x v" using Cons.prems by (auto simp: clear_of_def)
    moreover have "precedes a x w" if "w \<in> set vs" for w
    proof -
      have "vm_start (a v) < vm_end (a v)" "vm_end (a v) \<le> vm_start (a w)"
        using Cons.prems(2) that by auto
      with \<open>precedes a x v\<close> show ?thesis by (meson less_imp_le order_trans)
    qed
    ultimately show ?thesis using Cons.prems(1) [of "[]" "v # vs"] by simp
  qed
qed

lemma insert_after_last_or:
  "distinct (xs @ ys) \<Longrightarrow> insert_after (xs @ ys) (last_or xs None) x = xs @ x # ys"
proof (induction xs rule: rev_induct)
  case (snoc z zs)
  then have "\<forall>v\<in>set zs. v \<noteq> z" by auto
  then have "insert_after (zs @ z # ys) (Some z) x = zs @ z # x # ys"
    by (induction zs) auto
  then show ?case by (simp add: last_or_def)
qed simp

lemma insert_positions:
  assumes "\<forall>v\<in>set xs. precedes a v x" and "\<forall>v\<in>set ys. precedes a x v"
    and "\<forall>v\<in>set (xs @ ys). area_ok (a v)" and "area_ok (a x)"
  shows "takeWhile (\<lambda>v. vm_start (a v) \<le> vm_start (a x)) (xs @ ys) = xs"
    and "dropWhile (\<lambda>v. vm_start (a v) \<le> vm_start (a x)) (xs @ ys) = ys"
    and "up_to (\<lambda>i. vm_end (a i)) (vm_end (a x)) (xs @ ys) = xs"
    and "beyond (\<lambda>i. vm_end (a i)) (vm_end (a x)) (xs @ ys) = ys"
proof -
  have xs: "vm_start (a v) \<le> vm_start (a x)" "vm_end (a v) \<le> vm_end (a x)" if "v \<in> set xs" for v
  proof -
    have "vm_end (a v) \<le> vm_start (a x)" "vm_start (a x) < vm_end (a x)" "vm_start (a v) < vm_end (a v)"
      using that assms by (auto simp: area_ok_def)
    then show "vm_start (a v) \<le> vm_start (a x)" "vm_end (a v) \<le> vm_end (a x)" by auto
  qed
  have ys: "\<not> vm_start (a v) \<le> vm_start (a x)" "\<not> vm_end (a v) \<le> vm_end (a x)"
    if "v \<in> set ys" for v
  proof -
    have "vm_end (a x) \<le> vm_start (a v)" "vm_start (a x) < vm_end (a x)" "vm_start (a v) < vm_end (a v)"
      using that assms by (auto simp: area_ok_def)
    then show "\<not> vm_start (a v) \<le> vm_start (a x)" "\<not> vm_end (a v) \<le> vm_end (a x)" by auto
  qed
  show "takeWhile (\<lambda>v. vm_start (a v) \<le> vm_start (a x)) (xs @ ys) = xs"
    and "dropWhile (\<lambda>v. vm_start (a v) \<le> vm_start (a x)) (xs @ ys) = ys"
    and "up_to (\<lambda>i. vm_end (a i)) (vm_end (a x)) (xs @ ys) = xs"
    and "beyond (\<lambda>i. vm_end (a i)) (vm_end (a x)) (xs @ ys) = ys"
    by (rule takeWhile_all_none; use xs ys in blast)+
qed

text \<open>
  While \<open>do_munmap\<close> runs, \<open>map_count\<close> still counts the \<open>n\<close> areas that are waiting on its list
  \<open>free\<close>; otherwise \<open>n\<close> is 0.
\<close>

definition vm_wf_pending :: "nat \<Rightarrow> vm_state \<Rightarrow> bool" where
  "vm_wf_pending n s \<longleftrightarrow> vm_wf (s\<lparr>map_count := map_count s - int n\<rparr>)"

lemma vm_wf_pending_0 [simp]: "vm_wf_pending 0 s = vm_wf s"
  by (simp add: vm_wf_pending_def)

lemma vm_wf_pending_iff:
  "vm_wf_pending n s \<longleftrightarrow> areas_ok (areas s) (mmap s) \<and>
     (mmap_avl s = vm_avl_empty \<or>
      avl_checkheights (mmap_avl s) \<and> inorder (mmap_avl s) = mmap s) \<and>
     map_count s = int (length (mmap s)) + int n \<and>
     (\<forall>c. mmap_cache s = Some c \<longrightarrow> c \<in> set (mmap s)) \<and>
     distinct (vm_area_cachep s) \<and> set (vm_area_cachep s) \<inter> set (mmap s) = {}"
  by (auto simp: vm_wf_pending_def vm_wf_def)

lemma vm_wf_pending_cong:
  assumes "areas s = areas s'" "mmap s = mmap s'" "mmap_avl s = mmap_avl s'"
    "map_count s = map_count s'" "mmap_cache s = mmap_cache s'" "vm_area_cachep s = vm_area_cachep s'"
  shows "vm_wf_pending n s = vm_wf_pending n s'"
  by (simp add: vm_wf_pending_iff assms)

lemma insert_update_order:
  "s\<lparr>mmap_avl := t, mmap := m, map_count := c\<rparr> = s\<lparr>mmap := m, map_count := c, mmap_avl := t\<rparr>"
  by (rule vm_state.equality) simp_all

lemma insert_vm_struct_eq:
  assumes "areas_ok (areas s) (xs @ x # ys)" and "mmap s = xs @ ys"
    and "mmap_avl s = vm_avl_empty \<or> avl_checkheights (mmap_avl s) \<and> inorder (mmap_avl s) = mmap s"
  shows "\<exists>t. insert_vm_struct s x = add_shared_vm_struct x
      (s\<lparr>mmap := xs @ x # ys, map_count := map_count s + 1, mmap_avl := t\<rparr>) \<and>
    (t = vm_avl_empty \<or> avl_checkheights t \<and> inorder t = xs @ x # ys)"
proof -
  let ?key = "\<lambda>i. end_of s i"
  have sides: "\<forall>v\<in>set xs. precedes (areas s) v x" "\<forall>v\<in>set ys. precedes (areas s) x v"
    and all: "\<forall>v\<in>set (xs @ ys). area_ok (areas s v)" "area_ok (areas s x)"
    using assms(1) by (auto simp: areas_ok_def sorted_wrt_append)
  note pos = insert_positions [OF sides all]
  have ord: "ordered_by ?key (xs @ x # ys)" by (rule areas_ok_ordered [OF assms(1)])
  show ?thesis
  proof (cases "mmap_avl s = vm_avl_empty")
    case True
    have by_start: "insert_by_start s x = xs @ x # ys"
      using pos by (simp only: insert_by_start_def assms(2))
    let ?t = "fold (avl_insert ?key) (xs @ x # ys) vm_avl_empty"
    let ?s = "s\<lparr>mmap := xs @ x # ys, map_count := map_count s + 1\<rparr>"
    have t: "avl_checkheights ?t \<and> inorder ?t = xs @ x # ys"
      using avl.fold_insert [of vm_avl_empty ?key "xs @ x # ys"] ord avl.ok_empty by simp
    have same: "?s\<lparr>mmap_avl := mmap_avl s\<rparr> = ?s"
      by simp
    have "insert_vm_struct s x = add_shared_vm_struct x
        (if map_count s + 1 \<ge> AVL_MIN_MAP_COUNT then ?s\<lparr>mmap_avl := ?t\<rparr> else ?s)"
      using True by_start by (auto simp: insert_vm_struct_def Let_def build_mmap_avl_def)
    then show ?thesis
    proof (cases "map_count s + 1 \<ge> AVL_MIN_MAP_COUNT")
      case True
      then show ?thesis
        using \<open>insert_vm_struct s x = _\<close> t
        by - (rule exI [of _ ?t], simp del: fold_append fold_simps)
    next
      case False
      then show ?thesis
        using \<open>insert_vm_struct s x = _\<close> same \<open>mmap_avl s = vm_avl_empty\<close>
        by - (rule exI [of _ "mmap_avl s"], simp only: if_False simp_thms)
    qed
  next
    case False
    then have ok: "avl_checkheights (mmap_avl s)" and io: "inorder (mmap_avl s) = xs @ ys"
      using assms(2,3) by auto
    obtain t lft rgt where n: "avl_insert_neighbours ?key x (mmap_avl s) = (t, lft, rgt)"
      by (metis prod_cases3)
    have ord': "ordered_by ?key (inorder (mmap_avl s))"
      using ord by (simp add: io sorted_wrt_append)
    have t: "inorder t = xs @ x # ys" "lft = last_or xs None" "rgt = first_or ys None"
      using avl_insert_neighbours_contents [OF ord' n] by (simp_all only: io pos)
    have "avl_checkheights t" using avl_insert_neighbours_heights [OF ok, of ?key x] n by simp
    moreover have "t \<noteq> vm_avl_empty" using t(1) by auto
    moreover have dist: "distinct (xs @ ys)" using areas_ok_distinct [OF assms(1)] by simp
    ultimately have "insert_vm_struct s x = add_shared_vm_struct x
        (s\<lparr>mmap_avl := t, mmap := xs @ x # ys, map_count := map_count s + 1\<rparr>)"
      using False next_in_list_last_or [OF dist] insert_after_last_or [OF dist]
      by (simp add: insert_vm_struct_def Let_def n t(2,3) assms(2))
    with t(1) \<open>avl_checkheights t\<close> show ?thesis by (simp only: insert_update_order) blast
  qed
qed

lemma insert_vm_struct_spec:
  assumes "vm_wf_pending n s" and "x \<notin> set (vm_area_cachep s)"
    and "area_ok (areas s x)" and "clear_of (areas s) x (mmap s)"
  obtains xs ys t where "mmap s = xs @ ys" and "insert_vm_struct s x = add_shared_vm_struct x
      (s\<lparr>mmap := xs @ x # ys, map_count := map_count s + 1, mmap_avl := t\<rparr>)"
    and "vm_wf_pending n (insert_vm_struct s x)"
proof -
  have ok: "areas_ok (areas s) (mmap s)" using assms(1) by (simp add: vm_wf_pending_iff)
  obtain xs ys where split: "mmap s = xs @ ys" and sides: "\<forall>v\<in>set xs. precedes (areas s) v x"
    "\<forall>v\<in>set ys. precedes (areas s) x v"
    using split_at_area [OF ok assms(3,4)] by metis
  have ok': "areas_ok (areas s) (xs @ x # ys)"
    using ok sides assms(3) split by (auto simp: areas_ok_append)
  obtain t where t: "insert_vm_struct s x = add_shared_vm_struct x
      (s\<lparr>mmap := xs @ x # ys, map_count := map_count s + 1, mmap_avl := t\<rparr>)"
    "t = vm_avl_empty \<or> avl_checkheights t \<and> inorder t = xs @ x # ys"
    using insert_vm_struct_eq [OF ok' split] assms(1) by (auto simp: vm_wf_pending_iff)
  moreover have "vm_wf_pending n (insert_vm_struct s x)"
    using assms(1,2) ok' t(2) split unfolding t(1) vm_wf_pending_iff by fastforce
  ultimately show thesis using that split by blast
qed

lemma insert_vm_struct_keeps:
  assumes "vm_wf_pending n s" and "x \<notin> set (vm_area_cachep s)"
    and "area_ok (areas s x)" and "clear_of (areas s) x (mmap s)"
  shows "vm_wf_pending n (insert_vm_struct s x)"
    and "set (mmap (insert_vm_struct s x)) = insert x (set (mmap s))"
    and "areas (insert_vm_struct s x) = areas s"
    and "vm_area_cachep (insert_vm_struct s x) = vm_area_cachep s"
    and "mmap_cache (insert_vm_struct s x) = mmap_cache s"
    and "total_vm (insert_vm_struct s x) = total_vm s"
    and "locked_vm (insert_vm_struct s x) = locked_vm s"
    and "vm_trace (insert_vm_struct s x) = vm_trace s"
proof -
  obtain xs ys t where eq: "mmap s = xs @ ys" "insert_vm_struct s x = add_shared_vm_struct x
      (s\<lparr>mmap := xs @ x # ys, map_count := map_count s + 1, mmap_avl := t\<rparr>)"
    and wf: "vm_wf_pending n (insert_vm_struct s x)"
    using insert_vm_struct_spec [OF assms] .
  show "vm_wf_pending n (insert_vm_struct s x)" by (rule wf)
  show "set (mmap (insert_vm_struct s x)) = insert x (set (mmap s))"
    and "areas (insert_vm_struct s x) = areas s"
    and "vm_area_cachep (insert_vm_struct s x) = vm_area_cachep s"
    and "mmap_cache (insert_vm_struct s x) = mmap_cache s"
    and "total_vm (insert_vm_struct s x) = total_vm s"
    and "locked_vm (insert_vm_struct s x) = locked_vm s"
    and "vm_trace (insert_vm_struct s x) = vm_trace s"
    by (simp_all add: eq)
qed

lemma areas_ok_cong: "(\<And>i. i \<in> set vs \<Longrightarrow> a i = b i) \<Longrightarrow> areas_ok a vs = areas_ok b vs"
  by (induction vs) auto

lemma clear_of_cong:
  "a x = b x \<Longrightarrow> (\<And>i. i \<in> set vs \<Longrightarrow> a i = b i) \<Longrightarrow> clear_of a x vs = clear_of b x vs"
  by (simp add: clear_of_def)

lemma vm_wf_pending_areas:
  assumes "vm_wf_pending n s" and "\<And>i. i \<in> set (mmap s) \<Longrightarrow> areas s' i = areas s i"
    and "mmap s' = mmap s" "mmap_avl s' = mmap_avl s" "map_count s' = map_count s"
    "mmap_cache s' = mmap_cache s" "vm_area_cachep s' = vm_area_cachep s"
  shows "vm_wf_pending n s'"
  using assms areas_ok_cong [of "mmap s" "areas s'" "areas s"] by (simp add: vm_wf_pending_iff)

section \<open>What is mapped where\<close>

definition covers :: "vm_area_struct \<Rightarrow> ulong \<Rightarrow> bool" where
  "covers v a \<longleftrightarrow> vm_start v \<le> a \<and> a < vm_end v"

text \<open>
  A view \<open>f\<close> of an area at an address, e.g. its protection or the page of its file; \<open>maps\<close>
  says that some area of a set has view \<open>x\<close> at an address, \<open>view_at\<close> looks it up in the list.
\<close>

definition maps ::
  "(vm_area_struct \<Rightarrow> ulong \<Rightarrow> 'b) \<Rightarrow> (nat \<Rightarrow> vm_area_struct) \<Rightarrow> nat set \<Rightarrow> ulong \<Rightarrow> 'b \<Rightarrow> bool" where
  "maps f ar V a x \<longleftrightarrow> (\<exists>i\<in>V. covers (ar i) a \<and> f (ar i) a = x)"

definition view_at :: "(vm_area_struct \<Rightarrow> ulong \<Rightarrow> 'b) \<Rightarrow> vm_state \<Rightarrow> ulong \<Rightarrow> 'b option" where
  "view_at f s a =
    map_option (\<lambda>i. f (areas s i) a) (List.find (\<lambda>i. covers (areas s i) a) (mmap s))"

text \<open>Everything an area says of its pages but their place in the file, and that place.\<close>

definition attrs :: "vm_area_struct \<Rightarrow> ulong \<Rightarrow>
    nat \<times> 16 word \<times> vm_operations_struct option \<times> nat option \<times> ulong" where
  "attrs v a = (vm_page_prot v, vm_flags v, vm_ops v, vm_file v, vm_private_data v)"

definition page_offset :: "vm_area_struct \<Rightarrow> ulong \<Rightarrow> ulong" where
  "page_offset v a = vm_pgoff v + drop_bit PAGE_SHIFT (a - vm_start v)"

lemma covers_unique:
  assumes "areas_ok ar vs" and "i \<in> set vs" "j \<in> set vs" and "covers (ar i) a" "covers (ar j) a"
  shows "i = j"
  using assms by (induction vs) (force simp: covers_def)+

lemma find_unique:
  assumes only: "\<forall>i\<in>set xs. P i \<longrightarrow> (\<forall>j\<in>set xs. P j \<longrightarrow> j = i)"
  shows "List.find P xs = Some i \<longleftrightarrow> i \<in> set xs \<and> P i"
  using only by (induction xs) auto

lemma view_at_iff:
  assumes "areas_ok (areas s) (mmap s)"
  shows "view_at f s a = Some x \<longleftrightarrow> maps f (areas s) (set (mmap s)) a x"
proof -
  have "List.find (\<lambda>i. covers (areas s i) a) (mmap s) = Some i \<longleftrightarrow>
      i \<in> set (mmap s) \<and> covers (areas s i) a" for i
    by (rule find_unique) (use covers_unique [OF assms] in blast)
  then show ?thesis by (auto simp: view_at_def maps_def)
qed

lemma view_at_eqI:
  assumes "areas_ok (areas s) (mmap s)" and "areas_ok (areas s') (mmap s')"
    and "\<And>x. maps f (areas s') (set (mmap s')) a' x \<longleftrightarrow> maps f (areas s) (set (mmap s)) a x"
  shows "view_at f s' a' = view_at f s a"
  using assms view_at_iff [OF assms(1)] view_at_iff [OF assms(2)] by (metis option.exhaust)

lemma view_at_NoneI:
  assumes "areas_ok (areas s) (mmap s)" and "\<And>x. \<not> maps f (areas s) (set (mmap s)) a x"
  shows "view_at f s a = None"
  using assms(2) view_at_iff [OF assms(1)] by (metis option.exhaust)

lemma view_at_cut:
  assumes "areas_ok (areas s) (mmap s)" and "areas_ok (areas s') (mmap s')"
    and "\<And>x. maps f (areas s') (set (mmap s')) a x \<longleftrightarrow> maps f (areas s) (set (mmap s)) a x \<and> \<not> P"
  shows "view_at f s' a = (if P then None else view_at f s a)"
  using assms(3) view_at_NoneI [OF assms(2), of f a] view_at_eqI [OF assms(1,2), of f a a]
  by (cases P) auto

end
