(* ===== verification/Mmap_Unmap.thy ===== *)
theory Mmap_Unmap
  imports Mmap_Modify
begin

text \<open>
  \<open>do_munmap\<close> (\<open>mm/mmap.c\<close>): it always returns, keeps the address space well formed and
  removes exactly the requested addresses.
\<close>

section \<open>Views that survive trimming\<close>

definition trims :: "(vm_area_struct \<Rightarrow> ulong \<Rightarrow> 'b) \<Rightarrow> bool" where
  "trims f \<longleftrightarrow> (\<forall>v e a. f (v\<lparr>vm_end := e\<rparr>) a = f v a) \<and>
     (\<forall>v e a. page_aligned (vm_start v) \<and> page_aligned e \<and> vm_start v \<le> e \<and> e \<le> a \<longrightarrow>
        f (v\<lparr>vm_pgoff := vm_pgoff v + drop_bit PAGE_SHIFT (e - vm_start v), vm_start := e\<rparr>) a = f v a)"

definition ignores_offset :: "(vm_area_struct \<Rightarrow> ulong \<Rightarrow> 'b) \<Rightarrow> bool" where
  "ignores_offset f \<longleftrightarrow>
     (\<forall>v w a. vm_page_prot v = vm_page_prot w \<and> vm_flags v = vm_flags w \<and> vm_ops v = vm_ops w \<and>
        vm_file v = vm_file w \<and> vm_private_data v = vm_private_data w \<longrightarrow> f v a = f w a)"

lemma trims_attrs: "trims attrs" and ignores_offset_attrs: "ignores_offset attrs"
  by (auto simp: trims_def ignores_offset_def attrs_def fun_eq_iff)

lemma trims_page_offset: "trims page_offset"
proof -
  have "drop_bit PAGE_SHIFT (e - st) + drop_bit PAGE_SHIFT (a - e) = drop_bit PAGE_SHIFT (a - st)"
    if "page_aligned st" "page_aligned e" "st \<le> e" "e \<le> a" for st e a :: ulong
  proof -
    have "unat (e - st) + unat (a - e) = unat (a - st)"
      using that by (auto simp: unat_minus_no_wrap word_le_nat_alt order_trans [OF that(3,4)])
    then have "unat (e - st) + unat (a - e) < 2 ^ 32"
      using unsigned_less [of "a - st", where 'a = nat] by simp
    from drop_bit_page_add [OF page_aligned_diff this] that show ?thesis by simp
  qed
  then show ?thesis by (auto simp: trims_def page_offset_def add.assoc)
qed

section \<open>Removing part of one area\<close>

text \<open>
  What \<open>unmap_fixup\<close> leaves of area \<open>i\<close>, when it removes \<open>[st, en)\<close> from it: the state after
  has the pieces outside that range in the list, and everything else as it was.
\<close>

definition fixup_post ::
  "(vm_area_struct \<Rightarrow> ulong \<Rightarrow> 'b) \<Rightarrow> nat \<Rightarrow> vm_state \<Rightarrow> nat \<Rightarrow> ulong \<Rightarrow> ulong \<Rightarrow> nat option \<Rightarrow>
   vm_state \<times> nat option \<Rightarrow> bool" where
  "fixup_post f n s i st en extra = (\<lambda>(s', extra').
     vm_wf_pending n s' \<and> mmap_cache s' = mmap_cache s \<and>
     (\<forall>k. k \<noteq> i \<and> extra \<noteq> Some k \<longrightarrow> areas s' k = areas s k) \<and>
     set (mmap s) \<subseteq> set (mmap s') \<and> set (mmap s') \<subseteq> insert i (set (mmap s) \<union> (set_option extra - set_option extra')) \<and>
     set (vm_area_cachep s') \<subseteq> insert i (set (vm_area_cachep s)) \<and>
     (extra' = extra \<or> extra' = None \<and> start_of s i < st \<and> en < end_of s i) \<and>
     (\<forall>k\<in>set (mmap s') - set (mmap s). start_of s i \<le> start_of s' k \<and> end_of s' k \<le> end_of s i) \<and>
     (\<forall>a x. maps f (areas s') (set (mmap s')) a x \<longleftrightarrow>
        maps f (areas s) (set (mmap s)) a x \<or>
        covers (areas s i) a \<and> f (areas s i) a = x \<and> \<not> (st \<le> a \<and> a < en)))"

lemma maps_insert:
  "maps f ar (insert i V) a x \<longleftrightarrow> maps f ar V a x \<or> covers (ar i) a \<and> f (ar i) a = x"
  by (auto simp: maps_def)

lemma maps_cong: "(\<And>k. k \<in> V \<Longrightarrow> ar k = ar' k) \<Longrightarrow> maps f ar V a x = maps f ar' V a x"
  by (simp add: maps_def)

lemma maps_upd: "i \<notin> V \<Longrightarrow> maps f (ar(i := v)) V a x = maps f ar V a x"
  by (rule maps_cong) auto

text \<open>The accounting at the head of \<open>unmap_fixup\<close>.\<close>

definition fixup_account :: "vm_state \<Rightarrow> nat \<Rightarrow> ulong \<Rightarrow> vm_state" where
  "fixup_account s area len =
    (let s = s\<lparr>total_vm := total_vm s - drop_bit PAGE_SHIFT len\<rparr> in
     if vm_flags (areas s area) AND VM_LOCKED \<noteq> 0
     then s\<lparr>locked_vm := locked_vm s - drop_bit PAGE_SHIFT len\<rparr> else s)"

lemma fixup_account_simps [simp]:
  "areas (fixup_account s i len) = areas s" "vm_area_cachep (fixup_account s i len) = vm_area_cachep s"
  "mmap (fixup_account s i len) = mmap s" "mmap_avl (fixup_account s i len) = mmap_avl s"
  "mmap_cache (fixup_account s i len) = mmap_cache s" "map_count (fixup_account s i len) = map_count s"
  by (simp_all add: fixup_account_def Let_def)

lemma unmap_fixup_full:
  assumes "vm_wf_pending n s" and "i \<notin> set (mmap s)" "i \<notin> set (vm_area_cachep s)"
    and "st = start_of s i" "en = end_of s i"
  shows "\<exists>r. unmap_fixup s i st (en - st) extra = Done r \<and> fixup_post f n s i st en extra r"
proof -
  let ?s = "kmem_cache_free i (fput_area i (run_close i (fixup_account s i (en - st))))"
  have eq: "unmap_fixup s i st (en - st) extra = Done (?s, extra)"
    using assms by (simp add: unmap_fixup_def fixup_account_def Let_def)
  have "vm_wf_pending n ?s" using assms by (simp add: vm_wf_pending_iff)
  then have "fixup_post f n s i st en extra (?s, extra)"
    using assms by (auto simp: fixup_post_def covers_def)
  with eq show ?thesis by blast
qed

lemma fixup_one_piece:
  assumes "vm_wf_pending n s" and "i \<notin> set (mmap s)" "i \<notin> set (vm_area_cachep s)"
    and "clear_of (areas s) i (mmap s)"
    and w: "area_ok w" "start_of s i \<le> vm_start w" "vm_end w \<le> end_of s i"
    and views: "\<And>a. covers w a \<longleftrightarrow> covers (areas s i) a \<and> \<not> (st \<le> a \<and> a < en)"
      "\<And>a. covers w a \<Longrightarrow> f w a = f (areas s i) a"
    and s1: "areas s1 = (areas s)(i := w)" "mmap s1 = mmap s" "mmap_avl s1 = mmap_avl s"
      "map_count s1 = map_count s" "mmap_cache s1 = mmap_cache s"
      "vm_area_cachep s1 = vm_area_cachep s"
  shows "fixup_post f n s i st en extra (insert_vm_struct s1 i, extra)"
proof -
  have wf: "vm_wf_pending n s1"
    using assms(2) s1 by (intro vm_wf_pending_areas [OF assms(1)]) auto
  have cache: "i \<notin> set (vm_area_cachep s1)" using assms(3) s1 by simp
  have ok: "area_ok (areas s1 i)" using s1 w by simp
  have clear: "clear_of (areas s1) i (mmap s1)"
    using assms(2,4) w by (force simp: clear_of_def s1)
  note ins = insert_vm_struct_keeps [OF wf cache ok clear]
  have "maps f (areas s1) (insert i (set (mmap s1))) a x \<longleftrightarrow>
      maps f (areas s) (set (mmap s)) a x \<or>
      covers (areas s i) a \<and> f (areas s i) a = x \<and> \<not> (st \<le> a \<and> a < en)" for a x
    using views assms(2) by (auto simp: s1 maps_insert maps_upd)
  with ins assms(2,3) w show ?thesis by (auto simp: fixup_post_def s1)
qed

lemma unmap_fixup_tail:
  assumes "vm_wf_pending n s" and "i \<notin> set (mmap s)" "i \<notin> set (vm_area_cachep s)"
    and "area_ok (areas s i)" "clear_of (areas s) i (mmap s)"
    and "start_of s i < st" "st < en" "en = end_of s i" "page_aligned st" and "trims f"
  shows "\<exists>r. unmap_fixup s i st (en - st) extra = Done r \<and> fixup_post f n s i st en extra r"
proof -
  let ?s = "upd_area i (\<lambda>v. v\<lparr>vm_end := st\<rparr>) (fixup_account s i (en - st))"
  have eq: "unmap_fixup s i st (en - st) extra = Done (insert_vm_struct ?s i, extra)"
    using assms by (simp add: unmap_fixup_def fixup_account_def Let_def)
  have "fixup_post f n s i st en extra (insert_vm_struct ?s i, extra)"
    by (rule fixup_one_piece [OF assms(1-3,5), of "(areas s i)\<lparr>vm_end := st\<rparr>"])
      (use assms(4,6-10) in \<open>auto simp: area_ok_def covers_def trims_def\<close>)
  with eq show ?thesis by blast
qed

lemma unmap_fixup_head:
  assumes "vm_wf_pending n s" and "i \<notin> set (mmap s)" "i \<notin> set (vm_area_cachep s)"
    and "area_ok (areas s i)" "clear_of (areas s) i (mmap s)"
    and "start_of s i = st" "st < en" "en < end_of s i" "page_aligned en" and "trims f"
  shows "\<exists>r. unmap_fixup s i st (en - st) extra = Done r \<and> fixup_post f n s i st en extra r"
proof -
  let ?w = "(areas s i)\<lparr>vm_pgoff := vm_pgoff (areas s i) + drop_bit PAGE_SHIFT (en - start_of s i),
    vm_start := en\<rparr>"
  let ?s = "upd_area i (\<lambda>v. v\<lparr>vm_pgoff := vm_pgoff v + drop_bit PAGE_SHIFT (en - vm_start v),
    vm_start := en\<rparr>) (fixup_account s i (en - st))"
  have eq: "unmap_fixup s i st (en - st) extra = Done (insert_vm_struct ?s i, extra)"
    using assms by (simp add: unmap_fixup_def fixup_account_def Let_def)
  have "f ?w a = f (areas s i) a" if "en \<le> a" for a
    using assms(4,6-10) that by (auto simp: trims_def area_ok_def)
  then have "fixup_post f n s i st en extra (insert_vm_struct ?s i, extra)"
    by (intro fixup_one_piece [OF assms(1-3,5), of ?w])
      (use assms(4,6-10) in \<open>auto simp: area_ok_def covers_def\<close>)
  with eq show ?thesis by blast
qed

lemma fixup_two_pieces:
  assumes "vm_wf_pending n s" and "i \<notin> set (mmap s)" "i \<notin> set (vm_area_cachep s)"
    and "clear_of (areas s) i (mmap s)"
    and e: "e \<notin> set (mmap s)" "e \<notin> set (vm_area_cachep s)" "e \<noteq> i"
    and lo: "area_ok lo" "vm_start lo = start_of s i" "vm_end lo = st"
    and hi: "area_ok hi" "vm_start hi = en" "vm_end hi = end_of s i"
    and "start_of s i < st" "st < en" "en < end_of s i"
    and views: "\<And>a. f lo a = f (areas s i) a" "\<And>a. f hi a = f (areas s i) a"
    and s1: "areas s1 = (areas s)(e := hi, i := lo)" "mmap s1 = mmap s" "mmap_avl s1 = mmap_avl s"
      "map_count s1 = map_count s" "mmap_cache s1 = mmap_cache s"
      "vm_area_cachep s1 = vm_area_cachep s"
  shows "fixup_post f n s i st en (Some e) (insert_vm_struct (insert_vm_struct s1 e) i, None)"
    and "areas (insert_vm_struct (insert_vm_struct s1 e) i) = areas s1"
proof -
  note order = \<open>start_of s i < st\<close> \<open>st < en\<close> \<open>en < end_of s i\<close>
  have wf: "vm_wf_pending n s1"
    using assms(2) e s1 by (intro vm_wf_pending_areas [OF assms(1)]) auto
  have out: "vm_end (areas s j) \<le> start_of s i \<or> end_of s i \<le> start_of s j" if "j \<in> set (mmap s)" for j
    using assms(4) that by (simp add: clear_of_def)
  have clear: "clear_of (areas s1) e (mmap s1)"
    unfolding clear_of_def using out e assms(2) order by (fastforce simp: s1 hi)
  note ins = insert_vm_struct_keeps [OF wf _ _ clear]
  have e1: "e \<notin> set (vm_area_cachep s1)" "area_ok (areas s1 e)" using e s1 hi by simp_all
  define s2 where "s2 = insert_vm_struct s1 e"
  note s2 = ins [OF e1, folded s2_def]
  have clear2: "clear_of (areas s2) i (mmap s2)"
    unfolding clear_of_def using out e assms(2) order by (fastforce simp: s1 s2 lo hi)
  have i2: "i \<notin> set (vm_area_cachep s2)" "area_ok (areas s2 i)"
    using assms(3) s1 s2 lo by simp_all
  note s3 = insert_vm_struct_keeps [OF s2(1) i2 clear2]
  have "covers lo a \<or> covers hi a \<longleftrightarrow> covers (areas s i) a \<and> \<not> (st \<le> a \<and> a < en)" for a
    using order by (auto simp: covers_def lo hi)
  then have "maps f (areas s1) (insert i (insert e (set (mmap s)))) a x \<longleftrightarrow>
      maps f (areas s) (set (mmap s)) a x \<or>
      covers (areas s i) a \<and> f (areas s i) a = x \<and> \<not> (st \<le> a \<and> a < en)" for a x
    using assms(2) e views by (auto simp: s1 maps_insert maps_upd)
  with s2 s3 assms(2,3) order e
  show "fixup_post f n s i st en (Some e) (insert_vm_struct (insert_vm_struct s1 e) i, None)"
    by (auto simp: fixup_post_def s1 lo hi s2_def [symmetric])
  show "areas (insert_vm_struct (insert_vm_struct s1 e) i) = areas s1"
    using s2(3) s3(3) by (simp add: s2_def)
qed

lemma unmap_fixup_hole:
  assumes "vm_wf_pending n s" and "i \<notin> set (mmap s)" "i \<notin> set (vm_area_cachep s)"
    and "area_ok (areas s i)" "clear_of (areas s) i (mmap s)"
    and "e \<notin> set (mmap s)" "e \<notin> set (vm_area_cachep s)" "e \<noteq> i"
    and "start_of s i < st" "st < en" "en < end_of s i" "page_aligned st" "page_aligned en"
    and "ignores_offset f"
  shows "\<exists>s'. unmap_fixup s i st (en - st) (Some e) = Done (s', None) \<and>
    fixup_post f n s i st en (Some e) (s', None) \<and>
    areas s' i = (areas s i)\<lparr>vm_pgoff := vm_pgoff (areas s i) + drop_bit PAGE_SHIFT (en - start_of s i),
                   vm_end := st\<rparr> \<and>
    vm_start (areas s' e) = en \<and> vm_end (areas s' e) = end_of s i \<and>
    vm_pgoff (areas s' e) = vm_pgoff (areas s i)"
proof -
  let ?a = "areas s i"
  let ?tl = "\<lparr>vm_start = en, vm_end = vm_end ?a, vm_page_prot = vm_page_prot ?a,
    vm_flags = vm_flags ?a, vm_ops = vm_ops ?a, vm_pgoff = vm_pgoff ?a, vm_file = vm_file ?a,
    vm_private_data = vm_private_data ?a\<rparr>"
  let ?hd = "?a\<lparr>vm_pgoff := vm_pgoff ?a + drop_bit PAGE_SHIFT (en - vm_start ?a), vm_end := st\<rparr>"
  let ?s1 = "upd_area i (\<lambda>v. v\<lparr>vm_end := st\<rparr>) (run_open e (get_area_file e
    (upd_area i (\<lambda>v. v\<lparr>vm_pgoff := vm_pgoff v + drop_bit PAGE_SHIFT (en - vm_start v)\<rparr>)
      (upd_area e (\<lambda>_. ?tl) (fixup_account s i (en - st))))))"
  have eq: "unmap_fixup s i st (en - st) (Some e) =
      Done (insert_vm_struct (insert_vm_struct ?s1 e) i, None)"
    using assms(9-11) by (auto simp: unmap_fixup_def fixup_account_def Let_def)
  have areas: "areas ?s1 = (areas s)(e := ?tl, i := ?hd)" using assms(8) by (simp add: fun_eq_iff)
  have views: "f ?hd a = f ?a a" "f ?tl a = f ?a a" for a
    by (rule assms(14) [unfolded ignores_offset_def, rule_format]; simp)+
  have ok: "area_ok ?hd" "area_ok ?tl" using assms(4,9-13) by (auto simp: area_ok_def)
  have "fixup_post f n s i st en (Some e) (insert_vm_struct (insert_vm_struct ?s1 e) i, None)"
    and "areas (insert_vm_struct (insert_vm_struct ?s1 e) i) = areas ?s1"
    by (rule fixup_two_pieces [OF assms(1-3,5-8) ok(1) _ _ ok(2) _ _ assms(9-11) _ _ areas];
        (rule views | simp))+
  with eq assms(8) show ?thesis by (simp only: areas) simp
qed

lemma unmap_fixup_spec:
  assumes "vm_wf_pending n s" and "i \<notin> set (mmap s)" "i \<notin> set (vm_area_cachep s)"
    and "area_ok (areas s i)" "clear_of (areas s) i (mmap s)"
    and "start_of s i \<le> st" "st < en" "en \<le> end_of s i" "page_aligned st" "page_aligned en"
    and "trims f" and hole: "start_of s i < st \<Longrightarrow> en < end_of s i \<Longrightarrow> ignores_offset f \<and> extra \<noteq> None"
    and "\<And>e. extra = Some e \<Longrightarrow> e \<notin> set (mmap s) \<and> e \<notin> set (vm_area_cachep s) \<and> e \<noteq> i"
  shows "\<exists>r. unmap_fixup s i st (en - st) extra = Done r \<and> fixup_post f n s i st en extra r"
proof -
  consider "start_of s i = st" "en = end_of s i" | "start_of s i < st" "en = end_of s i"
    | "start_of s i = st" "en < end_of s i" | "start_of s i < st" "en < end_of s i"
    using assms(6,8) by force
  then show ?thesis
  proof cases
    case 1
    then show ?thesis using unmap_fixup_full [OF assms(1-3)] by simp
  next
    case 2
    show ?thesis by (rule unmap_fixup_tail [OF assms(1-5) 2(1) assms(7) 2(2) assms(9,11)])
  next
    case 3
    show ?thesis by (rule unmap_fixup_head [OF assms(1-5) 3(1) assms(7) 3(2) assms(10,11)])
  next
    case 4
    then obtain e where "extra = Some e" using hole by auto
    with assms(13) hole [OF 4] show ?thesis
      using unmap_fixup_hole [OF assms(1-5) _ _ _ 4(1) assms(7) 4(2) assms(9,10)] by blast
  qed
qed

section \<open>The list of areas to release\<close>

text \<open>
  The invariant of the second loop of \<open>do_munmap\<close>: the areas on \<open>free\<close> are out of the list,
  disjoint from it and from each other, each meets the range \<open>[addr, en)\<close>, and the spare
  structure \<open>extra\<close> is there while it may be needed.
\<close>

definition release_inv :: "vm_state \<Rightarrow> ulong \<Rightarrow> ulong \<Rightarrow> nat option \<Rightarrow> nat list \<Rightarrow> bool" where
  "release_inv s addr en extra free \<longleftrightarrow> vm_wf_pending (length free) s \<and> distinct free \<and>
     (\<forall>i\<in>set free. i \<notin> set (mmap s) \<and> i \<notin> set (vm_area_cachep s) \<and> area_ok (areas s i) \<and>
        clear_of (areas s) i (mmap s) \<and> start_of s i < en \<and> addr < end_of s i) \<and>
     (\<forall>i\<in>set free. \<forall>j\<in>set free. i \<noteq> j \<longrightarrow> precedes (areas s) i j \<or> precedes (areas s) j i) \<and>
     (\<forall>e. extra = Some e \<longrightarrow> e \<notin> set (mmap s) \<and> e \<notin> set (vm_area_cachep s) \<and> e \<notin> set free) \<and>
     (free \<noteq> [] \<longrightarrow> extra \<noteq> None)"

lemma release_inv_step:
  assumes inv: "release_inv s addr en extra (i # free)"
    and range: "st = max addr (start_of s i)" "e = min en (end_of s i)"
    and s1: "areas s1 = areas s" "mmap s1 = mmap s" "vm_area_cachep s1 = vm_area_cachep s"
    and post: "fixup_post f (length free) s1 i st e extra (s2, extra')"
  shows "release_inv s2 addr en extra' free"
proof -
  have i: "i \<notin> set (mmap s)" "i \<notin> set (vm_area_cachep s)" "start_of s i < en" "addr < end_of s i"
    "i \<notin> set free" "distinct free"
    using inv by (auto simp: release_inv_def)
  have same: "areas s2 k = areas s k" if "k \<in> set free \<or> k \<in> set (mmap s)" for k
    using that post inv i by (auto simp: fixup_post_def s1 release_inv_def)
  have apart: "precedes (areas s) i j \<or> precedes (areas s) j i" if "j \<in> set free" for j
    using that inv i by (fastforce simp: release_inv_def)
  have in_i: "start_of s i \<le> start_of s2 k \<and> end_of s2 k \<le> end_of s i"
    if "k \<in> set (mmap s2)" "k \<notin> set (mmap s)" for k
    using that post by (auto simp: fixup_post_def s1)
  have clear: "clear_of (areas s2) j (mmap s2)" if j: "j \<in> set free" for j
    unfolding clear_of_def
  proof
    fix k assume "k \<in> set (mmap s2)"
    show "precedes (areas s2) k j \<or> precedes (areas s2) j k"
    proof (cases "k \<in> set (mmap s)")
      case True
      have "clear_of (areas s) j (mmap s)" using inv j by (simp add: release_inv_def)
      with True same j show ?thesis by (simp add: clear_of_def)
    next
      case False
      from in_i [OF \<open>k \<in> set (mmap s2)\<close> False] apart [OF j] same j show ?thesis
        by (metis order_trans)
    qed
  qed
  have "free = []" if "extra' = None"
  proof (rule ccontr)
    assume "free \<noteq> []"
    then obtain j where j: "j \<in> set free" by (cases free) auto
    have "start_of s i < st" "e < end_of s i"
      using that post inv by (auto simp: fixup_post_def s1 release_inv_def)
    then have "start_of s i < addr" "en < end_of s i" using range by (auto simp: max_def min_def split: if_splits)
    moreover have "start_of s j < en" "addr < end_of s j" using j inv by (auto simp: release_inv_def)
    ultimately show False using apart [OF j] by auto
  qed
  moreover have "j \<notin> set (mmap s2)" "j \<notin> set (vm_area_cachep s2)" if "j \<in> set free" for j
    using that post inv i by (auto simp: fixup_post_def s1 release_inv_def)
  moreover have "k \<notin> set (mmap s2) \<and> k \<notin> set (vm_area_cachep s2) \<and> k \<notin> set free"
    if "extra' = Some k" for k
    using that post inv i by (auto simp: fixup_post_def s1 release_inv_def)
  moreover have "vm_wf_pending (length free) s2" using post by (simp add: fixup_post_def)
  ultimately show ?thesis
    using clear inv same i(6) unfolding release_inv_def by (auto simp: same)
qed

text \<open>Area structures that were neither mapped nor free nor in \<open>K\<close> are left alone.\<close>

definition untouched :: "nat set \<Rightarrow> vm_state \<Rightarrow> vm_state \<Rightarrow> bool" where
  "untouched K s s' \<longleftrightarrow>
     (\<forall>k. k \<notin> K \<longrightarrow> areas s' k = areas s k \<and> k \<notin> set (mmap s') \<and> k \<notin> set (vm_area_cachep s'))"

lemma release_loop_spec:
  assumes "release_inv s addr (addr + len) extra free"
    and "page_aligned addr" "page_aligned (addr + len)" "addr < addr + len" and "trims f"
    and "(\<exists>i\<in>set free. start_of s i < addr \<and> addr + len < end_of s i) \<longrightarrow> ignores_offset f"
  shows "\<exists>s' extra'. release_loop s addr len extra free = Done (s', extra') \<and>
    release_inv s' addr (addr + len) extra' [] \<and> mmap_cache s' = mmap_cache s \<and>
    (extra' = None \<or> extra' = extra) \<and>
    (\<forall>k\<in>set (mmap s). k \<in> set (mmap s') \<and> areas s' k = areas s k) \<and>
    untouched (set (mmap s) \<union> set (vm_area_cachep s) \<union> set free \<union> set_option extra) s s' \<and>
    (\<forall>a x. maps f (areas s') (set (mmap s')) a x \<longleftrightarrow>
       maps f (areas s) (set (mmap s)) a x \<or>
       maps f (areas s) (set free) a x \<and> \<not> (addr \<le> a \<and> a < addr + len))"
  using assms
proof (induction free arbitrary: s extra)
  case Nil
  then show ?case by (auto simp: maps_def untouched_def)
next
  case (Cons i free)
  define st where "st = max addr (start_of s i)"
  define en where "en = min (addr + len) (end_of s i)"
  define s1 where "s1 = log_event (Flush_tlb_range st en) (log_event (Zap_page_range st (en - st))
    (log_event (Flush_cache_range st en)
      ((remove_shared_vm_struct i (run_unmap i st (en - st) s))\<lparr>map_count := map_count s - 1\<rparr>)))"
  have loop: "release_loop s addr len extra (i # free) =
      bind_outcome (unmap_fixup s1 i st (en - st) extra)
        (\<lambda>(s, extra). release_loop s addr len extra free)"
    by (simp add: Let_def s1_def st_def en_def max_def min_def not_less not_le)
      (auto simp: not_less)
  note inv = Cons.prems(1)
  have i: "i \<notin> set (mmap s)" "i \<notin> set (vm_area_cachep s)" "area_ok (areas s i)"
    "clear_of (areas s) i (mmap s)" "start_of s i < addr + len" "addr < end_of s i" "i \<notin> set free"
    and extra: "extra \<noteq> None"
    "\<And>e. extra = Some e \<Longrightarrow> e \<notin> set (mmap s) \<and> e \<notin> set (vm_area_cachep s) \<and> e \<noteq> i"
    using inv by (auto simp: release_inv_def)
  have range: "start_of s i \<le> st" "st < en" "en \<le> end_of s i" "page_aligned st" "page_aligned en"
    using i(3,5,6) Cons.prems(2-4) by (auto simp: st_def en_def area_ok_def max_def min_def)
  have s1: "areas s1 = areas s" "mmap s1 = mmap s" "vm_area_cachep s1 = vm_area_cachep s"
    "mmap_cache s1 = mmap_cache s"
    by (simp_all add: s1_def)
  have wf: "vm_wf_pending (length free) s1"
    using inv by (simp add: release_inv_def vm_wf_pending_iff s1_def)
  have hole: "ignores_offset f" if "start_of s i < st" "en < end_of s i"
    using that Cons.prems(6) by (auto simp: st_def en_def max_def min_def split: if_splits)
  obtain s2 extra' where fixup: "unmap_fixup s1 i st (en - st) extra = Done (s2, extra')"
    and post: "fixup_post f (length free) s1 i st en extra (s2, extra')"
    using unmap_fixup_spec [OF wf, of i st en f extra] i extra range hole Cons.prems(5)
    by (auto simp: s1)
  have inv2: "release_inv s2 addr (addr + len) extra' free"
    by (rule release_inv_step [OF inv st_def en_def s1(1-3) post])
  have same: "areas s2 k = areas s k" if "k \<in> set free" for k
    using that post inv i by (auto simp: fixup_post_def s1 release_inv_def)
  have "(\<exists>k\<in>set free. start_of s2 k < addr \<and> addr + len < end_of s2 k) \<longrightarrow> ignores_offset f"
    using Cons.prems(6) same by auto
  from Cons.IH [OF inv2 Cons.prems(2-5) this] obtain s' ex where
    rel: "release_loop s2 addr len extra' free = Done (s', ex)"
      "release_inv s' addr (addr + len) ex []" "mmap_cache s' = mmap_cache s2"
      "\<forall>k\<in>set (mmap s2). k \<in> set (mmap s') \<and> areas s' k = areas s2 k"
      "ex = None \<or> ex = extra'" "untouched (set (mmap s2) \<union> set (vm_area_cachep s2) \<union> set free \<union> set_option extra') s2 s'"
    and m: "\<And>a x. maps f (areas s') (set (mmap s')) a x \<longleftrightarrow>
       maps f (areas s2) (set (mmap s2)) a x \<or>
       maps f (areas s2) (set free) a x \<and> \<not> (addr \<le> a \<and> a < addr + len)"
    by blast
  have m2: "maps f (areas s2) (set (mmap s2)) a x \<longleftrightarrow> maps f (areas s) (set (mmap s)) a x \<or>
      covers (areas s i) a \<and> f (areas s i) a = x \<and> \<not> (st \<le> a \<and> a < en)" for a x
    using post by (simp add: fixup_post_def s1)
  have "covers (areas s i) a \<Longrightarrow> st \<le> a \<and> a < en \<longleftrightarrow> addr \<le> a \<and> a < addr + len" for a
    by (auto simp: covers_def st_def en_def)
  moreover have "maps f (areas s2) (set free) a x = maps f (areas s) (set free) a x" for a x
    by (rule maps_cong) (rule same)
  moreover have "mmap_cache s2 = mmap_cache s" using post by (simp add: fixup_post_def s1)
  moreover have "\<forall>k\<in>set (mmap s). k \<in> set (mmap s2) \<and> areas s2 k = areas s k"
    using post inv i by (auto simp: fixup_post_def s1 release_inv_def)
  moreover have "untouched (set (mmap s) \<union> set (vm_area_cachep s) \<union> set (i # free) \<union> set_option extra) s s'"
    using rel(6) post unfolding untouched_def fixup_post_def s1 by fastforce
  moreover have "extra' = None \<or> extra' = extra" using post by (auto simp: fixup_post_def)
  ultimately show ?case
    using loop fixup rel m m2 by (auto simp: maps_insert)
qed

section \<open>Unlinking the affected areas\<close>

lemma unlink_loop_spec:
  fixes en :: ulong
  assumes "areas_ok (areas s) (pre @ chain)"
    and "mmap_avl s = vm_avl_empty \<or>
      avl_checkheights (mmap_avl s) \<and> inorder (mmap_avl s) = pre @ chain"
  defines "hit \<equiv> takeWhile (\<lambda>v. start_of s v < en) chain"
    and "rest \<equiv> dropWhile (\<lambda>v. start_of s v < en) chain"
  shows "\<exists>t. unlink_loop s en chain free = Done (s\<lparr>mmap_avl := t\<rparr>, rest, rev hit @ free) \<and>
    (t = vm_avl_empty \<or> avl_checkheights t \<and> inorder t = pre @ rest)"
  unfolding hit_def rest_def using assms(1,2)
proof (induction chain arbitrary: s free)
  case Nil
  then show ?case by (intro exI [of _ "mmap_avl s"]) simp
next
  case (Cons v chain)
  show ?case
  proof (cases "start_of s v < en")
    case False
    with Cons.prems show ?thesis by (intro exI [of _ "mmap_avl s"]) simp
  next
    case True
    have ok: "areas_ok (areas s) (pre @ chain)" using Cons.prems(1) by (auto simp: areas_ok_append)
    show ?thesis
    proof (cases "mmap_avl s = vm_avl_empty")
      case empty: True
      then show ?thesis using Cons.IH [OF ok, of "v # free"] True by simp
    next
      case tree: False
      then have io: "inorder (mmap_avl s) = pre @ v # chain" "avl_checkheights (mmap_avl s)"
        using Cons.prems(2) by auto
      have "distinct (pre @ v # chain)" by (rule areas_ok_distinct [OF Cons.prems(1)])
      then have "remove1 v (pre @ v # chain) = pre @ chain" by (simp add: remove1_append)
      moreover have "ordered_by (\<lambda>i. end_of s i) (inorder (mmap_avl s))"
        unfolding io(1) by (rule areas_ok_ordered [OF Cons.prems(1)])
      ultimately obtain t where t: "avl_remove (\<lambda>i. end_of s i) v (mmap_avl s) = Some t"
        "avl_checkheights t" "inorder t = pre @ chain"
        using avl.remove_found [OF io(2), of "\<lambda>i. end_of s i" v] io(1) by auto
      have "areas_ok (areas (s\<lparr>mmap_avl := t\<rparr>)) (pre @ chain)" using ok by simp
      from Cons.IH [OF this, of "v # free"] t True tree show ?thesis by simp
    qed
  qed
qed

lemma list_up_to_last_or:
  assumes "distinct (xs @ ys)"
  shows "list_up_to (xs @ ys) (last_or xs None) = xs"
proof (cases xs rule: rev_cases)
  case (snoc zs z)
  with assms have "\<forall>v\<in>set zs. v \<noteq> z" by auto
  then have "takeWhile (\<lambda>v. v \<noteq> z) (zs @ z # ys) = zs" by (induction zs) auto
  with snoc show ?thesis by (simp add: last_or_def)
qed simp

lemma release_inv_start:
  assumes wf: "vm_wf s" and split: "mmap s = xs @ hit @ rest" and cache: "vm_area_cachep s = e # cs"
    and hit: "\<forall>v\<in>set hit. start_of s v < en \<and> addr < end_of s v"
    and t: "t = vm_avl_empty \<or> avl_checkheights t \<and> inorder t = xs @ rest"
    and s': "s' = s\<lparr>vm_area_cachep := cs, mmap_avl := t, mmap := xs @ rest, mmap_cache := None\<rparr>"
  shows "release_inv s' addr en (Some e) (rev hit)"
proof -
  have ok: "areas_ok (areas s) (xs @ hit @ rest)" using wf split by (simp add: vm_wf_def)
  have dist: "distinct (xs @ hit @ rest)" by (rule areas_ok_distinct [OF ok])
  have "vm_wf_pending (length (rev hit)) s'"
    using wf ok t by (auto simp: vm_wf_pending_iff vm_wf_def s' split cache areas_ok_append)
  moreover have "clear_of (areas s) i (xs @ rest)" if "i \<in> set hit" for i
    using ok that by (auto simp: clear_of_def areas_ok_append)
  moreover have "precedes (areas s) i j \<or> precedes (areas s) j i"
    if "i \<in> set hit" "j \<in> set hit" "i \<noteq> j" for i j
  proof -
    have "areas_ok (areas s) hit" using ok by (simp add: areas_ok_append)
    then show ?thesis using that by (induction hit) auto
  qed
  moreover have "area_ok (areas s i)" if "i \<in> set hit" for i
    using ok that by (simp add: areas_ok_def)
  moreover have "e \<notin> set (xs @ hit @ rest)" "e \<notin> set cs" "set cs \<inter> set (xs @ hit @ rest) = {}"
    using wf by (auto simp: vm_wf_def split cache)
  ultimately show ?thesis using dist hit by (auto simp: release_inv_def s')
qed

section \<open>Freeing page tables\<close>

definition is_clear :: "vm_event \<Rightarrow> bool" where
  "is_clear e = (case e of Clear_page_tables _ _ \<Rightarrow> True | _ \<Rightarrow> False)"

definition page_clears :: "vm_state \<Rightarrow> vm_event list" where
  "page_clears s = filter is_clear (vm_trace s)"

text \<open>The slots of the page directory a clearing empties serve no address of an area.\<close>

definition clears_unused :: "vm_state \<Rightarrow> vm_event \<Rightarrow> bool" where
  "clears_unused s e =
    (case e of
       Clear_page_tables first n \<Rightarrow>
         (\<forall>a. (\<exists>i\<in>set (mmap s). covers (areas s i) a) \<longrightarrow>
              \<not> (first \<le> drop_bit PGDIR_SHIFT a \<and> drop_bit PGDIR_SHIFT a < first + n))
     | _ \<Rightarrow> True)"

abbreviation pgd_slot :: "ulong \<Rightarrow> ulong" where
  "pgd_slot a \<equiv> drop_bit PGDIR_SHIFT a"

lemma slot_le: "x \<le> y \<Longrightarrow> pgd_slot x \<le> pgd_slot y"
  by (simp add: word_le_nat_alt unat_drop_bit div_le_mono)

lemma slot_below_first:
  assumes "x < e" and "e \<le> TASK_SIZE" and "2 ^ 22 dvd unat first"
    and "first' = (if e > first then e + PGDIR_SIZE - 1 else first)"
  shows "pgd_slot x < pgd_slot first'"
proof (cases "e > first")
  case True
  have e: "0 < unat e" using assms(1) by (auto simp: word_less_nat_alt)
  have shift: "e + PGDIR_SIZE - 1 = e + 0x3FFFFF" by (simp add: PGDIR_SIZE_def algebra_simps)
  have "unat e + 0x3FFFFF < 2 ^ 32" using assms(2) by (simp add: word_le_nat_alt TASK_SIZE_def)
  then have "unat (e + 0x3FFFFF) = unat e + 0x3FFFFF" by (subst unat_plus_no_wrap) auto
  moreover have "unat x \<le> unat e - 1" using assms(1) by (simp add: word_less_nat_alt)
  then have "unat x div 0x400000 \<le> (unat e - 1) div 0x400000" by (rule div_le_mono)
  moreover have "(unat e - 1) div 0x400000 < (unat e + 0x3FFFFF) div 0x400000" using e by simp
  ultimately show ?thesis
    using True assms(4) shift by (simp add: word_less_nat_alt unat_drop_bit PGDIR_SHIFT_def)
next
  case False
  obtain k where "unat first = 2 ^ 22 * k" using assms(3) by auto
  moreover have "unat x < unat first" using False assms(1) by (simp add: word_less_nat_alt)
  ultimately have "unat x div 0x400000 < unat first div 0x400000"
    by (simp add: less_mult_imp_div_less mult.commute)
  then show ?thesis
    using False assms(4) by (simp add: word_less_nat_alt unat_drop_bit PGDIR_SHIFT_def)
qed

lemma pgtables_scan_spec:
  assumes "areas_ok a (p # chain)" and "vm_end (a p) \<le> start"
    and "\<forall>v\<in>set chain. vm_end (a v) \<le> start \<or> start \<le> vm_start (a v)"
    and "2 ^ 22 dvd unat first" and "pgtables_scan a start first last_addr p chain = (first', last')"
  shows "(\<forall>x. x < vm_end (a p) \<longrightarrow> pgd_slot x < pgd_slot first') \<and>
    (\<forall>v\<in>set chain. (\<forall>x. x < vm_end (a v) \<longrightarrow> pgd_slot x < pgd_slot first') \<or>
       (\<forall>x. vm_start (a v) \<le> x \<longrightarrow> pgd_slot last' \<le> pgd_slot x))"
  using assms
proof (induction chain arbitrary: p)
  case Nil
  then have "vm_end (a p) \<le> TASK_SIZE" by (simp add: area_ok_def)
  with Nil slot_below_first [of _ "vm_end (a p)" first first'] show ?case by simp
next
  case (Cons v chain)
  have ends: "vm_end (a p) \<le> vm_start (a v)" "vm_start (a v) < vm_end (a v)"
    "vm_end (a p) \<le> TASK_SIZE"
    using Cons.prems(1) by (auto simp: area_ok_def)
  show ?case
  proof (cases "vm_start (a v) < start")
    case True
    then have "vm_end (a v) \<le> start" using Cons.prems(3) by auto
    with True Cons.prems Cons.IH [of v]
    have "(\<forall>x. x < vm_end (a v) \<longrightarrow> pgd_slot x < pgd_slot first') \<and>
      (\<forall>v\<in>set chain. (\<forall>x. x < vm_end (a v) \<longrightarrow> pgd_slot x < pgd_slot first') \<or>
         (\<forall>x. vm_start (a v) \<le> x \<longrightarrow> pgd_slot last' \<le> pgd_slot x))"
      by simp
    moreover have "x < vm_end (a v)" if "x < vm_end (a p)" for x using that ends by auto
    ultimately show ?thesis by auto
  next
    case False
    then have "first' = (if vm_end (a p) > first then vm_end (a p) + PGDIR_SIZE - 1 else first)"
      and last': "last' \<le> vm_start (a v)"
      using Cons.prems(5) by (auto split: if_splits)
    then have "\<forall>x. x < vm_end (a p) \<longrightarrow> pgd_slot x < pgd_slot first'"
      using slot_below_first [OF _ ends(3) Cons.prems(4)] by blast
    moreover have "last' \<le> x" if "w \<in> set (v # chain)" "vm_start (a w) \<le> x" for w x
    proof -
      have "vm_start (a v) \<le> vm_start (a w)"
        using Cons.prems(1) that(1) ends(2) by (auto intro: order_trans less_imp_le)
      with last' that(2) show ?thesis by order
    qed
    ultimately show ?thesis using slot_le by blast
  qed
qed

lemma chain_from_split: "distinct (xs @ p # ys) \<Longrightarrow> chain_from (xs @ p # ys) p = p # ys"
  by (induction xs) (auto simp: chain_from_def)

lemma PGDIR_MASK_dvd: "2 ^ 22 dvd unat (x AND PGDIR_MASK)"
proof -
  have eq: "PGDIR_MASK = NOT (mask 22)"
    by (simp add: PGDIR_MASK_def PGDIR_SIZE_def mask_eq_exp_minus_1)
  show ?thesis unfolding eq unat_and_not_mask by (rule dvd_triv_right)
qed

lemma free_pgtables_range_unused:
  assumes wf: "areas_ok (areas s) (mmap s)"
    and free: "\<forall>v\<in>set (mmap s). end_of s v \<le> start \<or> start \<le> start_of s v"
    and prev: "\<And>p. prev = Some p \<Longrightarrow> p \<in> set (mmap s) \<and> end_of s p \<le> start"
    and rng: "free_pgtables_range s prev start en = (first, last_addr)"
    and v: "v \<in> set (mmap s)" and a: "covers (areas s v) a"
  shows "\<not> (pgd_slot first \<le> pgd_slot a \<and> pgd_slot a < pgd_slot last_addr)"
proof -
  let ?first = "start AND PGDIR_MASK" and ?last = "(en + PGDIR_SIZE - 1) AND PGDIR_MASK"
  have scan: "\<not> (pgd_slot first \<le> pgd_slot a \<and> pgd_slot a < pgd_slot last_addr)"
    if split: "mmap s = xs @ p # chain" and p: "end_of s p \<le> start"
      and eq: "pgtables_scan (areas s) start ?first ?last p chain = (first, last_addr)" for xs p chain
  proof -
    have ok: "areas_ok (areas s) (p # chain)" "\<forall>w\<in>set xs. precedes (areas s) w p"
      "start_of s p < end_of s p"
      using wf split by (auto simp: areas_ok_append)
    have chain: "\<forall>w\<in>set chain. end_of s w \<le> start \<or> start \<le> start_of s w"
      using free split by simp
    note spec = pgtables_scan_spec [OF ok(1) p chain PGDIR_MASK_dvd eq]
    consider "v \<in> set (xs @ [p])" | "v \<in> set chain" using v split by auto
    then show ?thesis
    proof cases
      case 1
      then have "end_of s v \<le> end_of s p" using ok by (auto intro: order_trans less_imp_le)
      then have "a < end_of s p" using a by (auto simp: covers_def)
      with spec show ?thesis by (auto simp: not_le)
    next
      case 2
      with spec a show ?thesis by (fastforce simp: covers_def not_le)
    qed
  qed
  show ?thesis
  proof (cases prev)
    case (Some p)
    obtain xs chain where split: "mmap s = xs @ p # chain"
      using split_list [of p "mmap s"] prev [OF Some] by blast
    moreover have "chain_from (mmap s) p = p # chain"
      using areas_ok_distinct [OF wf] split by (simp add: chain_from_split)
    ultimately show ?thesis using scan [OF split] prev [OF Some] rng Some
      by (simp add: free_pgtables_range_def Let_def)
  next
    case None
    obtain p chain where split: "mmap s = p # chain" using v by (cases "mmap s") auto
    show ?thesis
    proof (cases "end_of s p > start")
      case False
      with None split rng scan [of "[]" p chain] show ?thesis
        by (simp add: free_pgtables_range_def Let_def not_less)
    next
      case True
      then have "last_addr \<le> start_of s p"
        using None split rng by (auto simp: free_pgtables_range_def Let_def split: if_splits)
      also have "start_of s p \<le> start_of s v"
        using wf v split by (auto simp: area_ok_def intro: order_trans less_imp_le)
      also have "start_of s v \<le> a" using a by (simp add: covers_def)
      finally show ?thesis using slot_le by (auto simp: not_less)
    qed
  qed
qed

lemma free_pgtables_spec:
  assumes "areas_ok (areas s) (mmap s)"
    and "\<forall>v\<in>set (mmap s). end_of s v \<le> start \<or> start \<le> start_of s v"
    and "\<And>p. prev = Some p \<Longrightarrow> p \<in> set (mmap s) \<and> end_of s p \<le> start"
  shows "\<exists>cl. page_clears (free_pgtables s prev start en) = page_clears s @ cl \<and>
    (\<forall>e\<in>set cl. clears_unused s e)"
proof -
  obtain first last_addr where rng: "free_pgtables_range s prev start en = (first, last_addr)"
    by fastforce
  have "clears_unused s (Clear_page_tables (pgd_slot first) (pgd_slot last_addr - pgd_slot first))"
    using free_pgtables_range_unused [OF assms rng] by (auto simp: clears_unused_def)
  with rng show ?thesis
    by (auto simp: free_pgtables_def page_clears_def is_clear_def Let_def)
qed

lemma free_pgtables_frame [simp]:
  "areas (free_pgtables s p st en) = areas s" "mmap (free_pgtables s p st en) = mmap s"
  "vm_area_cachep (free_pgtables s p st en) = vm_area_cachep s"
  "vm_wf (free_pgtables s p st en) = vm_wf s"
  by (simp_all add: free_pgtables_def Let_def vm_wf_def split: prod.splits)

lemma clears_unused_frame [simp]:
  "clears_unused (free_pgtables s p st en) e = clears_unused s e"
  by (cases e) (simp_all add: clears_unused_def)

text \<open>The other steps of \<open>do_munmap\<close> free no page table.\<close>

lemma page_clears_log [simp]: "page_clears (log_event e s) = page_clears s @ (if is_clear e then [e] else [])"
  by (simp add: page_clears_def)

lemma is_clear_simps [simp]:
  "\<not> is_clear (Op_open i)" "\<not> is_clear (Op_close i)" "\<not> is_clear (Op_unmap i a b)"
  "\<not> is_clear (Flush_cache_range a b)" "\<not> is_clear (Flush_tlb_range a b)"
  "\<not> is_clear (Zap_page_range a b)" "\<not> is_clear Tree_inconsistent"
  by (simp_all add: is_clear_def)

lemma page_clears_calls [simp]:
  "page_clears (run_open v s) = page_clears s" "page_clears (run_close v s) = page_clears s"
  "page_clears (run_unmap v st sz s) = page_clears s"
  "page_clears (get_area_file v s) = page_clears s" "page_clears (fput_area v s) = page_clears s"
  "page_clears (remove_shared_vm_struct v s) = page_clears s"
  "page_clears (add_shared_vm_struct v s) = page_clears s"
  "page_clears (kmem_cache_free v s) = page_clears s" "page_clears (upd_area v g s) = page_clears s"
  "page_clears (fixup_account s v len) = page_clears s"
  by (simp_all add: run_open_def run_close_def run_unmap_def get_area_file_def fput_area_def
      page_clears_def fixup_account_def Let_def split: option.splits)

lemma page_clears_update [simp]:
  "page_clears (s\<lparr>mmap := m\<rparr>) = page_clears s" "page_clears (s\<lparr>mmap_avl := t\<rparr>) = page_clears s"
  "page_clears (s\<lparr>map_count := n\<rparr>) = page_clears s" "page_clears (s\<lparr>mmap_cache := c\<rparr>) = page_clears s"
  "page_clears (s\<lparr>total_vm := v\<rparr>) = page_clears s" "page_clears (s\<lparr>locked_vm := v\<rparr>) = page_clears s"
  "page_clears (s\<lparr>vm_area_cachep := cs\<rparr>) = page_clears s"
  by (simp_all add: page_clears_def)

lemma page_clears_insert [simp]: "page_clears (insert_vm_struct s x) = page_clears s"
  by (simp add: insert_vm_struct_def Let_def build_mmap_avl_def split: prod.splits)

lemma page_clears_fixup:
  "unmap_fixup s i st len extra = Done (s', extra') \<Longrightarrow> page_clears s' = page_clears s"
  by (auto simp: unmap_fixup_def Let_def split: if_splits option.splits)

lemma page_clears_release:
  "release_loop s addr len extra free = Done (s', extra') \<Longrightarrow> page_clears s' = page_clears s"
proof (induction free arbitrary: s extra)
  case (Cons i free)
  then show ?case
    by (auto simp: Let_def dest!: page_clears_fixup split: outcome.splits)
qed simp

section \<open>The whole of do\_munmap\<close>

definition munmap_args_ok :: "ulong \<Rightarrow> ulong \<Rightarrow> bool" where
  "munmap_args_ok addr len \<longleftrightarrow>
     page_aligned addr \<and> addr \<le> TASK_SIZE \<and> len \<le> TASK_SIZE - addr \<and> len \<noteq> 0"

text \<open>Some area has addresses on both sides of the range.\<close>

definition punches_hole :: "vm_state \<Rightarrow> ulong \<Rightarrow> ulong \<Rightarrow> bool" where
  "punches_hole s addr en \<longleftrightarrow> (\<exists>i\<in>set (mmap s). start_of s i < addr \<and> en < end_of s i)"

lemma munmap_range:
  assumes "munmap_args_ok addr len"
  shows "unat (addr + PAGE_ALIGN len) = unat addr + unat (PAGE_ALIGN len)"
    and "addr < addr + PAGE_ALIGN len" and "page_aligned (addr + PAGE_ALIGN len)"
    and "addr + PAGE_ALIGN len \<le> TASK_SIZE" and "PAGE_ALIGN len \<noteq> 0"
proof -
  have len: "unat len \<le> unat TASK_SIZE - unat addr" "unat addr \<le> unat TASK_SIZE"
    using assms by (auto simp: munmap_args_ok_def word_le_nat_alt unat_minus_no_wrap)
  obtain k where k: "unat addr = 4096 * k"
    using assms by (auto simp: munmap_args_ok_def page_aligned_iff)
  have p: "unat (PAGE_ALIGN len) = (unat len + 4095) div 4096 * 4096"
    using len by (intro unat_PAGE_ALIGN) (simp add: TASK_SIZE_def)
  obtain j where j: "786432 = k + j" using len k by (auto simp: TASK_SIZE_def dest!: le_Suc_ex)
  then have "unat len + 4095 < (j + 1) * 4096" using len k by (simp add: TASK_SIZE_def)
  then have "(unat len + 4095) div 4096 < j + 1" by (rule less_mult_imp_div_less)
  then have le: "unat addr + unat (PAGE_ALIGN len) \<le> unat TASK_SIZE"
    using j k p by (simp add: TASK_SIZE_def)
  then show sum: "unat (addr + PAGE_ALIGN len) = unat addr + unat (PAGE_ALIGN len)"
    by (rule unat_fits_plus)
  have "unat len \<noteq> 0" using assms by (simp add: munmap_args_ok_def unat_eq_0)
  then have pos: "unat (PAGE_ALIGN len) > 0" using p by (simp add: div_greater_zero_iff)
  then show "addr < addr + PAGE_ALIGN len" by (simp add: word_less_nat_alt sum)
  show "PAGE_ALIGN len \<noteq> 0" using pos by auto
  show "addr + PAGE_ALIGN len \<le> TASK_SIZE" using le by (simp add: word_le_nat_alt sum)
  show "page_aligned (addr + PAGE_ALIGN len)"
    using k p by (simp add: page_aligned_iff sum)
qed

lemma do_munmap_unfold:
  assumes args: "munmap_args_ok addr len" and wf: "vm_wf s"
    and ys: "ending_after (areas s) addr (mmap s) = y # ys" and xs: "ending_by (areas s) addr (mmap s) = xs"
    and en: "en = addr + PAGE_ALIGN len" and meets: "start_of s y < en"
    and hole: "\<not> (start_of s y < addr \<and> en < end_of s y \<and> map_count s \<ge> MAX_MAP_COUNT)"
    and cache: "vm_area_cachep s = e # cs"
  shows "do_munmap s addr len =
    bind_outcome (unlink_loop (s\<lparr>vm_area_cachep := cs\<rparr>) en (y # ys) [])
      (\<lambda>(s, chain, free).
         bind_outcome (release_loop (s\<lparr>mmap := list_up_to (mmap s) (last_or xs None) @ chain,
                                       mmap_cache := None\<rparr>) addr (PAGE_ALIGN len) (Some e) free)
           (\<lambda>(s, extra).
              Done (None, free_pgtables (case extra of None \<Rightarrow> s | Some x \<Rightarrow> kmem_cache_free x s)
                            (last_or xs None) addr en)))"
proof -
  have "areas_ok (areas s) (mmap s)" using wf by (simp add: vm_wf_def)
  then have "chain_from (mmap s) y = y # ys"
    by (intro chain_from_ending_after [OF areas_ok_distinct ys])
  moreover have "find_vma_prev s addr = (Some y, last_or xs None, s)"
    using find_vma_prev_spec [OF wf, of addr] ys xs by simp
  moreover have "\<not> (addr AND NOT PAGE_MASK \<noteq> 0 \<or> addr > TASK_SIZE \<or> len > TASK_SIZE - addr)"
    using args by (auto simp: munmap_args_ok_def page_aligned_def not_less)
  moreover have "\<not> addr + PAGE_ALIGN len \<le> start_of s y" using meets en by simp
  moreover have "\<not> (start_of s y < addr \<and> addr + PAGE_ALIGN len < end_of s y \<and>
      MAX_MAP_COUNT \<le> map_count s)"
    using hole en by simp
  ultimately show ?thesis
    using munmap_range(5) [OF args] cache
    by (simp add: do_munmap_def en Let_def del: unlink_loop.simps de_Morgan_conj de_Morgan_disj)
qed

text \<open>The last part of \<open>do_munmap\<close>, from the state in which the affected areas are unlinked.\<close>

lemma release_and_free:
  assumes inv: "release_inv s addr en (Some e) free" and en: "en = addr + len"
    and rng: "page_aligned addr" "page_aligned en" "addr < en"
    and f: "trims f"
      "(\<exists>i\<in>set free. start_of s i < addr \<and> en < end_of s i) \<longrightarrow> ignores_offset f"
    and others: "\<forall>v\<in>set (mmap s). end_of s v \<le> addr \<or> en \<le> start_of s v"
    and prev: "\<And>p. prev = Some p \<Longrightarrow> p \<in> set (mmap s) \<and> end_of s p \<le> addr"
  shows "\<exists>s' extra cl. release_loop s addr len (Some e) free = Done (s', extra) \<and>
    (let s'' = free_pgtables (case extra of None \<Rightarrow> s' | Some x \<Rightarrow> kmem_cache_free x s') prev addr en in
     vm_wf s'' \<and> page_clears s'' = page_clears s @ cl \<and> (\<forall>e\<in>set cl. clears_unused s'' e) \<and>
     untouched (insert e (set (mmap s) \<union> set (vm_area_cachep s) \<union> set free)) s s'' \<and>
     (\<forall>a x. maps f (areas s'') (set (mmap s'')) a x \<longleftrightarrow>
        maps f (areas s) (set (mmap s) \<union> set free) a x \<and> \<not> (addr \<le> a \<and> a < en)))"
proof -
  from release_loop_spec [OF inv [unfolded en] rng [unfolded en] f [unfolded en]]
  obtain s' extra where rel: "release_loop s addr len (Some e) free = Done (s', extra)"
    and inv': "release_inv s' addr (addr + len) extra []"
    and kept: "\<forall>k\<in>set (mmap s). k \<in> set (mmap s') \<and> areas s' k = areas s k"
    and un: "untouched (set (mmap s) \<union> set (vm_area_cachep s) \<union> set free \<union> set_option (Some e)) s s'"
    and ex: "extra = None \<or> extra = Some e"
    and m: "\<And>a x. maps f (areas s') (set (mmap s')) a x \<longleftrightarrow> maps f (areas s) (set (mmap s)) a x \<or>
       maps f (areas s) (set free) a x \<and> \<not> (addr \<le> a \<and> a < en)"
    unfolding en by blast
  let ?s = "case extra of None \<Rightarrow> s' | Some x \<Rightarrow> kmem_cache_free x s'"
  have frame: "areas ?s = areas s'" "mmap ?s = mmap s'" "page_clears ?s = page_clears s"
    using page_clears_release [OF rel] by (auto split: option.splits)
  have wf: "vm_wf ?s"
    using inv' by (auto simp: release_inv_def vm_wf_def split: option.splits)
  have "\<not> maps f (areas s) (set (mmap s)) a x" if "addr \<le> a" "a < en" for a x
    using others that by (fastforce simp: maps_def covers_def)
  then have m': "maps f (areas s') (set (mmap s')) a x \<longleftrightarrow>
      maps f (areas s) (set (mmap s) \<union> set free) a x \<and> \<not> (addr \<le> a \<and> a < en)" for a x
    unfolding m by (auto simp: maps_def)
  have "end_of s' v \<le> addr \<or> addr \<le> start_of s' v" if "v \<in> set (mmap s')" for v
  proof (rule ccontr)
    assume "\<not> ?thesis"
    then have "covers (areas s' v) addr" by (auto simp: covers_def)
    then have "maps f (areas s') (set (mmap s')) addr (f (areas s' v) addr)"
      using that by (auto simp: maps_def)
    with m' rng(3) show False by simp
  qed
  then obtain cl where "page_clears (free_pgtables ?s prev addr en) = page_clears s @ cl"
    "\<forall>e\<in>set cl. clears_unused ?s e"
    using free_pgtables_spec [of ?s addr prev en] wf prev kept frame
    by (auto simp: vm_wf_def)
  moreover have "untouched (insert e (set (mmap s) \<union> set (vm_area_cachep s) \<union> set free)) s
      (free_pgtables ?s prev addr en)"
    using un ex by (auto simp: untouched_def split: option.splits)
  ultimately show ?thesis using wf m' frame rel by (auto simp: Let_def)
qed

lemma munmap_parts:
  assumes ok: "areas_ok (areas s) (mmap s)"
    and xs: "xs = ending_by (areas s) addr (mmap s)" and ys: "ys = ending_after (areas s) addr (mmap s)"
    and hit: "hit = takeWhile (\<lambda>v. start_of s v < en) ys"
    and rest: "rest = dropWhile (\<lambda>v. start_of s v < en) ys"
  shows "mmap s = xs @ ys" and "ys = hit @ rest"
    and "\<forall>v\<in>set hit. start_of s v < en \<and> addr < end_of s v"
    and "\<forall>v\<in>set xs. end_of s v \<le> addr" and "\<forall>v\<in>set rest. en \<le> start_of s v"
proof -
  show split: "mmap s = xs @ ys" by (simp add: xs ys)
  show parts: "ys = hit @ rest" by (simp add: hit rest)
  have "v \<in> set ys" if "v \<in> set hit" for v using that parts by simp
  moreover have "\<forall>v\<in>set ys. addr < end_of s v"
    using ending_after_gt [OF areas_ok_ordered [OF ok]] ys by metis
  ultimately show "\<forall>v\<in>set hit. start_of s v < en \<and> addr < end_of s v"
    unfolding hit by (metis set_takeWhileD)
  show "\<forall>v\<in>set xs. end_of s v \<le> addr" by (auto simp: xs dest: set_takeWhileD)
  show "\<forall>v\<in>set rest. en \<le> start_of s v"
  proof (cases rest)
    case (Cons w ws)
    then have "en \<le> start_of s w" unfolding rest by (metis dropWhile_eq_Cons_conv not_less)
    moreover have "areas_ok (areas s) rest" using ok split parts by (simp add: areas_ok_append)
    ultimately show ?thesis using Cons by (auto simp: area_ok_def intro: order_trans less_imp_le)
  qed simp
qed

lemma do_munmap_work:
  assumes args: "munmap_args_ok addr len" and wf: "vm_wf s"
    and ys: "ending_after (areas s) addr (mmap s) = y # ys"
    and en: "en = addr + PAGE_ALIGN len" and meets: "start_of s y < en"
    and hole: "\<not> (start_of s y < addr \<and> en < end_of s y \<and> map_count s \<ge> MAX_MAP_COUNT)"
    and cache: "vm_area_cachep s = e # cs"
    and f: "trims f" "punches_hole s addr en \<longrightarrow> ignores_offset f"
  shows "\<exists>s' cl. do_munmap s addr len = Done (None, s') \<and> vm_wf s' \<and>
     page_clears s' = page_clears s @ cl \<and> (\<forall>e\<in>set cl. clears_unused s' e) \<and>
     untouched (set (mmap s) \<union> set (vm_area_cachep s)) s s' \<and>
     (\<forall>a x. maps f (areas s') (set (mmap s')) a x \<longleftrightarrow>
        maps f (areas s) (set (mmap s)) a x \<and> \<not> (addr \<le> a \<and> a < en))"
proof -
  define xs where "xs = ending_by (areas s) addr (mmap s)"
  define hit where "hit = takeWhile (\<lambda>v. start_of s v < en) (y # ys)"
  define rest where "rest = dropWhile (\<lambda>v. start_of s v < en) (y # ys)"
  have ok: "areas_ok (areas s) (mmap s)" using wf by (simp add: vm_wf_def)
  note parts = munmap_parts [OF ok xs_def ys [symmetric] hit_def rest_def]
  let ?s = "s\<lparr>vm_area_cachep := cs\<rparr>" and ?prev = "last_or xs None"
  have "mmap_avl ?s = vm_avl_empty \<or>
      avl_checkheights (mmap_avl ?s) \<and> inorder (mmap_avl ?s) = xs @ y # ys"
    using wf parts(1) by (simp add: vm_wf_def)
  from unlink_loop_spec [OF _ this, of en "[]"] ok parts(1)
  obtain t where unlink: "unlink_loop ?s en (y # ys) [] = Done (?s\<lparr>mmap_avl := t\<rparr>, rest, rev hit)"
    and t: "t = vm_avl_empty \<or> avl_checkheights t \<and> inorder t = xs @ rest"
    by (auto simp: hit_def rest_def simp del: unlink_loop.simps takeWhile.simps dropWhile.simps)
  define s1 where "s1 = ?s\<lparr>mmap_avl := t, mmap := xs @ rest, mmap_cache := None\<rparr>"
  have up: "list_up_to (xs @ y # ys) ?prev = xs"
    by (rule list_up_to_last_or) (use areas_ok_distinct [OF ok] parts(1) in simp)
  have inv: "release_inv s1 addr en (Some e) (rev hit)"
    by (rule release_inv_start [OF wf _ cache parts(3) t]) (simp_all add: parts(1,2) s1_def)
  have others: "\<forall>v\<in>set (mmap s1). end_of s1 v \<le> addr \<or> en \<le> start_of s1 v"
    using parts(4,5) by (auto simp: s1_def)
  have holes: "(\<exists>i\<in>set (rev hit). start_of s1 i < addr \<and> en < end_of s1 i) \<longrightarrow> ignores_offset f"
    using f(2) parts(1,2) by (auto simp: punches_hole_def s1_def)
  have prev: "p \<in> set (mmap s1) \<and> end_of s1 p \<le> addr" if "?prev = Some p" for p
    using that parts(4) by (cases xs rule: rev_cases) (auto simp: last_or_def s1_def)
  have "page_aligned addr" using args by (simp add: munmap_args_ok_def)
  from release_and_free [OF inv en this munmap_range(3,2) [OF args, folded en] f(1) holes others prev]
  obtain s' extra cl where
    rel: "release_loop s1 addr (PAGE_ALIGN len) (Some e) (rev hit) = Done (s', extra)"
    and post: "let s'' = free_pgtables (case extra of None \<Rightarrow> s' | Some x \<Rightarrow> kmem_cache_free x s')
        ?prev addr en in
     vm_wf s'' \<and> page_clears s'' = page_clears s1 @ cl \<and> (\<forall>e\<in>set cl. clears_unused s'' e) \<and>
     untouched (insert e (set (mmap s1) \<union> set (vm_area_cachep s1) \<union> set (rev hit))) s1 s'' \<and>
     (\<forall>a x. maps f (areas s'') (set (mmap s'')) a x \<longleftrightarrow>
        maps f (areas s1) (set (mmap s1) \<union> set (rev hit)) a x \<and> \<not> (addr \<le> a \<and> a < en))"
    by blast
  have "do_munmap s addr len = Done (None, free_pgtables
      (case extra of None \<Rightarrow> s' | Some x \<Rightarrow> kmem_cache_free x s') ?prev addr en)"
    using do_munmap_unfold [OF args wf ys xs_def [symmetric] en meets hole cache] unlink rel up parts(1)
    by (simp add: s1_def del: unlink_loop.simps)
  moreover have "set (mmap s1) \<union> set (rev hit) = set (mmap s)" "areas s1 = areas s"
    "page_clears s1 = page_clears s"
    using parts(1,2) by (auto simp: s1_def)
  moreover have "insert e (set (mmap s1) \<union> set (vm_area_cachep s1) \<union> set (rev hit)) =
      set (mmap s) \<union> set (vm_area_cachep s)"
    using parts(1,2) cache by (auto simp: s1_def)
  ultimately show ?thesis using post by (simp add: Let_def untouched_def)
qed

lemma do_munmap_spec:
  assumes args: "munmap_args_ok addr len" and wf: "vm_wf s" and en: "en = addr + PAGE_ALIGN len"
    and f: "trims f" "punches_hole s addr en \<longrightarrow> ignores_offset f"
  shows "\<exists>r s'. do_munmap s addr len = Done (r, s') \<and> vm_wf s' \<and>
    (case r of
       Some e \<Rightarrow> e = ENOMEM \<and> s' = s \<and> (vm_area_cachep s = [] \<or>
         punches_hole s addr en \<and> map_count s \<ge> MAX_MAP_COUNT)
     | None \<Rightarrow>
         (\<exists>cl. page_clears s' = page_clears s @ cl \<and> (\<forall>e\<in>set cl. clears_unused s' e)) \<and>
         untouched (set (mmap s) \<union> set (vm_area_cachep s)) s s' \<and>
         (\<forall>a x. maps f (areas s') (set (mmap s')) a x \<longleftrightarrow>
            maps f (areas s) (set (mmap s)) a x \<and> \<not> (addr \<le> a \<and> a < en)))"
proof -
  have ok: "areas_ok (areas s) (mmap s)" using wf by (simp add: vm_wf_def)
  note prev = find_vma_prev_spec [OF wf, of addr]
  have args': "\<not> (addr AND NOT PAGE_MASK \<noteq> 0 \<or> addr > TASK_SIZE \<or> len > TASK_SIZE - addr)"
    using args by (auto simp: munmap_args_ok_def page_aligned_def not_less)
  have none: ?thesis if "do_munmap s addr len = Done (None, s)"
    "\<forall>v\<in>set (mmap s). end_of s v \<le> addr \<or> en \<le> start_of s v"
    using that wf by (fastforce simp: maps_def covers_def untouched_def)
  show ?thesis
  proof (cases "ending_after (areas s) addr (mmap s)")
    case Nil
    then have "do_munmap s addr len = Done (None, s)"
      using prev args' munmap_range(5) [OF args] by (simp add: do_munmap_def)
    moreover have "\<forall>v\<in>set (mmap s). end_of s v \<le> addr"
      using ending_by_all [OF Nil] by (metis set_takeWhileD)
    ultimately show ?thesis using none by blast
  next
    case (Cons y ys)
    then have y: "y \<in> set (mmap s)" by (metis list.set_intros(1) set_dropWhileD)
    have find: "find_vma_prev s addr = (Some y, last_or (ending_by (areas s) addr (mmap s)) None, s)"
      using prev Cons by simp
    consider (miss) "en \<le> start_of s y"
      | (many) "start_of s y < en" "start_of s y < addr \<and> en < end_of s y \<and> map_count s \<ge> MAX_MAP_COUNT"
      | (work) "start_of s y < en"
          "\<not> (start_of s y < addr \<and> en < end_of s y \<and> map_count s \<ge> MAX_MAP_COUNT)"
      by force
    then show ?thesis
    proof cases
      case miss
      then have "do_munmap s addr len = Done (None, s)"
        using find args' munmap_range(5) [OF args] en by (simp add: do_munmap_def Let_def)
      moreover have "\<not> start_of s y < en" using miss by simp
      then have "\<forall>v\<in>set (y # ys). en \<le> start_of s v"
        using munmap_parts(5) [OF ok refl Cons [symmetric] refl refl, of en]
        by (simp only: dropWhile.simps if_False)
      then have "\<forall>v\<in>set (mmap s). end_of s v \<le> addr \<or> en \<le> start_of s v"
        using munmap_parts(1,4) [OF ok refl Cons [symmetric] refl refl]
        by (metis Un_iff set_append)
      ultimately show ?thesis using none by blast
    next
      case many
      then have "do_munmap s addr len = Done (Some ENOMEM, s)"
        using find args' munmap_range(5) [OF args] en by (simp add: do_munmap_def Let_def not_le)
      with many y wf show ?thesis by (auto simp: punches_hole_def)
    next
      case work
      show ?thesis
      proof (cases "vm_area_cachep s")
        case Nil
        then have "do_munmap s addr len = Done (Some ENOMEM, s)"
          using find args' munmap_range(5) [OF args] en work by (simp add: do_munmap_def Let_def not_le)
        with Nil wf show ?thesis by auto
      next
        case (Cons e cs)
        from do_munmap_work [OF args wf \<open>ending_after _ _ _ = _\<close> en work Cons f] show ?thesis
          by force
      qed
    qed
  qed
qed

section \<open>Properties\<close>

lemma do_munmap_view:
  assumes args: "munmap_args_ok addr len" and wf: "vm_wf s" and en: "en = addr + PAGE_ALIGN len"
    and f: "trims f" "punches_hole s addr en \<longrightarrow> ignores_offset f"
  shows "\<exists>r s'. do_munmap s addr len = Done (r, s') \<and> vm_wf s' \<and>
    (r \<noteq> None \<longrightarrow> s' = s \<and> r = Some ENOMEM \<and> (vm_area_cachep s = [] \<or>
       punches_hole s addr en \<and> map_count s \<ge> MAX_MAP_COUNT)) \<and>
    (r = None \<longrightarrow> (\<forall>a. view_at f s' a = (if addr \<le> a \<and> a < en then None else view_at f s a)))"
proof -
  from do_munmap_spec [OF assms] obtain r s' where r: "do_munmap s addr len = Done (r, s')" "vm_wf s'"
    and some: "\<And>e. r = Some e \<Longrightarrow> e = ENOMEM \<and> s' = s \<and> (vm_area_cachep s = [] \<or>
         punches_hole s addr en \<and> map_count s \<ge> MAX_MAP_COUNT)"
    and none: "\<And>a x. r = None \<Longrightarrow> maps f (areas s') (set (mmap s')) a x \<longleftrightarrow>
            maps f (areas s) (set (mmap s)) a x \<and> \<not> (addr \<le> a \<and> a < en)"
    by (auto split: option.splits)
  have "view_at f s' a = (if addr \<le> a \<and> a < en then None else view_at f s a)" if "r = None" for a
    using none [OF that] wf r(2) by (intro view_at_cut) (auto simp: vm_wf_def)
  with r some show ?thesis by (cases r) auto
qed

lemma do_munmap_invalid:
  "\<not> munmap_args_ok addr len \<Longrightarrow> do_munmap s addr len = Done (Some EINVAL, s)"
  by (auto simp: munmap_args_ok_def do_munmap_def Let_def page_aligned_def not_le
      PAGE_ALIGN_def PAGE_MASK_def PAGE_SIZE_def)



text \<open>
  a successful \<open>do_munmap\<close> that does not split an area leaves the page of the file that
  every remaining address shows as it was.
\<close>

theorem do_munmap_keeps_file_pages:
  assumes "vm_wf s" and "\<not> punches_hole s addr (addr + PAGE_ALIGN len)"
    and "do_munmap s addr len = Done (None, s')"
  shows "view_at page_offset s' a =
    (if addr \<le> a \<and> a < addr + PAGE_ALIGN len then None else view_at page_offset s a)"
proof -
  have args: "munmap_args_ok addr len" using assms(3) do_munmap_invalid by fastforce
  from do_munmap_view [OF args assms(1) refl trims_page_offset] assms(2,3) show ?thesis by auto
qed

lemma do_munmap_example: "\<exists>s'. do_munmap example_vm 0x08048000 0x1000 = Done (None, s')"
proof -
  have "munmap_args_ok 0x08048000 0x1000"
    by (simp add: munmap_args_ok_def page_aligned_def PAGE_MASK_def PAGE_SIZE_def TASK_SIZE_def)
  moreover have "vm_area_cachep example_vm \<noteq> []" "\<not> MAX_MAP_COUNT \<le> map_count example_vm"
    by (simp_all add: example_vm_def MAX_MAP_COUNT_def)
  ultimately show ?thesis
    using do_munmap_spec [OF _ example_vm_wf refl trims_attrs] ignores_offset_attrs
    by (fastforce split: option.splits)
qed

lemma example_no_hole: "\<not> punches_hole example_vm 0x08048000 (0x08048000 + PAGE_ALIGN 0x1000)"
  by (simp add: punches_hole_def example_vm_def example_areas_def PAGE_ALIGN_def PAGE_MASK_def
      PAGE_SIZE_def)

theorem do_munmap_keeps_file_pages_witness:
  "\<exists>s'. do_munmap example_vm 0x08048000 0x1000 = Done (None, s') \<and>
     view_at page_offset s' 0x08049000 =
       (if 0x08048000 \<le> (0x08049000 :: ulong) \<and> (0x08049000 :: ulong) < 0x08048000 + PAGE_ALIGN 0x1000
        then None else view_at page_offset example_vm 0x08049000)"
  using do_munmap_example do_munmap_keeps_file_pages [OF example_vm_wf example_no_hole] by blast

text \<open>
  C19: the page directory slots that \<open>do_munmap\<close> empties (through \<open>free_pgtables\<close>) serve no
  address that is still mapped afterwards.
\<close>

theorem do_munmap_page_tables:
  assumes "vm_wf s" and "do_munmap s addr len = Done (None, s')"
  shows "\<exists>cl. page_clears s' = page_clears s @ cl \<and> (\<forall>e\<in>set cl. clears_unused s' e)"
proof -
  have "munmap_args_ok addr len" using assms(2) do_munmap_invalid by fastforce
  from do_munmap_spec [OF this assms(1) refl trims_attrs] ignores_offset_attrs assms(2)
  show ?thesis by auto
qed

theorem do_munmap_page_tables_witness:
  "\<exists>s' cl. do_munmap example_vm 0x08048000 0x1000 = Done (None, s') \<and>
     page_clears s' = page_clears example_vm @ cl \<and> list_all (clears_unused s') cl"
  using do_munmap_example do_munmap_page_tables [OF example_vm_wf, of "0x08048000" "0x1000"]
  by (metis list_all_iff)

text \<open>
  C35: when \<open>unmap_fixup\<close> splits an area it swaps the two file offsets. The lower part, whose
  first page showed page \<open>vm_pgoff\<close> of the file, now claims to start at the page that used to
  be shown at the end of the hole, and the upper part starts over at \<open>vm_pgoff\<close>.
\<close>

theorem unmap_fixup_swaps_offsets:
  assumes "vm_wf_pending n s" and "i \<notin> set (mmap s)" "i \<notin> set (vm_area_cachep s)"
    and "area_ok (areas s i)" "clear_of (areas s) i (mmap s)"
    and "e \<notin> set (mmap s)" "e \<notin> set (vm_area_cachep s)" "e \<noteq> i"
    and "start_of s i < st" "st < en" "en < end_of s i" "page_aligned st" "page_aligned en"
  shows "\<exists>s'. unmap_fixup s i st (en - st) (Some e) = Done (s', None) \<and>
    covers (areas s' i) (start_of s i) \<and> covers (areas s' e) en \<and>
    page_offset (areas s' i) (start_of s i) = page_offset (areas s i) en \<and>
    page_offset (areas s' e) en = page_offset (areas s i) (start_of s i)"
proof -
  from unmap_fixup_hole [OF assms ignores_offset_attrs] obtain s' where
    fixup: "unmap_fixup s i st (en - st) (Some e) = Done (s', None)"
    and i: "areas s' i = (areas s i)\<lparr>vm_pgoff := vm_pgoff (areas s i) + drop_bit PAGE_SHIFT (en - start_of s i),
      vm_end := st\<rparr>"
    and e: "vm_start (areas s' e) = en" "vm_end (areas s' e) = end_of s i"
      "vm_pgoff (areas s' e) = vm_pgoff (areas s i)"
    by blast
  then have "covers (areas s' i) (start_of s i) \<and> covers (areas s' e) en \<and>
      page_offset (areas s' i) (start_of s i) = page_offset (areas s i) en \<and>
      page_offset (areas s' e) en = page_offset (areas s i) (start_of s i)"
    using assms(9-11) by (simp add: covers_def page_offset_def)
  with fixup show ?thesis by blast
qed

text \<open>The example process, in the middle of unmapping part of its text.\<close>

definition example_unmapping :: vm_state where
  "example_unmapping = example_vm\<lparr>mmap := [1, 2], map_count := 2, vm_area_cachep := [4, 5]\<rparr>"

theorem unmap_fixup_swaps_offsets_witness:
  "\<exists>s'. unmap_fixup example_unmapping 0 0x08049000 (0x0804A000 - 0x08049000) (Some 3) = Done (s', None) \<and>
    covers (areas s' 0) (start_of example_unmapping 0) \<and> covers (areas s' 3) 0x0804A000 \<and>
    page_offset (areas s' 0) (start_of example_unmapping 0) = page_offset (areas example_unmapping 0) 0x0804A000 \<and>
    page_offset (areas s' 3) 0x0804A000 = page_offset (areas example_unmapping 0) (start_of example_unmapping 0)"
  by (rule unmap_fixup_swaps_offsets [of 0])
    (simp_all add: example_unmapping_def example_vm_def example_areas_def vm_wf_def area_ok_def
      clear_of_def page_aligned_def PAGE_MASK_def PAGE_SIZE_def TASK_SIZE_def)

end
