(* ===== verification/Mmap_Map.thy ===== *)
theory Mmap_Map
  imports Mmap_Unmap
begin

text \<open>
  The operations of \<open>mm/mmap.c\<close> that add areas: \<open>merge_segments\<close>, \<open>do_brk\<close>, \<open>do_mmap\<close> and
  \<open>sys_brk\<close>, the growing of a stack by \<open>find_extend_vma\<close>, and the end of an address space in
  \<open>exit_mmap\<close>.
\<close>

section \<open>Merging\<close>

text \<open>
  What backs an address: the flags, the operations, the file and private data of its area and,
  where the offset means something, the page of the file or shared memory segment.
\<close>

definition backing :: "vm_area_struct \<Rightarrow> ulong \<Rightarrow>
    16 word \<times> vm_operations_struct option \<times> nat option \<times> ulong \<times> ulong option" where
  "backing v a = (vm_flags v, vm_ops v, vm_file v, vm_private_data v,
     if vm_file v \<noteq> None \<or> vm_flags v AND VM_SHM \<noteq> 0 then Some (page_offset v a) else None)"


lemma page_offset_later:
  assumes "page_aligned (vm_start v)" "page_aligned e" "vm_start v \<le> e" "e \<le> a"
  shows "vm_pgoff v + drop_bit PAGE_SHIFT (e - vm_start v) + drop_bit PAGE_SHIFT (a - e) = page_offset v a"
  using trims_page_offset assms unfolding trims_def page_offset_def by auto

lemma backing_merge:
  assumes "can_merge p m" and "area_ok p" "area_ok m"
  shows "covers (p\<lparr>vm_end := vm_end m\<rparr>) a \<longleftrightarrow> covers p a \<or> covers m a"
    and "covers p a \<Longrightarrow> backing (p\<lparr>vm_end := vm_end m\<rparr>) a = backing p a"
    and "covers m a \<Longrightarrow> backing (p\<lparr>vm_end := vm_end m\<rparr>) a = backing m a"
proof -
  have adj: "vm_end p = vm_start m" using assms(1) by (simp add: can_merge_def)
  show "covers (p\<lparr>vm_end := vm_end m\<rparr>) a \<longleftrightarrow> covers p a \<or> covers m a"
    using assms(2,3) adj by (auto simp: covers_def area_ok_def)
  show "backing (p\<lparr>vm_end := vm_end m\<rparr>) a = backing p a" by (simp add: backing_def page_offset_def)
  assume "covers m a"
  then have "vm_pgoff p + drop_bit PAGE_SHIFT (vm_end p - vm_start p) +
      drop_bit PAGE_SHIFT (a - vm_end p) = page_offset p a"
    using assms(2) adj by (intro page_offset_later) (auto simp: area_ok_def covers_def)
  then have "page_offset m a = page_offset p a"
    if "vm_pgoff p + drop_bit PAGE_SHIFT (vm_end p - vm_start p) = vm_pgoff m"
    unfolding that by (simp add: page_offset_def adj)
  moreover have "page_offset (p\<lparr>vm_end := vm_end m\<rparr>) a = page_offset p a" by (simp add: page_offset_def)
  ultimately show "backing (p\<lparr>vm_end := vm_end m\<rparr>) a = backing m a"
    using assms(1) by (auto simp: backing_def can_merge_def)
qed

text \<open>The same without the offset, and the views that merging two areas does not change.\<close>

definition origin :: "vm_area_struct \<Rightarrow> ulong \<Rightarrow>
    16 word \<times> vm_operations_struct option \<times> nat option \<times> ulong" where
  "origin v a = (vm_flags v, vm_ops v, vm_file v, vm_private_data v)"

definition merges :: "(vm_area_struct \<Rightarrow> ulong \<Rightarrow> 'b) \<Rightarrow> bool" where
  "merges f \<longleftrightarrow> (\<forall>p m a. can_merge p m \<and> area_ok p \<and> area_ok m \<longrightarrow>
     (covers p a \<longrightarrow> f (p\<lparr>vm_end := vm_end m\<rparr>) a = f p a) \<and>
     (covers m a \<longrightarrow> f (p\<lparr>vm_end := vm_end m\<rparr>) a = f m a))"


lemma origin_views: "trims origin" "ignores_offset origin" "merges origin"
  by (auto simp: trims_def ignores_offset_def merges_def origin_def can_merge_def)

lemma merge_into_tree:
  assumes "vm_wf s" and "mmap s = xs @ m # ys"
  shows "\<exists>t. (t = vm_avl_empty \<or> avl_checkheights t \<and> inorder t = xs @ ys) \<and>
    (if mmap_avl s = vm_avl_empty then Done s
     else case avl_remove (\<lambda>i. end_of s i) m (mmap_avl s) of
            None \<Rightarrow> Bug | Some tree \<Rightarrow> Done (s\<lparr>mmap_avl := tree\<rparr>)) = Done (s\<lparr>mmap_avl := t\<rparr>)"
proof (cases "mmap_avl s = vm_avl_empty")
  case True
  moreover have "s\<lparr>mmap_avl := mmap_avl s\<rparr> = s" by simp
  ultimately show ?thesis by metis
next
  case False
  have ok: "areas_ok (areas s) (xs @ m # ys)" using assms by (simp add: vm_wf_def)
  have io: "inorder (mmap_avl s) = xs @ m # ys" "avl_checkheights (mmap_avl s)"
    using assms False by (auto simp: vm_wf_def)
  have "ordered_by (\<lambda>i. end_of s i) (inorder (mmap_avl s))"
    unfolding io(1) by (rule areas_ok_ordered [OF ok])
  moreover have "remove1 m (xs @ m # ys) = xs @ ys"
    using areas_ok_distinct [OF ok] by (simp add: remove1_append)
  ultimately obtain t where "avl_remove (\<lambda>i. end_of s i) m (mmap_avl s) = Some t"
    "avl_checkheights t" "inorder t = xs @ ys"
    using avl.remove_found [OF io(2), of "\<lambda>i. end_of s i" m] io(1) by auto
  with False show ?thesis by auto
qed

lemma merge_into_eq:
  assumes "(if mmap_avl s = vm_avl_empty then Done s
     else case avl_remove (\<lambda>i. end_of s i) m (mmap_avl s) of
            None \<Rightarrow> Bug | Some tree \<Rightarrow> Done (s\<lparr>mmap_avl := tree\<rparr>)) = Done (s\<lparr>mmap_avl := t\<rparr>)"
    and "p \<noteq> m"
  shows "\<exists>s' v. merge_into s p m = Done s' \<and>
    areas s' = (areas s)(p := (areas s p)\<lparr>vm_end := end_of s m\<rparr>, m := v) \<and>
    mmap s' = remove1 m (mmap s) \<and> mmap_avl s' = t \<and> mmap_cache s' = mmap_cache s \<and>
    map_count s' = map_count s - 1 \<and> vm_area_cachep s' = m # vm_area_cachep s"
proof -
  let ?ar = "(areas s)(p := (areas s p)\<lparr>vm_end := end_of s m\<rparr>)"
  have "?ar = ?ar(m := areas s m)" using assms(2) by auto
  then show ?thesis
    using assms(2) unfolding merge_into_def assms(1) bind_outcome.simps Let_def
    by (auto simp: fun_upd_other split: option.splits)
qed

lemma merge_into_spec:
  assumes wf: "vm_wf s" and cache: "mmap_cache s = None" and split: "mmap s = xs @ p # m # ys"
    and can: "can_merge (areas s p) (areas s m)" and f: "merges f"
  shows "\<exists>s'. merge_into s p m = Done s' \<and> vm_wf s' \<and> mmap_cache s' = None \<and>
    mmap s' = xs @ p # ys \<and>
    (\<forall>a x. maps f (areas s') (set (mmap s')) a x \<longleftrightarrow> maps f (areas s) (set (mmap s)) a x)"
proof -
  have ok: "areas_ok (areas s) (xs @ p # m # ys)" using wf split by (simp add: vm_wf_def)
  have dist: "distinct (xs @ p # m # ys)" by (rule areas_ok_distinct [OF ok])
  have "mmap s = (xs @ [p]) @ m # ys" using split by simp
  from merge_into_tree [OF wf this] obtain t where
    t: "t = vm_avl_empty \<or> avl_checkheights t \<and> inorder t = (xs @ [p]) @ ys"
    and tree: "(if mmap_avl s = vm_avl_empty then Done s
     else case avl_remove (\<lambda>i. end_of s i) m (mmap_avl s) of
            None \<Rightarrow> Bug | Some tree \<Rightarrow> Done (s\<lparr>mmap_avl := tree\<rparr>)) = Done (s\<lparr>mmap_avl := t\<rparr>)"
    by blast
  have rm: "remove1 m (xs @ p # m # ys) = xs @ p # ys" using dist by (simp add: remove1_append)
  let ?p = "(areas s p)\<lparr>vm_end := end_of s m\<rparr>"
  obtain s' v where eq: "merge_into s p m = Done s'"
    and s': "areas s' = (areas s)(p := ?p, m := v)" "mmap s' = xs @ p # ys" "mmap_avl s' = t"
      "mmap_cache s' = None" "map_count s' = map_count s - 1" "vm_area_cachep s' = m # vm_area_cachep s"
    using merge_into_eq [OF tree] dist rm cache split by fastforce
  have same: "areas s' k = areas s k" if "k \<in> set xs \<union> set ys" for k using that dist s'(1) by auto
  have "m \<notin> set (xs @ ys)" "p \<noteq> m" "p \<notin> set (xs @ ys)" using dist by auto
  have oks: "area_ok (areas s p)" "area_ok (areas s m)" "precedes (areas s) p m"
    "\<forall>k\<in>set xs. precedes (areas s) k p" "\<forall>k\<in>set ys. precedes (areas s) m k"
    "\<forall>j\<in>set xs. \<forall>k\<in>set ys. precedes (areas s) j k" "areas_ok (areas s) xs" "areas_ok (areas s) ys"
    using ok by (auto simp: areas_ok_append)
  have p': "areas s' p = ?p" using s'(1) \<open>p \<noteq> m\<close> by simp
  have "area_ok ?p" using oks(1-3) by (auto simp: area_ok_def intro: order.strict_trans2 less_imp_le)
  then have "areas_ok (areas s') (xs @ p # ys)"
    using oks same p' areas_ok_cong [of xs "areas s'" "areas s"] areas_ok_cong [of ys "areas s'" "areas s"]
    by (auto simp: areas_ok_append)
  then have "vm_wf s'"
    using wf t s' split dist by (auto simp: vm_wf_def)
  moreover have "maps f (areas s') (set xs \<union> set ys) a x = maps f (areas s) (set xs \<union> set ys) a x"
    for a x by (rule maps_cong) (rule same)
  then have "maps f (areas s') (insert p (set xs \<union> set ys)) a x \<longleftrightarrow>
      maps f (areas s) (insert p (insert m (set xs \<union> set ys))) a x" for a x
    unfolding maps_insert p' using backing_merge(1) [OF can oks(1,2), of a] f can oks(1,2) unfolding merges_def by metis
  ultimately show ?thesis using eq s' split by (auto simp: insert_commute)
qed

lemma merge_loop_spec:
  assumes "vm_wf s" and "mmap_cache s = None" and "mmap s = xs @ p # chain" and "merges f"
  shows "\<exists>s'. merge_loop s en p chain = Done s' \<and> vm_wf s' \<and>
    (\<forall>a x. maps f (areas s') (set (mmap s')) a x \<longleftrightarrow> maps f (areas s) (set (mmap s)) a x)"
  using assms
proof (induction chain arbitrary: s xs p)
  case Nil
  then show ?case by simp
next
  case (Cons m chain)
  show ?case
  proof (cases "start_of s p < en")
    case False
    with Cons.prems show ?thesis by simp
  next
    case less: True
    show ?thesis
    proof (cases "can_merge (areas s p) (areas s m)")
      case True
      from merge_into_spec [OF Cons.prems(1-3) True Cons.prems(4)] obtain s' where
        "merge_into s p m = Done s'" "vm_wf s'" "mmap_cache s' = None" "mmap s' = xs @ p # chain"
        "\<And>a x. maps f (areas s') (set (mmap s')) a x \<longleftrightarrow> maps f (areas s) (set (mmap s)) a x"
        by blast
      with less True Cons.IH [OF this(2-4) Cons.prems(4)] show ?thesis by auto
    next
      case False
      have "mmap s = (xs @ [p]) @ m # chain" using Cons.prems(3) by simp
      from Cons.IH [OF Cons.prems(1,2) this Cons.prems(4)] less False show ?thesis by simp
    qed
  qed
qed

lemma merge_segments_spec:
  assumes wf: "vm_wf s" and f: "merges f"
  shows "\<exists>s'. merge_segments s start_addr end_addr = Done s' \<and> vm_wf s' \<and>
    (\<forall>a x. maps f (areas s') (set (mmap s')) a x \<longleftrightarrow> maps f (areas s) (set (mmap s)) a x)"
proof -
  let ?s = "s\<lparr>mmap_cache := None\<rparr>"
  have wf': "vm_wf ?s" using wf by (simp add: vm_wf_def)
  define xs where "xs = ending_by (areas s) start_addr (mmap s)"
  note find = find_vma_prev_spec [OF wf, of start_addr, folded xs_def]
  show ?thesis
  proof (cases "ending_after (areas s) start_addr (mmap s)")
    case Nil
    then show ?thesis using find wf by (simp add: merge_segments_def)
  next
    case (Cons y ys)
    have split: "mmap s = xs @ y # ys"
      using takeWhile_dropWhile_id [of "\<lambda>v. end_of s v \<le> start_addr" "mmap s"] Cons
      by (simp add: xs_def)
    have chain: "chain_from (mmap s) y = y # ys"
      by (rule chain_from_ending_after [OF areas_ok_distinct [of "areas s"] Cons])
        (use wf in \<open>simp add: vm_wf_def\<close>)
    show ?thesis
    proof (cases xs rule: rev_cases)
      case Nil
      then have "mmap ?s = [] @ y # ys" using split by simp
      from merge_loop_spec [OF wf' _ this f, of end_addr] find Cons Nil chain show ?thesis
        by (simp add: merge_segments_def)
    next
      case (snoc zs z)
      then have "mmap ?s = zs @ z # y # ys" using split by simp
      from merge_loop_spec [OF wf' _ this f, of end_addr] find Cons snoc chain show ?thesis
        by (simp add: merge_segments_def last_or_def del: merge_loop.simps)
    qed
  qed
qed

section \<open>Installing a new area\<close>

lemma find_vma_covered:
  assumes "vm_wf s" and "i \<in> set (mmap s)" and "covers (areas s i) addr"
  shows "\<exists>v c. find_vma s addr = (Some v, s\<lparr>mmap_cache := c\<rparr>) \<and> vm_wf (s\<lparr>mmap_cache := c\<rparr>)"
proof -
  have "ending_after (areas s) addr (mmap s) \<noteq> []"
    using assms(2,3) by (force simp: dropWhile_eq_Nil_conv covers_def)
  with find_vma_spec [OF assms(1), of addr] show ?thesis
    by (cases "ending_after (areas s) addr (mmap s)") auto
qed

lemma finish_mapping_spec:
  assumes wf: "vm_wf s" and new: "vma \<notin> set (mmap s)" "vma \<notin> set (vm_area_cachep s)"
    and ok: "area_ok (areas s vma)" "clear_of (areas s) vma (mmap s)"
    and len: "end_of s vma = start_of s vma + len" and f: "merges f"
  shows "\<exists>s'. finish_mapping s vma len = Done (s', start_of s vma) \<and> vm_wf s' \<and>
    (\<forall>a x. maps f (areas s') (set (mmap s')) a x \<longleftrightarrow>
       maps f (areas s) (set (mmap s)) a x \<or> covers (areas s vma) a \<and> f (areas s vma) a = x)"
proof -
  let ?addr = "start_of s vma"
  have "vm_wf_pending 0 s" using wf by simp
  note ins = insert_vm_struct_keeps [OF this new(2) ok]
  have "vm_wf (insert_vm_struct s vma)" using ins(1) by simp
  from merge_segments_spec [OF this f, of ?addr "end_of s vma"] obtain s1 where
    merge: "merge_segments (insert_vm_struct s vma) ?addr (end_of s vma) = Done s1" and "vm_wf s1"
    and maps1: "\<And>a x. maps f (areas s1) (set (mmap s1)) a x \<longleftrightarrow>
      maps f (areas s) (set (mmap s)) a x \<or> covers (areas s vma) a \<and> f (areas s vma) a = x"
    by (auto simp: ins maps_insert)
  define s2 where "s2 = s1\<lparr>total_vm := total_vm s1 + drop_bit PAGE_SHIFT len\<rparr>"
  define s3 where "s3 = s2\<lparr>locked_vm := locked_vm s2 + drop_bit PAGE_SHIFT len\<rparr>"
  have wf3: "vm_wf s2" "vm_wf s3" using \<open>vm_wf s1\<close> by (simp_all add: s2_def s3_def vm_wf_def)
  have less: "?addr < ?addr + len" using ok(1) len by (simp add: area_ok_def)
  then have "maps f (areas s1) (set (mmap s1)) ?addr (f (areas s vma) ?addr)"
    using len by (simp add: maps1 covers_def)
  then obtain i where "i \<in> set (mmap s3)" "covers (areas s3 i) ?addr"
    by (auto simp: maps_def s2_def s3_def)
  from find_vma_covered [OF wf3(2) this] obtain v c where
    "find_vma s3 ?addr = (Some v, s3\<lparr>mmap_cache := c\<rparr>)" and c: "vm_wf (s3\<lparr>mmap_cache := c\<rparr>)"
    by blast
  with less have present: "make_pages_present s3 ?addr (?addr + len) =
      Done (log_event (Make_pages_present ?addr (?addr + len)) (s3\<lparr>mmap_cache := c\<rparr>))"
    by (simp add: make_pages_present_def)
  show ?thesis
  proof (cases "vm_flags (areas s vma) AND VM_LOCKED = 0")
    case True
    then have "finish_mapping s vma len = Done (s2, ?addr)"
      using merge by (simp add: finish_mapping_def Let_def ins s2_def)
    with wf3(1) maps1 show ?thesis by (simp add: s2_def)
  next
    case False
    let ?s = "log_event (Make_pages_present ?addr (?addr + len)) (s3\<lparr>mmap_cache := c\<rparr>)"
    have "finish_mapping s vma len = Done (?s, ?addr)"
      using merge False present by (simp add: finish_mapping_def Let_def ins s3_def s2_def)
    moreover have "vm_wf ?s" using c by (simp add: vm_wf_def)
    ultimately show ?thesis using maps1 by (simp add: s2_def s3_def)
  qed
qed

text \<open>
  The area \<open>do_mmap\<close> installs at \<open>b\<close>: the one it fills in, as the driver leaves it, with the
  file attached.
\<close>

definition mapped_area ::
  "mmap_op \<Rightarrow> vm_state \<Rightarrow> nat option \<Rightarrow> ulong \<Rightarrow> ulong \<Rightarrow> ulong \<Rightarrow> ulong \<Rightarrow> ulong \<Rightarrow> vm_area_struct" where
  "mapped_area op s file b len prot flags off =
    (let fl = mmap_area_flags s file prot flags;
         v = \<lparr>vm_start = b, vm_end = b + len, vm_page_prot = page_prot_of fl, vm_flags = fl,
              vm_ops = None, vm_pgoff = drop_bit PAGE_SHIFT off, vm_file = None,
              vm_private_data = 0\<rparr>
     in case file of None \<Rightarrow> v | Some f \<Rightarrow> (snd (op f v))\<lparr>vm_file := Some f\<rparr>)"



lemma vm_wf_upd_area:
  assumes "vm_wf s" and "v \<notin> set (mmap s)"
  shows "vm_wf (upd_area v g s)"
proof -
  have "vm_wf_pending 0 (upd_area v g s)"
    by (rule vm_wf_pending_areas [of 0 s]) (use assms in auto)
  then show ?thesis by simp
qed



lemma clear_outside:
  assumes "areas_ok (areas s) (mmap s)" and "b < e"
    and "\<And>a x. maps f (areas s) (set (mmap s)) a x \<Longrightarrow> \<not> (b \<le> a \<and> a < e)" and "i \<in> set (mmap s)"
  shows "end_of s i \<le> b \<or> e \<le> start_of s i"
proof (rule ccontr)
  assume no: "\<not> ?thesis"
  define a where "a = max b (start_of s i)"
  have "start_of s i < end_of s i" using assms(1,4) by (auto simp: areas_ok_def area_ok_def)
  with no assms(2) have a: "covers (areas s i) a" "b \<le> a" "a < e"
    by (auto simp: a_def covers_def max_def)
  with assms(4) have "maps f (areas s) (set (mmap s)) a (f (areas s i) a)" by (auto simp: maps_def)
  with assms(3) a show False by blast
qed



section \<open>do\_mmap\<close>


lemma view_at_add:
  assumes "areas_ok (areas s) (mmap s)" and "areas_ok (areas s') (mmap s')"
    and "\<And>x. maps f (areas s') (set (mmap s')) a x \<longleftrightarrow>
      maps f (areas s) (set (mmap s)) a x \<and> \<not> (b \<le> a \<and> a < e) \<or> covers v a \<and> f v a = x"
    and "vm_start v = b" "vm_end v = e"
  shows "view_at f s' a = (if b \<le> a \<and> a < e then Some (f v a) else view_at f s a)"
proof (cases "b \<le> a \<and> a < e")
  case True
  then have "maps f (areas s') (set (mmap s')) a (f v a)" using assms(3-5) by (simp add: covers_def)
  then have "view_at f s' a = Some (f v a)" by (simp add: view_at_iff [OF assms(2)])
  with True show ?thesis by simp
next
  case False
  then have "maps f (areas s') (set (mmap s')) a x \<longleftrightarrow> maps f (areas s) (set (mmap s)) a x" for x
    using assms(3-5) by (auto simp: covers_def)
  then have "view_at f s' a = view_at f s a" by (rule view_at_eqI [OF assms(1,2)])
  with False show ?thesis by auto
qed

text \<open>What \<open>do_mmap\<close> does to a view of the address space.\<close>

definition mmap_effect ::
  "(vm_area_struct \<Rightarrow> ulong \<Rightarrow> 'b) \<Rightarrow> vm_state \<Rightarrow> vm_state \<Rightarrow> ulong \<Rightarrow> ulong \<Rightarrow> vm_area_struct \<Rightarrow> bool" where
  "mmap_effect f s s' b len v \<longleftrightarrow>
     (\<forall>a. view_at f s' a = (if b \<le> a \<and> a < b + len then Some (f v a) else view_at f s a))"


lemma view_at_cache [simp]: "view_at f (s\<lparr>mmap_cache := c\<rparr>) a = view_at f s a"
  by (simp add: view_at_def)

lemma mmap_effect_cache [simp]: "mmap_effect f (s\<lparr>mmap_cache := c\<rparr>) s' = mmap_effect f s s'"
  by (simp add: mmap_effect_def fun_eq_iff)

lemma mapped_area_cache [simp]: "mapped_area op (s\<lparr>mmap_cache := c\<rparr>) = mapped_area op s"
  by (auto simp: mapped_area_def mmap_area_flags_def fun_eq_iff Let_def split: option.splits)

lemma punches_hole_cache [simp]: "punches_hole (s\<lparr>mmap_cache := c\<rparr>) = punches_hole s"
  by (simp add: punches_hole_def fun_eq_iff)





section \<open>do\_brk and sys\_brk\<close>

text \<open>The fields no operation on areas changes.\<close>

definition settings :: "vm_state \<Rightarrow> ulong \<times> ulong \<times> ulong \<times> ulong" where
  "settings s = (end_code s, brk s, def_flags s, rlim_data s)"

lemma settings_update [simp]:
  "settings (s\<lparr>mmap := m\<rparr>) = settings s" "settings (s\<lparr>mmap_avl := t\<rparr>) = settings s"
  "settings (s\<lparr>map_count := n\<rparr>) = settings s" "settings (s\<lparr>mmap_cache := c\<rparr>) = settings s"
  "settings (s\<lparr>total_vm := v\<rparr>) = settings s" "settings (s\<lparr>locked_vm := v\<rparr>) = settings s"
  "settings (s\<lparr>vm_area_cachep := cs\<rparr>) = settings s" "settings (log_event e s) = settings s"
  "settings (upd_area i g s) = settings s" "settings (upd_file i g' s) = settings s"
  "settings (upd_inode i g'' s) = settings s" "settings (kmem_cache_free i s) = settings s"
  by (simp_all add: settings_def log_event_def upd_area_def upd_file_def upd_inode_def kmem_cache_free_def)

lemma settings_calls [simp]:
  "settings (run_open v s) = settings s" "settings (run_close v s) = settings s"
  "settings (run_unmap v st sz s) = settings s" "settings (get_area_file v s) = settings s"
  "settings (fput_area v s) = settings s" "settings (remove_shared_vm_struct v s) = settings s"
  "settings (add_shared_vm_struct v s) = settings s" "settings (insert_vm_struct s v) = settings s"
  "settings (free_pgtables s p st en) = settings s"
  by (simp_all add: run_open_def run_close_def run_unmap_def get_area_file_def fput_area_def
      get_file_def fput_def remove_shared_vm_struct_def add_shared_vm_struct_def insert_vm_struct_def
      build_mmap_avl_def free_pgtables_def Let_def split: option.splits prod.splits)

lemma settings_fixup: "unmap_fixup s i st len extra = Done (s', ex) \<Longrightarrow> settings s' = settings s"
  by (auto simp: unmap_fixup_def Let_def split: if_splits option.splits)

lemma settings_release: "release_loop s addr len extra free = Done (s', ex) \<Longrightarrow> settings s' = settings s"
proof (induction free arbitrary: s extra)
  case (Cons i free)
  then show ?case by (auto simp: Let_def dest!: settings_fixup split: outcome.splits)
qed simp

lemma settings_unlink: "unlink_loop s en chain free = Done (s', r) \<Longrightarrow> settings s' = settings s"
  by (induction s en chain free rule: unlink_loop.induct) (auto split: if_splits option.splits)

lemma settings_find_vma_prev: "find_vma_prev s addr = (v, p, s') \<Longrightarrow> settings s' = settings s"
  by (auto simp: find_vma_prev_def Let_def split: if_splits option.splits prod.splits)

lemma settings_munmap:
  assumes "do_munmap s addr len = Done (r, s')"
  shows "settings s' = settings s"
proof -
  obtain v p t where t: "find_vma_prev s addr = (v, p, t)" by (metis prod_cases3)
  from assms settings_find_vma_prev [OF t] show ?thesis
    by (auto simp: do_munmap_def Let_def t dest!: settings_unlink settings_release
        split: if_splits option.splits list.splits)
qed

lemma settings_find_vma: "find_vma s addr = (v, s') \<Longrightarrow> settings s' = settings s"
  by (auto simp: find_vma_def Let_def split: if_splits)

lemma settings_merge_loop: "merge_loop s en p chain = Done s' \<Longrightarrow> settings s' = settings s"
proof (induction s en p chain rule: merge_loop.induct)
  case (2 s en p m chain)
  then show ?case
    by (auto simp: merge_into_def Let_def split: if_splits option.splits)
qed simp

lemma settings_merge: "merge_segments s x y = Done s' \<Longrightarrow> settings s' = settings s"
  by (auto simp: merge_segments_def dest!: settings_merge_loop settings_find_vma_prev
      split: prod.splits option.splits)

lemma settings_present: "make_pages_present s x y = Done s' \<Longrightarrow> settings s' = settings s"
  by (auto simp: make_pages_present_def dest!: settings_find_vma split: prod.splits option.splits if_splits)

lemma settings_finish: "finish_mapping s vma len = Done (s', a) \<Longrightarrow> settings s' = settings s"
  by (auto simp: finish_mapping_def Let_def dest!: settings_merge settings_present split: if_splits)

text \<open>The area \<open>do_brk\<close> installs.\<close>

definition brk_area :: "vm_state \<Rightarrow> ulong \<Rightarrow> ulong \<Rightarrow> vm_area_struct" where
  "brk_area s addr len =
    (let flags = calc_vm_flags (PROT_READ OR PROT_WRITE OR PROT_EXEC) (MAP_FIXED OR MAP_PRIVATE) OR
           ucast (def_flags s) OR (VM_MAYREAD OR VM_MAYWRITE OR VM_MAYEXEC)
     in \<lparr>vm_start = addr, vm_end = addr + len, vm_page_prot = page_prot_of flags, vm_flags = flags,
         vm_ops = None, vm_pgoff = 0, vm_file = None, vm_private_data = 0\<rparr>)"

text \<open>The part of \<open>do_brk\<close> after the old maps were cleared.\<close>

definition brk_install :: "vm_state \<Rightarrow> ulong \<Rightarrow> ulong \<Rightarrow> ((errno + ulong) \<times> vm_state) outcome" where
  "brk_install s addr len =
    (if push_bit PAGE_SHIFT (total_vm s) + len > rlim_as s then Done (Inl ENOMEM, s)
     else if map_count s > MAX_MAP_COUNT then Done (Inl ENOMEM, s)
     else if \<not> vm_enough_memory s (sint (drop_bit PAGE_SHIFT len)) then Done (Inl ENOMEM, s)
     else
       (case vm_area_cachep s of
          [] \<Rightarrow> Done (Inl ENOMEM, s)
        | vma # cache \<Rightarrow>
            bind_outcome
              (finish_mapping (upd_area vma (\<lambda>_. brk_area s addr len) (s\<lparr>vm_area_cachep := cache\<rparr>)) vma len)
              (\<lambda>(s, addr). Done (Inr addr, s))))"

lemma brk_install_spec:
  assumes wf: "vm_wf s" and args: "munmap_args_ok addr len" "PAGE_ALIGN len = len" and f: "merges f"
    and free: "\<And>i. i \<in> set (mmap s) \<Longrightarrow> end_of s i \<le> addr \<or> addr + len \<le> start_of s i"
  shows "\<exists>r s'. brk_install s addr len = Done (r, s') \<and> vm_wf s' \<and> settings s' = settings s \<and>
    (r = Inr addr \<and> (\<forall>a x. maps f (areas s') (set (mmap s')) a x \<longleftrightarrow>
       maps f (areas s) (set (mmap s)) a x \<or>
       covers (brk_area s addr len) a \<and> f (brk_area s addr len) a = x) \<or>
     (\<exists>e. r = Inl e) \<and> s' = s)"
proof (cases "vm_area_cachep s")
  case Nil
  with wf show ?thesis by (auto simp: brk_install_def)
next
  case (Cons vma cache)
  define s1 where "s1 = upd_area vma (\<lambda>_. brk_area s addr len) (s\<lparr>vm_area_cachep := cache\<rparr>)"
  have new: "vma \<notin> set (mmap s)" "vma \<notin> set cache" using wf Cons by (auto simp: vm_wf_def)
  have "vm_wf (s\<lparr>vm_area_cachep := cache\<rparr>)" using wf Cons by (auto simp: vm_wf_def)
  then have wf1: "vm_wf s1" unfolding s1_def by (rule vm_wf_upd_area) (simp add: new)
  note rng = munmap_range [OF args(1), unfolded args(2)]
  have w: "areas s1 vma = brk_area s addr len" by (simp add: s1_def)
  have b: "vm_start (brk_area s addr len) = addr" "vm_end (brk_area s addr len) = addr + len"
    by (simp_all add: brk_area_def Let_def)
  have "area_ok (areas s1 vma)" using args(1) rng by (simp add: w b area_ok_def munmap_args_ok_def)
  moreover have "mmap s1 = mmap s" "\<And>i. i \<in> set (mmap s) \<Longrightarrow> areas s1 i = areas s i"
    using new by (auto simp: s1_def)
  then have "clear_of (areas s1) vma (mmap s1)" using free by (simp add: clear_of_def w b)
  ultimately obtain s' where fin: "finish_mapping s1 vma len = Done (s', addr)" "vm_wf s'"
    and mp: "\<forall>a x. maps f (areas s') (set (mmap s')) a x \<longleftrightarrow>
       maps f (areas s1) (set (mmap s1)) a x \<or>
       covers (brk_area s addr len) a \<and> f (brk_area s addr len) a = x"
    using finish_mapping_spec [OF wf1 _ _ _ _ _ f, of vma len] new by (auto simp: w b s1_def)
  have "maps f (areas s1) (set (mmap s1)) a x = maps f (areas s) (set (mmap s)) a x" for a x
    using new by (simp add: s1_def maps_upd)
  moreover have "settings s' = settings s" using settings_finish [OF fin(1)] by (simp add: s1_def)
  ultimately show ?thesis
    using Cons fin mp wf by (auto simp: brk_install_def s1_def [symmetric])
qed

lemma do_brk_spec:
  assumes wf: "vm_wf s" and plen: "plen = PAGE_ALIGN len" "plen \<noteq> 0"
    and f: "trims f" "merges f" and hole: "punches_hole s addr (addr + plen) \<longrightarrow> ignores_offset f"
  shows "\<exists>r s'. do_brk s addr len = Done (r, s') \<and> vm_wf s' \<and> settings s' = settings s \<and>
    (r = Inr addr \<and> munmap_args_ok addr plen \<and> mmap_effect f s s' addr plen (brk_area s addr plen) \<or>
     (\<exists>e. r = Inl e) \<and> ((\<forall>a. view_at f s' a = view_at f s a) \<or> munmap_args_ok addr plen \<and>
       (\<forall>a. view_at f s' a = (if addr \<le> a \<and> a < addr + plen then None else view_at f s a))))"
proof (cases "ucast (def_flags s) AND VM_LOCKED \<noteq> 0 \<and> push_bit PAGE_SHIFT (locked_vm s) + plen > rlim_memlock s")
  case True
  with wf plen show ?thesis by (simp add: do_brk_def Let_def)
next
  case False
  note limit = this
  show ?thesis
  proof (cases "munmap_args_ok addr plen")
    case False
    then have "do_munmap s addr plen = Done (Some EINVAL, s)" by (rule do_munmap_invalid)
    then have "do_brk s addr len = Done (Inl EINVAL, s)"
      using plen limit by (auto simp: do_brk_def Let_def)
    with wf show ?thesis by simp
  next
    case args: True
    have al: "PAGE_ALIGN plen = plen" using plen by (simp add: PAGE_ALIGN_aligned)
    then have en: "addr + plen = addr + PAGE_ALIGN plen" by simp
    from do_munmap_spec [OF args wf en f(1) hole] obtain r1 s1 where
      un: "do_munmap s addr plen = Done (r1, s1)" and wf1: "vm_wf s1"
      and some: "\<And>e. r1 = Some e \<Longrightarrow> s1 = s"
      and cut: "\<And>a x. r1 = None \<Longrightarrow> maps f (areas s1) (set (mmap s1)) a x \<longleftrightarrow>
            maps f (areas s) (set (mmap s)) a x \<and> \<not> (addr \<le> a \<and> a < addr + plen)"
      by (auto split: option.splits)
    have st: "settings s1 = settings s" by (rule settings_munmap [OF un])
    have eq: "do_brk s addr len = bind_outcome (Done (r1, s1)) (\<lambda>(retval, s).
        case retval of Some e \<Rightarrow> Done (Inl e, s) | None \<Rightarrow> brk_install s addr plen)"
      using plen limit un
      by (auto simp: do_brk_def Let_def brk_install_def brk_area_def split: option.splits list.splits)
    show ?thesis
    proof (cases r1)
      case (Some e)
      with some wf eq show ?thesis by simp
    next
      case None
      note cut = cut [OF None]
      have ok: "areas_ok (areas s) (mmap s)" "areas_ok (areas s1) (mmap s1)"
        using wf wf1 by (simp_all add: vm_wf_def)
      from brk_install_spec [OF wf1 args al f(2)] clear_outside [OF ok(2) munmap_range(2) [OF args, unfolded al], of f] cut
      obtain r s' where ins: "brk_install s1 addr plen = Done (r, s')" "vm_wf s'" "settings s' = settings s1"
        "r = Inr addr \<and> (\<forall>a x. maps f (areas s') (set (mmap s')) a x \<longleftrightarrow>
           maps f (areas s1) (set (mmap s1)) a x \<or>
           covers (brk_area s1 addr plen) a \<and> f (brk_area s1 addr plen) a = x) \<or>
         (\<exists>e. r = Inl e) \<and> s' = s1"
        by blast
      have "brk_area s1 = brk_area s" using st by (simp add: brk_area_def settings_def fun_eq_iff)
      moreover have "areas_ok (areas s') (mmap s')" using ins(2) by (simp add: vm_wf_def)
      ultimately have "mmap_effect f s s' addr plen (brk_area s addr plen)" if "r = Inr addr"
        using ins(4) that cut unfolding mmap_effect_def
        by (intro allI view_at_add [OF ok(1)]) (auto simp: brk_area_def Let_def)
      moreover have "view_at f s1 a = (if addr \<le> a \<and> a < addr + plen then None else view_at f s a)" for a
        by (rule view_at_cut [OF ok cut])
      ultimately show ?thesis using eq None ins st args by auto
    qed
  qed
qed

lemma find_vma_intersection_spec:
  assumes wf: "vm_wf s"
  shows "\<exists>v c. find_vma_intersection s st en = (v, s\<lparr>mmap_cache := c\<rparr>) \<and> vm_wf (s\<lparr>mmap_cache := c\<rparr>) \<and>
    (v = None \<longrightarrow> (\<forall>i\<in>set (mmap s). end_of s i \<le> st \<or> en \<le> start_of s i))"
proof -
  have ok: "areas_ok (areas s) (mmap s)" using wf by (simp add: vm_wf_def)
  obtain c where c: "find_vma s st = (first_or (ending_after (areas s) st (mmap s)) None, s\<lparr>mmap_cache := c\<rparr>)"
    "vm_wf (s\<lparr>mmap_cache := c\<rparr>)"
    using find_vma_spec [OF wf] by blast
  show ?thesis
  proof (cases "ending_after (areas s) st (mmap s)")
    case Nil
    then have "\<forall>i\<in>set (mmap s). end_of s i \<le> st" by (metis dropWhile_eq_Nil_conv)
    with Nil c show ?thesis by (auto simp: find_vma_intersection_def)
  next
    case (Cons v vs)
    have "end_of s i \<le> st \<or> en \<le> start_of s i" if "i \<in> set (mmap s)" "en \<le> start_of s v" for i
    proof -
      have "mmap s = ending_by (areas s) st (mmap s) @ v # vs"
        using takeWhile_dropWhile_id [of "\<lambda>v. end_of s v \<le> st" "mmap s"] Cons by simp
      with that(1) consider "i \<in> set (ending_by (areas s) st (mmap s))" | "i \<in> set (v # vs)"
        by (metis Un_iff set_append)
      then show ?thesis
      proof cases
        case 1
        then show ?thesis by (metis set_takeWhileD)
      next
        case 2
        have "areas_ok (areas s) (v # vs)" using ok Cons areas_ok_append takeWhile_dropWhile_id by metis
        with 2 that(2) show ?thesis by (auto simp: area_ok_def intro: order_trans less_imp_le)
      qed
    qed
    with Cons c show ?thesis by (auto simp: find_vma_intersection_def)
  qed
qed

lemma view_at_brk [simp]: "view_at f (s\<lparr>brk := b\<rparr>) a = view_at f s a"
  by (simp add: view_at_def)

lemma vm_wf_brk [simp]: "vm_wf (s\<lparr>brk := b\<rparr>) = vm_wf s"
  by (simp add: vm_wf_def)

lemma mmap_effect_brk [simp]: "mmap_effect f s (s'\<lparr>brk := b\<rparr>) = mmap_effect f s s'"
  by (simp add: mmap_effect_def fun_eq_iff)

lemma mmap_effect_none: "mmap_effect f s s b 0 v"
  by (auto simp: mmap_effect_def)

text \<open>Growing the heap, when nothing is mapped up to a page above its new end.\<close>

lemma brk_grow:
  assumes wf: "vm_wf s" and al: "page_aligned ob" "page_aligned nb" "ob \<noteq> nb"
    and free: "\<forall>i\<in>set (mmap s). end_of s i \<le> ob \<or> nb + PAGE_SIZE \<le> start_of s i"
  shows "\<exists>r s'. do_brk s ob (nb - ob) = Done (r, s') \<and> vm_wf s' \<and> settings s' = settings s \<and>
    (r = Inr ob \<and> mmap_effect origin s s' ob (nb - ob) (brk_area s ob (nb - ob)) \<or>
     (\<exists>e. r = Inl e) \<and> (\<forall>a. view_at origin s' a = view_at origin s a))"
proof -
  have len: "PAGE_ALIGN (nb - ob) = nb - ob" "nb - ob \<noteq> 0"
    using al by (simp_all add: PAGE_ALIGN_aligned page_aligned_diff)
  obtain r s' where brk: "do_brk s ob (nb - ob) = Done (r, s')" "vm_wf s'" "settings s' = settings s"
    and post: "r = Inr ob \<and> mmap_effect origin s s' ob (nb - ob) (brk_area s ob (nb - ob)) \<or>
     (\<exists>e. r = Inl e) \<and> ((\<forall>a. view_at origin s' a = view_at origin s a) \<or> munmap_args_ok ob (nb - ob) \<and>
       (\<forall>a. view_at origin s' a = (if ob \<le> a \<and> a < nb then None else view_at origin s a)))"
    using do_brk_spec [OF wf _ len(2) origin_views(1,3), of "nb - ob" ob] len origin_views(2) by auto
  have "view_at origin s a = None" if args: "munmap_args_ok ob (nb - ob)" and a: "ob \<le> a" "a < nb" for a
  proof (rule view_at_NoneI)
    show "areas_ok (areas s) (mmap s)" using wf by (simp add: vm_wf_def)
    have "nb \<le> TASK_SIZE" using munmap_range(4) [OF args] len by simp
    then have "nb \<le> nb + PAGE_SIZE"
      by (simp add: word_le_nat_alt TASK_SIZE_def unat_plus_no_wrap)
    with free a show "\<not> maps origin (areas s) (set (mmap s)) a x" for x
      by (force simp: maps_def covers_def)
  qed
  with post brk show ?thesis by metis
qed

lemma sys_brk_shrink:
  assumes wf: "vm_wf s" and ob: "ob = PAGE_ALIGN (brk s)" and nb: "nb = PAGE_ALIGN new_brk"
    and shrink: "\<not> new_brk < end_code s" "ob \<noteq> nb" "new_brk \<le> brk s"
  shows "\<exists>r s'. sys_brk s new_brk = Done (r, s') \<and> vm_wf s' \<and> brk s' = r \<and>
    (r = new_brk \<and> (\<forall>a. view_at origin s' a = (if nb \<le> a \<and> a < ob then None else view_at origin s a)) \<or>
     r = brk s \<and> (\<forall>a. view_at origin s' a = view_at origin s a))"
proof -
  have al: "page_aligned ob" "page_aligned nb" by (simp_all add: ob nb)
  have len: "nb + PAGE_ALIGN (ob - nb) = ob" using al by (simp add: PAGE_ALIGN_aligned page_aligned_diff)
  show ?thesis
  proof (cases "munmap_args_ok nb (ob - nb)")
    case False
    then have "sys_brk s new_brk = Done (brk s, s)"
      using shrink do_munmap_invalid [OF False, of s] by (simp add: sys_brk_def Let_def ob nb)
    with wf show ?thesis by simp
  next
    case True
    from do_munmap_view [OF True wf refl origin_views(1)] origin_views(2)
    obtain e s' where un: "do_munmap s nb (ob - nb) = Done (e, s')" "vm_wf s'"
      and post: "e \<noteq> None \<Longrightarrow> s' = s" "\<And>a. e = None \<Longrightarrow>
        view_at origin s' a = (if nb \<le> a \<and> a < ob then None else view_at origin s a)"
      unfolding len by blast
    have "sys_brk s new_brk = (if e = None then Done (new_brk, s'\<lparr>brk := new_brk\<rparr>) else Done (brk s', s'))"
      using shrink un(1) by (auto simp: sys_brk_def Let_def ob nb split: option.splits)
    with un(2) post show ?thesis by (cases "e = None") auto
  qed
qed

lemma sys_brk_grow:
  assumes wf: "vm_wf s" and ob: "ob = PAGE_ALIGN (brk s)" and nb: "nb = PAGE_ALIGN new_brk"
    and grow: "\<not> new_brk < end_code s" "ob \<noteq> nb" "\<not> new_brk \<le> brk s"
  shows "\<exists>r s'. sys_brk s new_brk = Done (r, s') \<and> vm_wf s' \<and> brk s' = r \<and>
    (r = new_brk \<and> mmap_effect origin s s' ob (nb - ob) (brk_area s ob (nb - ob)) \<or>
     r = brk s \<and> (\<forall>a. view_at origin s' a = view_at origin s a))"
proof -
  have al: "page_aligned ob" "page_aligned nb" by (simp_all add: ob nb)
  obtain v c where fv: "find_vma_intersection s ob (nb + PAGE_SIZE) = (v, s\<lparr>mmap_cache := c\<rparr>)"
    and wf': "vm_wf (s\<lparr>mmap_cache := c\<rparr>)"
    and free: "v = None \<Longrightarrow> \<forall>i\<in>set (mmap s). end_of s i \<le> ob \<or> nb + PAGE_SIZE \<le> start_of s i"
    using find_vma_intersection_spec [OF wf] by blast
  let ?s = "s\<lparr>mmap_cache := c\<rparr>"
  show ?thesis
  proof (cases "v = None \<and> \<not> (rlim_data s < RLIM_INFINITY \<and> new_brk - end_code s > rlim_data s) \<and>
      vm_enough_memory ?s (sint (drop_bit PAGE_SHIFT (nb - ob)))")
    case False
    then have "sys_brk s new_brk \<in> {Done (brk s, s), Done (brk s, ?s)}"
      using grow fv by (auto simp: sys_brk_def Let_def ob nb split: option.splits)
    then obtain t where t: "sys_brk s new_brk = Done (brk s, t)" "t = s \<or> t = ?s" by blast
    then have "vm_wf t" "brk t = brk s" "\<forall>a. view_at origin t a = view_at origin s a"
      using wf wf' by auto
    with t(1) show ?thesis by - (rule exI [of _ "brk s"], rule exI [of _ t], simp)
  next
    case True
    with brk_grow [OF wf' al(1,2) grow(2)] free obtain r s' where
      brk: "do_brk ?s ob (nb - ob) = Done (r, s')" "vm_wf s'" "settings s' = settings s"
      and post: "r = Inr ob \<and> mmap_effect origin s s' ob (nb - ob) (brk_area ?s ob (nb - ob)) \<or>
        (\<exists>e. r = Inl e) \<and> (\<forall>a. view_at origin s' a = view_at origin s a)"
      by auto
    have "sys_brk s new_brk = (if r = Inr ob then Done (new_brk, s'\<lparr>brk := new_brk\<rparr>) else Done (brk s', s'))"
      using grow fv True brk(1) by (auto simp: sys_brk_def Let_def ob nb split: option.splits)
    moreover have "brk_area ?s = brk_area s" by (simp add: brk_area_def fun_eq_iff)
    ultimately show ?thesis using brk(2,3) post by (auto simp: settings_def)
  qed
qed

text \<open>
  C17: on a well-formed address space \<open>sys_brk\<close> never hits a \<open>BUG()\<close> check, leaves a well-formed
  address space, and returns the end of the heap it leaves, which is the requested one or, after a
  failure, the old one. A request that shrinks the heap unmaps exactly the pages between the new
  and the old end, one that grows it maps exactly the pages between the old and the new end with
  an anonymous writable area, and a failing request leaves every mapping as it was.
\<close>

theorem sys_brk_correct:
  assumes wf: "vm_wf s" and ob: "ob = PAGE_ALIGN (brk s)" and nb: "nb = PAGE_ALIGN new_brk"
  shows "\<exists>r s'. sys_brk s new_brk = Done (r, s') \<and> vm_wf s' \<and> brk s' = r \<and>
    (r = new_brk \<and>
       (if new_brk \<le> brk s
        then \<forall>a. view_at origin s' a = (if nb \<le> a \<and> a < ob then None else view_at origin s a)
        else mmap_effect origin s s' ob (nb - ob) (brk_area s ob (nb - ob))) \<or>
     r = brk s \<and> (\<forall>a. view_at origin s' a = view_at origin s a))"
proof -
  consider (low) "new_brk < end_code s" | (same) "\<not> new_brk < end_code s" "ob = nb"
    | (shrink) "\<not> new_brk < end_code s" "ob \<noteq> nb" "new_brk \<le> brk s"
    | (grow) "\<not> new_brk < end_code s" "ob \<noteq> nb" "\<not> new_brk \<le> brk s"
    by blast
  then show ?thesis
  proof cases
    case low
    with wf show ?thesis by (simp add: sys_brk_def)
  next
    case same
    with wf show ?thesis using mmap_effect_none [of origin s nb] by (auto simp: sys_brk_def Let_def ob nb)
  next
    case shrink
    from sys_brk_shrink [OF wf ob nb shrink] shrink(3) show ?thesis by simp
  next
    case grow
    from sys_brk_grow [OF wf ob nb grow] grow(3) show ?thesis by simp
  qed
qed

theorem sys_brk_correct_witness:
  "\<exists>r s'. sys_brk example_vm 0x08051234 = Done (r, s') \<and> vm_wf s' \<and> brk s' = r"
  using sys_brk_correct [OF example_vm_wf refl refl, of "0x08051234"] by blast

section \<open>Growing a stack\<close>

lemma grow_area_ok:
  assumes ok: "areas_ok a (xs @ v # ys)" and xs: "\<forall>w\<in>set xs. vm_end (a w) \<le> addr"
    and addr: "page_aligned addr" "addr < vm_start (a v)"
    and b: "b = a(v := w)" "vm_start w = addr" "vm_end w = vm_end (a v)"
  shows "areas_ok b (xs @ v # ys)"
proof -
  have dist: "v \<notin> set xs" "v \<notin> set ys" using areas_ok_distinct [OF ok] by auto
  have parts: "areas_ok a xs" "areas_ok a ys" "area_ok (a v)" "\<forall>w\<in>set ys. precedes a v w"
    "\<forall>u\<in>set xs. \<forall>w\<in>set ys. precedes a u w"
    using ok by (auto simp: areas_ok_append)
  have same: "b u = a u" if "u \<in> set xs \<union> set ys" for u using that dist b by auto
  have "areas_ok b xs" "areas_ok b ys"
    using parts areas_ok_cong [of xs b a] areas_ok_cong [of ys b a] same by auto
  moreover have "area_ok (b v)" using parts(3) addr b by (auto simp: area_ok_def)
  ultimately show ?thesis
    using parts xs same b by (auto simp: areas_ok_append)
qed

lemma expand_stack_spec:
  assumes wf: "vm_wf s" and split: "mmap s = xs @ v # ys" and xs: "\<forall>w\<in>set xs. end_of s w \<le> addr"
    and addr: "page_aligned addr" "addr < start_of s v" and st: "expand_stack s v addr = (None, s')"
  shows "vm_wf s' \<and> mmap s' = mmap s \<and> start_of s' v = addr \<and> end_of s' v = end_of s v \<and>
    vm_flags (areas s' v) = vm_flags (areas s v) \<and>
    (\<forall>a. view_at attrs s a \<noteq> None \<longrightarrow>
       view_at attrs s' a = view_at attrs s a \<and> view_at page_offset s' a = view_at page_offset s a)"
proof -
  let ?grow = "drop_bit PAGE_SHIFT (start_of s v - addr)"
  let ?w = "(areas s v)\<lparr>vm_start := addr, vm_pgoff := vm_pgoff (areas s v) - ?grow\<rparr>"
  have mask: "addr AND PAGE_MASK = addr"
    using addr(1) by (simp add: page_aligned_def PAGE_MASK_mask and_not_mask_sub take_bit_eq_mask)
  have s': "areas s' = (areas s)(v := ?w)" "mmap s' = mmap s" "mmap_avl s' = mmap_avl s"
    "mmap_cache s' = mmap_cache s" "map_count s' = map_count s" "vm_area_cachep s' = vm_area_cachep s"
    using st by (auto simp: expand_stack_def Let_def mask split: if_splits)
  have ok: "areas_ok (areas s) (xs @ v # ys)" using wf split by (simp add: vm_wf_def)
  have ok': "areas_ok (areas s') (mmap s')"
    unfolding s'(2) split by (rule grow_area_ok [OF ok xs addr s'(1)]) simp_all
  then have "vm_wf s'" using wf s' by (simp add: vm_wf_def)
  have keep: "view_at f s' a = view_at f s a"
    if "view_at attrs s a \<noteq> None" and f: "\<And>a. covers (areas s v) a \<Longrightarrow> f ?w a = f (areas s v) a"
    for f :: "vm_area_struct \<Rightarrow> ulong \<Rightarrow> 'x" and a
  proof -
    have "\<exists>x. maps attrs (areas s) (set (mmap s)) a x"
      using that(1) view_at_iff [of s attrs a] ok split by auto
    then obtain i where i: "i \<in> set (mmap s)" "covers (areas s i) a" by (auto simp: maps_def)
    then have i': "covers (areas s' i) a" using s'(1) addr(2) by (auto simp: covers_def)
    have "view_at f t a = Some (f (areas t i) a)"
      if "areas_ok (areas t) (mmap t)" "i \<in> set (mmap t)" "covers (areas t i) a" for t
      using that by (auto simp: view_at_iff maps_def)
    from this [of s] this [of s'] ok ok' split i i' s'(2) have
      "view_at f s a = Some (f (areas s i) a)" "view_at f s' a = Some (f (areas s' i) a)" by auto
    with f i(2) s'(1) show ?thesis by auto
  qed
  have "page_offset ?w a = page_offset (areas s v) a" if "covers (areas s v) a" for a
  proof -
    have "vm_pgoff ?w + drop_bit PAGE_SHIFT (start_of s v - vm_start ?w) +
        drop_bit PAGE_SHIFT (a - start_of s v) = page_offset ?w a"
      using that addr ok by (intro page_offset_later) (auto simp: area_ok_def covers_def areas_ok_def)
    then show ?thesis by (simp add: page_offset_def)
  qed
  then have "view_at page_offset s' a = view_at page_offset s a" if "view_at attrs s a \<noteq> None" for a
    using keep [OF that, of page_offset] by blast
  moreover have "view_at attrs s' a = view_at attrs s a" if "view_at attrs s a \<noteq> None" for a
    using keep [OF that, of attrs] by (simp add: attrs_def)
  ultimately show ?thesis using s' \<open>vm_wf s'\<close> by simp
qed

text \<open>The address lies below the area \<open>v\<close>, the first one that ends after it.\<close>

lemma find_extend_below:
  assumes fv: "find_vma s b = (Some v, s\<lparr>mmap_cache := c\<rparr>)" and wf1: "vm_wf (s\<lparr>mmap_cache := c\<rparr>)"
    and b: "page_aligned b" and b_def: "b = addr AND PAGE_MASK" and split: "mmap s = xs @ v # ys"
    and xs: "\<forall>w\<in>set xs. end_of s w \<le> b" and v: "b < end_of s v" and False: "\<not> start_of s v \<le> b"
  shows "\<exists>r s'. find_extend_vma s addr = Done (r, s') \<and> vm_wf s' \<and> mmap s' = mmap s \<and>
    (\<forall>v. r = Some v \<longrightarrow> v \<in> set (mmap s') \<and> covers (areas s' v) b) \<and>
    (\<forall>a. view_at attrs s a \<noteq> None \<longrightarrow>
       view_at attrs s' a = view_at attrs s a \<and> view_at page_offset s' a = view_at page_offset s a)"
proof -
  let ?s = "s\<lparr>mmap_cache := c\<rparr>"
  obtain e s' where ex: "expand_stack ?s v b = (e, s')" by fastforce
  have fail: "s' = ?s" if "e \<noteq> None" using that ex by (auto simp: expand_stack_def Let_def split: if_splits)
  have eq: "find_extend_vma s addr =
      (if vm_flags (areas s v) AND VM_GROWSDOWN = 0 then Done (None, ?s)
       else if e \<noteq> None then Done (None, s')
       else if vm_flags (areas s' v) AND VM_LOCKED \<noteq> 0
       then bind_outcome (make_pages_present s' b (start_of s v)) (\<lambda>s. Done (Some v, s))
       else Done (Some v, s'))"
    using fv False ex by (simp add: find_extend_vma_def b_def [symmetric] split: option.splits)
  show ?thesis
  proof (cases "vm_flags (areas s v) AND VM_GROWSDOWN = 0 \<or> e \<noteq> None")
    case True
    then have "find_extend_vma s addr = Done (None, ?s)" using eq fail by auto
    with wf1 show ?thesis by simp
  next
    case grown: False
    have "expand_stack ?s v b = (None, s')" using ex grown by simp
    from expand_stack_spec [OF wf1 _ _ b _ this, of xs ys] split xs False
    have s': "vm_wf s'" "mmap s' = mmap s" "start_of s' v = b" "end_of s' v = end_of s v"
      "\<forall>a. view_at attrs s a \<noteq> None \<longrightarrow>
         view_at attrs s' a = view_at attrs s a \<and> view_at page_offset s' a = view_at page_offset s a"
      by auto
    have vin: "v \<in> set (mmap s')" and cov: "covers (areas s' v) b" using split s' v by (auto simp: covers_def)
    from find_vma_covered [OF s'(1) vin cov] obtain u d where
      "find_vma s' b = (Some u, s'\<lparr>mmap_cache := d\<rparr>)" and wfd: "vm_wf (s'\<lparr>mmap_cache := d\<rparr>)" by blast
    then have "make_pages_present s' b (start_of s v) =
        Done (log_event (Make_pages_present b (start_of s v)) (s'\<lparr>mmap_cache := d\<rparr>))"
      using False by (simp add: make_pages_present_def)
    then obtain t where t: "find_extend_vma s addr = Done (Some v, t)" "areas t = areas s'" "mmap t = mmap s'"
      "vm_wf t"
      using eq grown s'(1) wfd by (auto simp: vm_wf_def split: if_splits)
    have "view_at f t a = view_at f s' a" for f :: "vm_area_struct \<Rightarrow> ulong \<Rightarrow> 'x" and a
      by (simp add: view_at_def t)
    with t s' vin cov b_def show ?thesis by (auto simp: view_at_def)
  qed
qed

text \<open>
  C33: on a well-formed address space \<open>find_extend_vma\<close> never hits a \<open>BUG()\<close> check and leaves a
  well-formed address space; the area it returns covers the page it was asked for, growing a stack
  downwards if need be, and every address that was mapped before is mapped with the same
  attributes and shows the same page of its file.
\<close>

theorem find_extend_vma_correct:
  assumes wf: "vm_wf s"
  shows "\<exists>r s'. find_extend_vma s addr = Done (r, s') \<and> vm_wf s' \<and> mmap s' = mmap s \<and>
    (\<forall>v. r = Some v \<longrightarrow> v \<in> set (mmap s') \<and> covers (areas s' v) (addr AND PAGE_MASK)) \<and>
    (\<forall>a. view_at attrs s a \<noteq> None \<longrightarrow>
       view_at attrs s' a = view_at attrs s a \<and> view_at page_offset s' a = view_at page_offset s a)"
proof -
  define b where "b = addr AND PAGE_MASK"
  have b: "page_aligned b"
    by (simp add: b_def page_aligned_iff PAGE_MASK_mask unat_and_not_mask PAGE_SHIFT_def)
  obtain c where fv: "find_vma s b = (first_or (ending_after (areas s) b (mmap s)) None, s\<lparr>mmap_cache := c\<rparr>)"
    and wf1: "vm_wf (s\<lparr>mmap_cache := c\<rparr>)"
    using find_vma_spec [OF wf] by blast
  let ?s = "s\<lparr>mmap_cache := c\<rparr>"
  show ?thesis
  proof (cases "ending_after (areas s) b (mmap s)")
    case Nil
    with fv wf1 show ?thesis by (simp add: find_extend_vma_def b_def)
  next
    case (Cons v ys)
    define xs where "xs = ending_by (areas s) b (mmap s)"
    have split: "mmap s = xs @ v # ys"
      using takeWhile_dropWhile_id [of "\<lambda>v. end_of s v \<le> b" "mmap s"] Cons by (simp add: xs_def)
    have xs: "\<forall>w\<in>set xs. end_of s w \<le> b" by (auto simp: xs_def dest: set_takeWhileD)
    have v: "b < end_of s v"
      using ending_after_gt [OF areas_ok_ordered, of "areas s" "mmap s" v b] wf Cons by (simp add: vm_wf_def)
    show ?thesis
    proof (cases "start_of s v \<le> b")
      case True
      with fv Cons wf1 v split show ?thesis
        by (simp add: find_extend_vma_def b_def [symmetric] covers_def)
    next
      case False
      with fv Cons have "find_vma s b = (Some v, ?s)" by simp
      from find_extend_below [OF this wf1 b b_def split xs v False] show ?thesis unfolding b_def .
    qed
  qed
qed

theorem find_extend_vma_correct_witness:
  "\<exists>r s'. find_extend_vma example_vm 0xBFFFD123 = Done (r, s') \<and> vm_wf s'"
  using find_extend_vma_correct [OF example_vm_wf, of "0xBFFFD123"] by blast

section \<open>The end of an address space\<close>







end
