(* ===== verification/Buddy_Blocks.thy ===== *)
theory Buddy_Blocks
  imports Kernel_Prelude
begin

text \<open>
  The mathematics of the buddy system, independent of its data structures. A free block is a
  pair of an order \<open>k\<close> and a start \<open>i\<close>; a family \<open>F\<close> gives the starts of the free blocks of
  every order. \<open>free_frames F\<close> is the set of page frames they cover, which is the abstract
  state of the allocator: the theory shows what adding and removing a block does to it, that
  a coalesced family misses no aligned free run, and that it is determined by the free frames.
\<close>

section \<open>Blocks and buddies\<close>

definition MAX_ORDER :: nat where
  "MAX_ORDER = 10"

definition span :: "nat \<Rightarrow> nat \<Rightarrow> nat set" where
  "span k i = {i ..< i + 2 ^ k}"

definition buddy :: "nat \<Rightarrow> nat \<Rightarrow> nat" where
  "buddy k i = (if even (i div 2 ^ k) then i + 2 ^ k else i - 2 ^ k)"

definition parent :: "nat \<Rightarrow> nat \<Rightarrow> nat" where
  "parent k i = i div 2 ^ (k + 1) * 2 ^ (k + 1)"

definition placed :: "nat \<Rightarrow> nat \<Rightarrow> nat \<Rightarrow> bool" where
  "placed n k i \<longleftrightarrow> k < MAX_ORDER \<and> 2 ^ k dvd i \<and> i + 2 ^ k \<le> n"

definition free_frames :: "(nat \<Rightarrow> nat set) \<Rightarrow> nat set" where
  "free_frames F = (\<Union>k. \<Union>i\<in>F k. span k i)"

definition coalesced :: "(nat \<Rightarrow> nat set) \<Rightarrow> bool" where
  "coalesced F \<longleftrightarrow> (\<forall>k i. k + 1 < MAX_ORDER \<longrightarrow> i \<in> F k \<longrightarrow> buddy k i \<notin> F k)"

definition separated :: "(nat \<Rightarrow> nat set) \<Rightarrow> bool" where
  "separated F \<longleftrightarrow>
     (\<forall>k i l j. i \<in> F k \<longrightarrow> j \<in> F l \<longrightarrow> (k, i) \<noteq> (l, j) \<longrightarrow> span k i \<inter> span l j = {})"

definition blocks_ok :: "nat \<Rightarrow> (nat \<Rightarrow> nat set) \<Rightarrow> bool" where
  "blocks_ok n F \<longleftrightarrow> (\<forall>k. \<forall>i\<in>F k. placed n k i) \<and> separated F \<and> coalesced F"

lemma span_not_empty [simp]: "span k i \<noteq> {}"
  by (simp add: span_def)

lemma start_in_span [simp]: "i \<in> span k i"
  by (simp add: span_def)

lemma card_span [simp]: "card (span k i) = 2 ^ k"
  by (simp add: span_def)

lemma finite_span [simp]: "finite (span k i)"
  by (simp add: span_def)

lemma mem_span:
  assumes "2 ^ k dvd i"
  shows "x \<in> span k i \<longleftrightarrow> x div 2 ^ k = i div 2 ^ k"
proof -
  obtain q where q: "i = 2 ^ k * q" using assms by blast
  have "x \<in> span k i \<longleftrightarrow> q * 2 ^ k \<le> x \<and> x < (q + 1) * 2 ^ k"
    by (auto simp: span_def q algebra_simps)
  also have "\<dots> \<longleftrightarrow> q \<le> x div 2 ^ k \<and> x div 2 ^ k < q + 1"
    by (simp add: less_eq_div_iff_mult_less_eq div_less_iff_less_mult)
  also have "\<dots> \<longleftrightarrow> x div 2 ^ k = i div 2 ^ k"
    by (auto simp: q)
  finally show ?thesis .
qed

lemma div_power_less_eq: "k \<le> l \<Longrightarrow> (x :: nat) div 2 ^ l = x div 2 ^ k div 2 ^ (l - k)"
  by (simp add: div_mult2_eq [symmetric] power_add [symmetric])

text \<open>Aligned blocks are nested or disjoint.\<close>

lemma span_nested:
  assumes "2 ^ k dvd i" and "2 ^ l dvd j" and "k \<le> l" and "span k i \<inter> span l j \<noteq> {}"
  shows "span k i \<subseteq> span l j"
proof
  obtain x where x: "x div 2 ^ k = i div 2 ^ k" "x div 2 ^ l = j div 2 ^ l"
    using assms by (auto simp: mem_span)
  fix y
  assume "y \<in> span k i"
  then have "y div 2 ^ k = x div 2 ^ k" using assms(1) x by (simp add: mem_span)
  then have "y div 2 ^ l = j div 2 ^ l"
    using assms(3) x(2) by (simp add: div_power_less_eq [of k l])
  then show "y \<in> span l j" using assms(2) by (simp add: mem_span)
qed

lemma span_subset_order: "span k i \<subseteq> span l j \<Longrightarrow> k \<le> l"
  using card_mono [of "span l j" "span k i"] by simp

lemma span_inject: "span k i = span l j \<longleftrightarrow> k = l \<and> i = j"
proof
  assume eq: "span k i = span l j"
  then have "k = l" using span_subset_order [of k i l j] span_subset_order [of l j k i] by simp
  moreover have "Min (span k i) = Min (span l j)" using eq by simp
  moreover have "Min (span k i) = i" for k i
    by (rule Min_eqI) (auto simp: span_def)
  ultimately show "k = l \<and> i = j" by simp
qed simp

lemma aligned_Suc_split:
  assumes "(2 :: nat) ^ k dvd i"
  obtains q where "i = 2 ^ (k + 1) * q" | q where "i = 2 ^ (k + 1) * q + 2 ^ k"
proof -
  obtain m where m: "i = 2 ^ k * m" using assms by blast
  show thesis
  proof (cases "even m")
    case True
    then obtain q where "m = 2 * q" by blast
    then show thesis using m that(1) [of q] by simp
  next
    case False
    then obtain q where "m = 2 * q + 1" by (blast elim: oddE)
    then show thesis using m that(2) [of q] by (simp add: algebra_simps)
  qed
qed

lemma buddy_even: "buddy k (2 ^ (k + 1) * q) = 2 ^ (k + 1) * q + 2 ^ k"
  by (simp add: buddy_def mult.assoc [of 2] mult.left_commute [of 2])

lemma buddy_odd: "buddy k (2 ^ (k + 1) * q + 2 ^ k) = 2 ^ (k + 1) * q"
proof -
  have "(2 ^ (k + 1) * q + 2 ^ k) div 2 ^ k = (2 ^ k * (2 * q + 1)) div (2 :: nat) ^ k"
    by (simp add: algebra_simps)
  then show ?thesis by (simp add: buddy_def)
qed

lemma parent_even: "parent k (2 ^ (k + 1) * q) = 2 ^ (k + 1) * q"
  by (simp add: parent_def)

lemma parent_odd: "parent k (2 ^ (k + 1) * q + 2 ^ k) = 2 ^ (k + 1) * q"
proof -
  have "(2 ^ (k + 1) * q + 2 ^ k) div 2 ^ (k + 1) = q + 2 ^ k div (2 :: nat) ^ (k + 1)"
    by (rule div_mult_self4) simp
  then show ?thesis by (simp add: parent_def mult.commute)
qed

lemmas buddy_simps = buddy_even buddy_odd parent_even parent_odd

lemma buddy_aligned: "2 ^ k dvd i \<Longrightarrow> 2 ^ k dvd buddy k i"
  by (erule aligned_Suc_split) (simp_all only: buddy_simps, simp_all)

lemma buddy_buddy: "2 ^ k dvd i \<Longrightarrow> buddy k (buddy k i) = i"
  by (erule aligned_Suc_split) (simp_all only: buddy_simps)

lemma buddy_neq: "2 ^ k dvd i \<Longrightarrow> buddy k i \<noteq> i"
  by (erule aligned_Suc_split) (simp_all only: buddy_simps, simp_all)

lemma parent_buddy: "2 ^ k dvd i \<Longrightarrow> parent k (buddy k i) = parent k i"
  by (erule aligned_Suc_split) (simp_all only: buddy_simps)

lemma parent_aligned: "2 ^ (k + 1) dvd parent k i"
  by (simp add: parent_def)

lemma span_parent: "2 ^ k dvd i \<Longrightarrow> span (k + 1) (parent k i) = span k i \<union> span k (buddy k i)"
  by (erule aligned_Suc_split) (auto simp only: buddy_simps, auto simp: span_def)

lemma span_buddy_disjoint: "2 ^ k dvd i \<Longrightarrow> span k i \<inter> span k (buddy k i) = {}"
  by (erule aligned_Suc_split) (auto simp only: buddy_simps, auto simp: span_def)

text \<open>Two blocks of order \<open>k\<close> have the same index in the map iff they are the same or buddies.\<close>

lemma map_index_eq:
  assumes "2 ^ k dvd i" and "2 ^ k dvd j"
  shows "i div 2 ^ (k + 1) = j div 2 ^ (k + 1) \<longleftrightarrow> j = i \<or> j = buddy k i"
proof
  assume "i div 2 ^ (k + 1) = j div 2 ^ (k + 1)"
  then have "parent k i = parent k j" by (simp add: parent_def)
  then have "j \<in> span k i \<union> span k (buddy k i)"
    using span_parent [OF assms(1)] span_parent [OF assms(2)] start_in_span [of j k] by auto
  then have "span k j = span k i \<or> span k j = span k (buddy k i)"
    using assms buddy_aligned [OF assms(1)] by (auto simp: mem_span)
  then show "j = i \<or> j = buddy k i" by (simp add: span_inject)
next
  assume "j = i \<or> j = buddy k i"
  then show "i div 2 ^ (k + 1) = j div 2 ^ (k + 1)"
    using parent_buddy [OF assms(1)] by (auto simp: parent_def)
qed

section \<open>Adding and removing a block\<close>

lemma blocks_ok_placed: "blocks_ok n F \<Longrightarrow> i \<in> F k \<Longrightarrow> placed n k i"
  by (simp add: blocks_ok_def)

lemma blocks_ok_separated:
  "blocks_ok n F \<Longrightarrow> i \<in> F k \<Longrightarrow> j \<in> F l \<Longrightarrow> span k i \<inter> span l j \<noteq> {} \<Longrightarrow> k = l \<and> i = j"
  unfolding blocks_ok_def separated_def by blast

lemma blocks_ok_coalesced:
  "blocks_ok n F \<Longrightarrow> k + 1 < MAX_ORDER \<Longrightarrow> i \<in> F k \<Longrightarrow> buddy k i \<notin> F k"
  unfolding blocks_ok_def coalesced_def by blast

lemma placed_aligned: "placed n k i \<Longrightarrow> 2 ^ k dvd i"
  by (simp add: placed_def)

lemma mem_free_frames: "x \<in> free_frames F \<longleftrightarrow> (\<exists>k i. i \<in> F k \<and> x \<in> span k i)"
  by (auto simp: free_frames_def)

lemma span_free_frames: "i \<in> F k \<Longrightarrow> span k i \<subseteq> free_frames F"
  by (auto simp: free_frames_def)

lemma free_frames_bound: "blocks_ok n F \<Longrightarrow> free_frames F \<subseteq> {..<n}"
  by (fastforce simp: free_frames_def span_def dest: blocks_ok_placed simp: placed_def)

lemma finite_free_frames: "blocks_ok n F \<Longrightarrow> finite (free_frames F)"
  by (meson free_frames_bound finite_subset finite_lessThan)

lemma remove_block_ok:
  "blocks_ok n F \<Longrightarrow> blocks_ok n (F(k := F k - {i}))"
  by (fastforce simp: blocks_ok_def separated_def coalesced_def)

lemma remove_block_frames:
  assumes "blocks_ok n F" and "i \<in> F k"
  shows "free_frames (F(k := F k - {i})) = free_frames F - span k i"
proof -
  have "x \<in> free_frames (F(k := F k - {i})) \<longleftrightarrow> x \<in> free_frames F - span k i" for x
  proof -
    have other: "x \<notin> span k i" if "j \<in> F l" "x \<in> span l j" "l \<noteq> k \<or> j \<noteq> i" for l j
      using that assms blocks_ok_separated [of n F j l i k] by blast
    have "x \<in> free_frames (F(k := F k - {i})) \<longleftrightarrow>
        (\<exists>l j. j \<in> F l \<and> (l \<noteq> k \<or> j \<noteq> i) \<and> x \<in> span l j)"
      by (auto simp: mem_free_frames)
    also have "\<dots> \<longleftrightarrow> (\<exists>l j. j \<in> F l \<and> x \<in> span l j) \<and> x \<notin> span k i"
      using other assms(2) by (intro iffI conjI; elim exE conjE) blast+
    finally show ?thesis by (simp add: mem_free_frames)
  qed
  then show ?thesis by blast
qed

lemma add_block_ok:
  assumes ok: "blocks_ok n F" and p: "placed n k i"
    and new: "span k i \<inter> free_frames F = {}"
    and alone: "k + 1 < MAX_ORDER \<longrightarrow> buddy k i \<notin> F k"
  shows "blocks_ok n (F(k := insert i (F k)))"
proof -
  have new': "span k i \<inter> span l j = {}" if "j \<in> F l" for l j
    using new span_free_frames [of j F l] that by blast
  have bud: "buddy k j \<noteq> i" if "j \<in> F k" "k + 1 < MAX_ORDER" for j
    using alone that buddy_buddy [of k j] blocks_ok_placed [OF ok, of j k]
    by (auto simp: placed_aligned)
  have "separated (F(k := insert i (F k)))"
    using ok new' unfolding blocks_ok_def separated_def by (auto simp: Int_commute)
  moreover have "coalesced (F(k := insert i (F k)))"
    using ok alone bud buddy_neq [OF placed_aligned [OF p]]
    unfolding blocks_ok_def coalesced_def by auto
  ultimately show ?thesis using ok p by (auto simp: blocks_ok_def)
qed

lemma add_block_frames: "free_frames (F(k := insert i (F k))) = free_frames F \<union> span k i"
proof -
  have "x \<in> free_frames (F(k := insert i (F k))) \<longleftrightarrow> x \<in> free_frames F \<or> x \<in> span k i" for x
    unfolding mem_free_frames by (auto split: if_splits intro: exI [of _ k] exI [of _ i])
  then show ?thesis by blast
qed

section \<open>Completeness and canonicity of coalesced families\<close>

text \<open>
  Every aligned run of free frames lies in one free block: no allocation request that the
  free memory could satisfy is missed by looking at the free lists from its order upwards.
\<close>

lemma aligned_run_in_block:
  assumes ok: "blocks_ok n F"
  shows "k < MAX_ORDER \<Longrightarrow> 2 ^ k dvd i \<Longrightarrow> span k i \<subseteq> free_frames F \<Longrightarrow>
    \<exists>l j. k \<le> l \<and> j \<in> F l \<and> span k i \<subseteq> span l j"
proof (induction k arbitrary: i)
  case 0
  then obtain l j where "j \<in> F l" "i \<in> span l j" by (auto simp: free_frames_def span_def)
  then show ?case by (auto simp: span_def)
next
  case (Suc k)
  have al: "2 ^ k dvd i" "parent k i = i"
    using Suc.prems(2) by (auto simp: parent_def elim: power_le_dvd dvd_mult_left)
  have halves: "span (Suc k) i = span k i \<union> span k (buddy k i)"
    using span_parent [OF al(1)] al(2) by simp
  obtain l j where lj: "k \<le> l" "j \<in> F l" "span k i \<subseteq> span l j"
    using Suc.IH [of i] Suc.prems al halves by auto
  obtain m h where mh: "k \<le> m" "h \<in> F m" "span k (buddy k i) \<subseteq> span m h"
    using Suc.IH [of "buddy k i"] Suc.prems buddy_aligned [OF al(1)] halves by auto
  show ?case
  proof (cases "l = k \<and> m = k")
    case True
    then have "j = i" "h = buddy k i"
      using lj(3) mh(3) by (auto simp: span_inject dest!: card_subset_eq [OF finite_span])
    then show ?thesis
      using blocks_ok_coalesced [OF ok, of k i] Suc.prems(1) lj(2) mh(2) True by simp
  next
    case False
    then obtain l' j' where big: "Suc k \<le> l'" "j' \<in> F l'" "span (Suc k) i \<inter> span l' j' \<noteq> {}"
    proof (cases "l = k")
      case True
      with False mh(1) have "Suc k \<le> m" by simp
      then show thesis
        using that [of m h] mh halves start_in_span [of "buddy k i" k] by blast
    next
      case False
      with lj(1) have "Suc k \<le> l" by simp
      then show thesis using that [of l j] lj halves start_in_span [of i k] by blast
    qed
    then have "span (Suc k) i \<subseteq> span l' j'"
      using span_nested [OF Suc.prems(2), of l' j'] blocks_ok_placed [OF ok, of j' l']
      by (simp add: placed_aligned)
    then show ?thesis using big by blast
  qed
qed

text \<open>The free blocks are determined by the free frames.\<close>

lemma blocks_subset:
  assumes F: "blocks_ok n F" and G: "blocks_ok n G" and eq: "free_frames F = free_frames G"
    and i: "i \<in> F k"
  shows "i \<in> G k"
proof -
  have pi: "placed n k i" using blocks_ok_placed [OF F i] .
  obtain l j where lj: "k \<le> l" "j \<in> G l" "span k i \<subseteq> span l j"
    using aligned_run_in_block [OF G, of k i] span_free_frames [of i F k] i pi eq
    by (auto simp: placed_def)
  have pj: "placed n l j" using blocks_ok_placed [OF G lj(2)] .
  obtain m h where mh: "l \<le> m" "h \<in> F m" "span l j \<subseteq> span m h"
    using aligned_run_in_block [OF F, of l j] span_free_frames [of j G l] lj(2) pj eq
    by (auto simp: placed_def)
  have "k = m \<and> i = h"
    using blocks_ok_separated [OF F i mh(2)] lj(3) mh(3) start_in_span [of i k] by blast
  then have "span k i = span l j" using lj mh by blast
  then show ?thesis using lj(2) by (simp add: span_inject)
qed

lemma blocks_unique:
  "blocks_ok n F \<Longrightarrow> blocks_ok n G \<Longrightarrow> free_frames F = free_frames G \<Longrightarrow> F = G"
  using blocks_subset [of n F G] blocks_subset [of n G F] by (intro ext set_eqI) auto

end
