(* ===== verification/Page_Buddy.thy ===== *)
theory Page_Buddy
  imports Page_Alloc
begin

text \<open>
  The invariant of a zone of \<open>mm/page_alloc.c\<close> and the correctness of the buddy operations:
  freeing a block adds its frames to the free frames of the zone, taking a block removes
  exactly its frames, neither runs into a \<open>BUG()\<close>, and a request fails only when the zone has
  no aligned run of free frames of the requested order.
\<close>

section \<open>The zone invariant\<close>

definition zone_blocks :: "zone_t \<Rightarrow> nat \<Rightarrow> nat set" where
  "zone_blocks z k =
     (if k < MAX_ORDER
      then (\<lambda>p. unat (p - z_offset z)) ` set (free_list (z_free_area z ! k)) else {})"

definition zone_shape :: "zone_t \<Rightarrow> bool" where
  "zone_shape z \<longleftrightarrow>
     length (z_free_area z) = MAX_ORDER \<and> unat (z_offset z) + unat (z_size z) < 2 ^ 32 \<and>
     (\<forall>k<MAX_ORDER. distinct (free_list (z_free_area z ! k)) \<and>
        unat (z_size z) \<le> length (area_map (z_free_area z ! k)) * 2 ^ (k + 1))"

text \<open>
  The bit of a pair of buddies is set iff exactly one of the two is a free block. The bits of
  the highest order carry no information.
\<close>

definition bits_ok :: "zone_t \<Rightarrow> (nat \<Rightarrow> nat set) \<Rightarrow> bool" where
  "bits_ok z F \<longleftrightarrow>
     (\<forall>k i. k + 1 < MAX_ORDER \<longrightarrow> 2 ^ k dvd i \<longrightarrow> i < unat (z_size z) \<longrightarrow>
        area_map (z_free_area z ! k) ! (i div 2 ^ (k + 1)) = ((i \<in> F k) \<noteq> (buddy k i \<in> F k)))"

definition zone_core :: "zone_t \<Rightarrow> bool" where
  "zone_core z \<longleftrightarrow>
     zone_shape z \<and> blocks_ok (unat (z_size z)) (zone_blocks z) \<and> bits_ok z (zone_blocks z)"

definition zone_frames :: "zone_t \<Rightarrow> nat set" where
  "zone_frames z = free_frames (zone_blocks z)"

definition zone_inv :: "zone_t \<Rightarrow> bool" where
  "zone_inv z \<longleftrightarrow> zone_core z \<and> unat (z_free_pages z) = card (zone_frames z)"

definition zone_pages :: "page_map \<Rightarrow> nat \<Rightarrow> zone_t \<Rightarrow> bool" where
  "zone_pages mm zid z \<longleftrightarrow> (\<forall>i<unat (z_size z). pg_zone (mm (z_offset z + of_nat i)) = zid)"

text \<open>An operation that changes nothing of a zone but its free areas.\<close>

definition areas_only :: "zone_t \<Rightarrow> zone_t \<Rightarrow> bool" where
  "areas_only z z' \<longleftrightarrow> z' = z\<lparr>z_free_area := z_free_area z'\<rparr>"

lemma areas_only_fields:
  "areas_only z z' \<Longrightarrow> z_offset z' = z_offset z \<and> z_size z' = z_size z \<and>
    z_free_pages z' = z_free_pages z \<and> z_low_on_memory z' = z_low_on_memory z \<and>
    z_pages_low z' = z_pages_low z \<and> z_pages_high z' = z_pages_high z"
  unfolding areas_only_def by (cases z; cases z') simp

lemma areas_only_refl [simp]: "areas_only z z"
  by (simp add: areas_only_def)

lemma areas_only_trans: "areas_only x y \<Longrightarrow> areas_only y z \<Longrightarrow> areas_only x z"
  unfolding areas_only_def by (cases x; cases y; cases z) simp

lemma areas_only_update [simp]:
  "areas_only z (set_area_map k m z)" "areas_only z (memlist_add_head p k z)"
  "areas_only z (z\<lparr>z_free_area := fa\<rparr>)"
  by (simp_all add: areas_only_def set_area_map_def memlist_add_head_def Let_def)

section \<open>Words and block numbers\<close>

lemma placed_less: "placed n k i \<Longrightarrow> i < n"
  by (auto simp: placed_def intro: less_le_trans [of i "i + 2 ^ k"])

lemma unat_of_page: "unat x < unat (z_size z) \<Longrightarrow> zone_shape z \<Longrightarrow>
    unat (z_offset z + x) = unat (z_offset z) + unat x"
  by (rule unat_plus_no_wrap) (simp add: zone_shape_def)

lemma not_BAD_RANGE:
  assumes "zone_shape z" and "zone_pages mm zid z" and "unat x < unat (z_size z)"
  shows "\<not> BAD_RANGE mm zid z (z_offset z + x)"
proof -
  have "pg_zone (mm (z_offset z + x)) = zid"
    using assms(2,3) unfolding zone_pages_def by (metis word_of_nat_eq_0_iff of_nat_unat ucast_id)
  moreover have "unat (z_offset z + z_size z) = unat (z_offset z) + unat (z_size z)"
    using assms(1) by (intro unat_plus_no_wrap) (simp add: zone_shape_def)
  ultimately show ?thesis
    using assms unat_of_page [of x z]
    by (simp add: BAD_RANGE_def word_less_nat_alt word_le_nat_alt)
qed

lemma drop_push_one: "k + 1 < 32 \<Longrightarrow> drop_bit 1 (push_bit (k + 1) 1) = (push_bit k 1 :: ulong)"
proof -
  assume k: "k + 1 < 32"
  have "unat (drop_bit 1 (push_bit (k + 1) 1 :: ulong)) = 2 ^ (k + 1) div 2"
    using unat_two_power [OF k] by (simp only: unat_drop_bit push_bit_eq_mult mult_1 power_one_right)
  then show ?thesis using k by (simp add: word_unat_eq_iff push_bit_eq_mult unat_two_power)
qed

lemma unset_bit_sub: "bit (a :: nat) k \<Longrightarrow> unset_bit k a = a - 2 ^ k"
proof -
  assume b: "bit a k"
  have "set_bit k (unset_bit k a) = a"
    by (rule bit_eqI) (use b in \<open>auto simp: bit_simps\<close>)
  moreover have "set_bit k (unset_bit k a) = unset_bit k a + 2 ^ k"
    by (simp add: set_bit_eq bit_simps)
  ultimately show ?thesis by linarith
qed

lemma unat_xor_buddy: "k < 32 \<Longrightarrow> unat ((x :: ulong) XOR push_bit k 1) = buddy k (unat x)"
proof -
  assume k: "k < 32"
  have "unat (push_bit k (1 :: ulong)) = 2 ^ k"
    using k by (simp add: push_bit_eq_mult unat_two_power)
  then have "unat (x XOR push_bit k 1) = flip_bit k (unat x)"
    by (simp add: unsigned_xor_eq flip_bit_def push_bit_eq_mult)
  then show ?thesis
    by (simp add: flip_bit_eq_if buddy_def set_bit_eq unset_bit_sub bit_iff_odd)
qed

lemma neg_order_mask: "- push_bit k (- 1 :: ulong) = push_bit k 1"
  by (simp add: push_bit_eq_mult)

lemma push_bit_minus_1: "push_bit k (- 1 :: 'a::len word) = NOT (mask k)"
  by (simp add: push_bit_minus_one_eq_not_mask)

lemma unat_and_parent: "unat ((x :: ulong) AND push_bit 1 (push_bit k (- 1))) = parent k (unat x)"
proof -
  have "push_bit 1 (push_bit k (- 1 :: ulong)) = NOT (mask (k + 1))"
    by (simp only: push_bit_push_bit push_bit_minus_1 [symmetric] add.commute)
  then show ?thesis by (simp only: unat_and_not_mask parent_def)
qed

lemma top_order_mask:
  "k < MAX_ORDER \<Longrightarrow> push_bit k (- 1 :: ulong) + push_bit (MAX_ORDER - 1) 1 = 0 \<longleftrightarrow> k = MAX_ORDER - 1"
proof -
  assume k: "k < MAX_ORDER"
  have "push_bit k (- 1 :: ulong) + push_bit (MAX_ORDER - 1) 1 = 0 \<longleftrightarrow>
      (2 :: ulong) ^ (MAX_ORDER - 1) = 2 ^ k"
    by (simp add: push_bit_eq_mult)
  also have "\<dots> \<longleftrightarrow> (2 :: nat) ^ (MAX_ORDER - 1) = 2 ^ k"
    using k by (simp add: word_unat_eq_iff unat_two_power MAX_ORDER_def)
  finally show ?thesis by auto
qed

section \<open>Free lists and bitmaps\<close>

lemma shape_index:
  assumes "zone_shape z" and "k < MAX_ORDER" and "i < unat (z_size z)"
  shows "i div 2 ^ (k + 1) < length (area_map (z_free_area z ! k))"
proof -
  have "i < length (area_map (z_free_area z ! k)) * 2 ^ (k + 1)"
    using assms unfolding zone_shape_def by fastforce
  then show ?thesis by (simp only: div_less_iff_less_mult zero_less_power zero_less_numeral)
qed

definition flip_at :: "nat \<Rightarrow> nat \<Rightarrow> zone_t \<Rightarrow> zone_t" where
  "flip_at k j z = set_area_map k ((area_map (z_free_area z ! k))
     [j := \<not> area_map (z_free_area z ! k) ! j]) z"

lemma flip_at_fields [simp]:
  "z_offset (flip_at k j z) = z_offset z" "z_size (flip_at k j z) = z_size z"
  "z_free_pages (flip_at k j z) = z_free_pages z" "areas_only z (flip_at k j z)"
  by (simp_all add: flip_at_def set_area_map_def areas_only_def)

lemma flip_at_areas:
  assumes "zone_shape z" and "k < MAX_ORDER" and "l < MAX_ORDER"
  shows "free_list (z_free_area (flip_at k j z) ! l) = free_list (z_free_area z ! l)"
    and "area_map (z_free_area (flip_at k j z) ! l) =
      (if l = k then (area_map (z_free_area z ! k))[j := \<not> area_map (z_free_area z ! k) ! j]
       else area_map (z_free_area z ! l))"
  using assms by (auto simp: flip_at_def set_area_map_def zone_shape_def nth_list_update)

lemma flip_at_blocks [simp]:
  "zone_shape z \<Longrightarrow> k < MAX_ORDER \<Longrightarrow> zone_blocks (flip_at k j z) = zone_blocks z"
  by (rule ext) (simp add: zone_blocks_def flip_at_areas)

lemma flip_at_shape [simp]:
  "zone_shape z \<Longrightarrow> k < MAX_ORDER \<Longrightarrow> zone_shape (flip_at k j z)"
  using flip_at_areas [of z k] unfolding zone_shape_def
  by (auto simp: flip_at_def set_area_map_def nth_list_update)

lemma flip_at_bits:
  assumes s: "zone_shape z" and ok: "bits_ok z F" and k: "k < MAX_ORDER" and al: "2 ^ k dvd i"
    and i: "i < unat (z_size z)" and G: "\<And>j. j \<in> G \<longleftrightarrow> (if j = i then i \<notin> F k else j \<in> F k)"
  shows "bits_ok (flip_at k (i div 2 ^ (k + 1)) z) (F(k := G))"
  unfolding bits_ok_def
proof (intro allI impI)
  let ?z = "flip_at k (i div 2 ^ (k + 1)) z"
  fix l j
  assume l: "l + 1 < MAX_ORDER" and j: "2 ^ l dvd j" "j < unat (z_size ?z)"
  have old: "area_map (z_free_area z ! l) ! (j div 2 ^ (l + 1)) = ((j \<in> F l) \<noteq> (buddy l j \<in> F l))"
    using ok l j unfolding bits_ok_def by simp
  show "area_map (z_free_area ?z ! l) ! (j div 2 ^ (l + 1)) =
      ((j \<in> (F(k := G)) l) \<noteq> (buddy l j \<in> (F(k := G)) l))"
  proof (cases "l = k \<and> j div 2 ^ (k + 1) = i div 2 ^ (k + 1)")
    case True
    then have "i = j \<or> i = buddy k j" using map_index_eq [of k j i] j al by auto
    moreover have "buddy k j \<noteq> j" "buddy k (buddy k j) = j"
      using True j by (simp_all add: buddy_neq buddy_buddy)
    ultimately have "((j \<in> G) \<noteq> (buddy k j \<in> G)) = (\<not> ((j \<in> F k) \<noteq> (buddy k j \<in> F k)))"
      using G by metis
    then show ?thesis
      using True old flip_at_areas(2) [OF s k k] shape_index [OF s k i] by simp
  next
    case False
    then have "l \<noteq> k \<or> (j \<noteq> i \<and> buddy k j \<noteq> i)"
      using map_index_eq [of k j i] j al by auto
    then have "((j \<in> (F(k := G)) l) \<noteq> (buddy l j \<in> (F(k := G)) l)) =
        ((j \<in> F l) \<noteq> (buddy l j \<in> F l))"
      using G by auto
    then show ?thesis
      using old False flip_at_areas(2) [OF s k, of l] l by (auto simp: nth_list_update_neq)
  qed
qed

lemma bits_ok_cong:
  assumes "z_size z' = z_size z" and "\<And>k. k < MAX_ORDER \<Longrightarrow>
      area_map (z_free_area z' ! k) = area_map (z_free_area z ! k)"
  shows "bits_ok z' F \<longleftrightarrow> bits_ok z F"
  using assms unfolding bits_ok_def by auto

lemma block_of_page:
  assumes "zone_blocks z k = B" and "k < MAX_ORDER"
  shows "p \<in> set (free_list (z_free_area z ! k)) \<longleftrightarrow> unat (p - z_offset z) \<in> B"
  using assms by (auto simp: zone_blocks_def word_unat_eq_iff [symmetric])

lemma add_head_areas:
  assumes "zone_shape z" and "k < MAX_ORDER" and "l < MAX_ORDER"
  shows "free_list (z_free_area (memlist_add_head p k z) ! l) =
      (if l = k then p # free_list (z_free_area z ! k) else free_list (z_free_area z ! l))"
    and "area_map (z_free_area (memlist_add_head p k z) ! l) = area_map (z_free_area z ! l)"
  using assms by (auto simp: memlist_add_head_def Let_def zone_shape_def nth_list_update)

lemma add_head_fields [simp]:
  "z_offset (memlist_add_head p k z) = z_offset z" "z_size (memlist_add_head p k z) = z_size z"
  "z_free_pages (memlist_add_head p k z) = z_free_pages z"
  by (simp_all add: memlist_add_head_def Let_def)

lemma add_head_blocks:
  "zone_shape z \<Longrightarrow> k < MAX_ORDER \<Longrightarrow> zone_blocks (memlist_add_head (z_offset z + x) k z) =
    (zone_blocks z)(k := insert (unat x) (zone_blocks z k))"
  by (rule ext) (auto simp: zone_blocks_def add_head_areas)

lemma add_head_shape:
  assumes s: "zone_shape z" and k: "k < MAX_ORDER" and x: "unat x \<notin> zone_blocks z k"
  shows "zone_shape (memlist_add_head (z_offset z + x) k z)"
proof -
  have "z_offset z + x \<notin> set (free_list (z_free_area z ! k))"
    using block_of_page [OF refl k, of "z_offset z + x" z] x by simp
  then show ?thesis
    using s add_head_areas [OF s k] unfolding zone_shape_def
    by (simp add: memlist_add_head_def Let_def)
qed

text \<open>Linking a block whose bit is already set gives a zone with that block free.\<close>

lemma add_head_core:
  assumes s: "zone_shape z" and ok: "blocks_ok (unat (z_size z)) (zone_blocks z)"
    and p: "placed (unat (z_size z)) k (unat x)"
    and new: "span k (unat x) \<inter> zone_frames z = {}"
    and alone: "k + 1 < MAX_ORDER \<longrightarrow> buddy k (unat x) \<notin> zone_blocks z k"
    and bits: "bits_ok z ((zone_blocks z)(k := insert (unat x) (zone_blocks z k)))"
  shows "zone_core (memlist_add_head (z_offset z + x) k z)"
    and "zone_frames (memlist_add_head (z_offset z + x) k z) = zone_frames z \<union> span k (unat x)"
proof -
  let ?z = "memlist_add_head (z_offset z + x) k z"
  have k: "k < MAX_ORDER" using p by (simp add: placed_def)
  have "unat x \<notin> zone_blocks z k"
    using new span_free_frames [of "unat x" "zone_blocks z" k] start_in_span [of "unat x" k]
    unfolding zone_frames_def by blast
  then have "zone_shape ?z" by (rule add_head_shape [OF s k])
  moreover have "blocks_ok (unat (z_size z)) (zone_blocks ?z)"
    using add_block_ok [OF ok p] new alone by (simp add: zone_frames_def add_head_blocks [OF s k])
  moreover have "bits_ok ?z (zone_blocks ?z)"
    using bits bits_ok_cong [of ?z z] add_head_areas(2) [OF s k]
    by (simp add: add_head_blocks [OF s k])
  ultimately show "zone_core ?z" by (simp add: zone_core_def)
  show "zone_frames ?z = zone_frames z \<union> span k (unat x)"
    by (simp add: zone_frames_def add_head_blocks [OF s k] add_block_frames)
qed

definition unlink :: "ulong \<Rightarrow> zone_t \<Rightarrow> zone_t" where
  "unlink p z = z\<lparr>z_free_area :=
     map (\<lambda>a. a\<lparr>free_list := remove1 p (free_list a)\<rparr>) (z_free_area z)\<rparr>"

lemma unlink_fields [simp]:
  "z_offset (unlink p z) = z_offset z" "z_size (unlink p z) = z_size z"
  "z_free_pages (unlink p z) = z_free_pages z" "areas_only z (unlink p z)"
  by (simp_all add: unlink_def)

lemma memlist_del_unlink:
  assumes "zone_shape z" and "k < MAX_ORDER" and "p \<in> set (free_list (z_free_area z ! k))"
  shows "memlist_del p z = Done (unlink p z)"
proof -
  have "z_free_area z ! k \<in> set (z_free_area z)"
    using assms by (simp add: zone_shape_def)
  then show ?thesis using assms(3) by (auto simp: memlist_del_def unlink_def)
qed

lemma unlink_areas:
  assumes "zone_shape z" and "l < MAX_ORDER"
  shows "free_list (z_free_area (unlink p z) ! l) = remove1 p (free_list (z_free_area z ! l))"
    and "area_map (z_free_area (unlink p z) ! l) = area_map (z_free_area z ! l)"
  using assms by (auto simp: unlink_def zone_shape_def)

lemma unlink_shape: "zone_shape z \<Longrightarrow> zone_shape (unlink p z)"
  using unlink_areas [of z _ p] unfolding zone_shape_def by (simp add: unlink_def)

lemma unlink_blocks:
  assumes s: "zone_shape z" and ok: "blocks_ok n (zone_blocks z)"
    and x: "unat x \<in> zone_blocks z k"
  shows "zone_blocks (unlink (z_offset z + x) z) =
    (zone_blocks z)(k := zone_blocks z k - {unat x})"
proof (rule ext)
  fix l
  let ?p = "z_offset z + x"
  have k: "k < MAX_ORDER" using x by (simp add: zone_blocks_def split: if_splits)
  show "zone_blocks (unlink ?p z) l = ((zone_blocks z)(k := zone_blocks z k - {unat x})) l"
  proof (cases "l < MAX_ORDER")
    case True
    have d: "distinct (free_list (z_free_area z ! l))" using s True by (simp add: zone_shape_def)
    have "zone_blocks (unlink ?p z) l =
        (\<lambda>p. unat (p - z_offset z)) ` (set (free_list (z_free_area z ! l)) - {?p})"
      using True d by (simp add: zone_blocks_def unlink_areas [OF s])
    also have "\<dots> = zone_blocks z l - {unat x}"
      using True by (auto simp: zone_blocks_def word_unat_eq_iff [symmetric])
    finally have eq: "zone_blocks (unlink ?p z) l = zone_blocks z l - {unat x}" .
    have "unat x \<notin> zone_blocks z l" if "l \<noteq> k"
      using blocks_ok_separated [OF ok x, of "unat x" l] that
        start_in_span [of "unat x" k] start_in_span [of "unat x" l] by blast
    then show ?thesis using eq by auto
  qed (use k in \<open>auto simp: zone_blocks_def\<close>)
qed

text \<open>Unlinking a free block and flipping its bit, in either order, gives a zone without it.\<close>

lemma area_update_commute:
  "a\<lparr>area_map := m, free_list := l\<rparr> = (a :: free_area_t)\<lparr>free_list := l, area_map := m\<rparr>"
  by (cases a) simp

lemma flip_unlink: "zone_shape z \<Longrightarrow> k < MAX_ORDER \<Longrightarrow>
    unlink p (flip_at k j z) = flip_at k j (unlink p z)"
  unfolding unlink_def flip_at_def set_area_map_def zone_shape_def
  by (simp add: map_update nth_list_update area_update_commute)

lemma take_block_core:
  assumes c: "zone_core z" and x: "unat x \<in> zone_blocks z k"
    and z': "z' = flip_at k (unat x div 2 ^ (k + 1)) (unlink (z_offset z + x) z)"
  shows "zone_core z'" and "zone_frames z' = zone_frames z - span k (unat x)"
    and "zone_blocks z' = (zone_blocks z)(k := zone_blocks z k - {unat x})"
proof -
  let ?p = "z_offset z + x" and ?i = "unat x"
  have s: "zone_shape z" and ok: "blocks_ok (unat (z_size z)) (zone_blocks z)"
    and bits: "bits_ok z (zone_blocks z)"
    using c by (simp_all add: zone_core_def)
  have pl: "placed (unat (z_size z)) k ?i" using blocks_ok_placed [OF ok x] .
  then have k: "k < MAX_ORDER" and al: "2 ^ k dvd ?i" and lt: "?i < unat (z_size z)"
    using placed_less by (auto simp: placed_def)
  let ?G = "(zone_blocks z)(k := zone_blocks z k - {?i})"
  have s': "zone_shape (unlink ?p z)" using unlink_shape [OF s] .
  show blocks: "zone_blocks z' = ?G"
    using unlink_blocks [OF s ok x] flip_at_blocks [OF s' k] by (simp add: z')
  have "bits_ok (unlink ?p z) (zone_blocks z)"
    using bits bits_ok_cong [of "unlink ?p z" z] unlink_areas(2) [OF s] by simp
  then have "bits_ok z' ?G"
    unfolding z' using x al lt by (intro flip_at_bits [OF s' _ k]) auto
  then show "zone_core z'"
    using s' k remove_block_ok [OF ok, of k ?i] unfolding zone_core_def blocks by (simp add: z')
  show "zone_frames z' = zone_frames z - span k ?i"
    using remove_block_frames [OF ok x] by (simp add: zone_frames_def blocks)
qed

section \<open>Freeing\<close>

lemma test_and_change_bit_at:
  "unat index = j \<Longrightarrow> j < length (area_map (z_free_area z ! k)) \<Longrightarrow>
    test_and_change_bit index (area_map (z_free_area z ! k)) =
    Done (area_map (z_free_area z ! k) ! j,
      (area_map (z_free_area z ! k))[j := \<not> area_map (z_free_area z ! k) ! j])"
  by (simp add: test_and_change_bit_def)

lemma free_loop_top:
  "msk = push_bit (MAX_ORDER - 1) (- 1) \<Longrightarrow>
    free_loop mm zid z msk k index x = Done (z, k, x)"
  by (subst free_loop.simps) (simp add: push_bit_eq_mult)

lemma free_loop_stop:
  assumes "msk + push_bit (MAX_ORDER - 1) 1 \<noteq> 0" and "k < MAX_ORDER" and "unat index = j"
    and "j < length (area_map (z_free_area z ! k))" and "\<not> area_map (z_free_area z ! k) ! j"
  shows "free_loop mm zid z msk k index x = Done (flip_at k j z, k, x)"
  using assms
  by (subst free_loop.simps) (simp add: test_and_change_bit_at flip_at_def Let_def)

lemma free_loop_merge:
  assumes "msk + push_bit (MAX_ORDER - 1) 1 \<noteq> 0" and "k < MAX_ORDER" and "unat index = j"
    and "j < length (area_map (z_free_area z ! k))" and "area_map (z_free_area z ! k) ! j"
    and "x XOR (- msk) = b" and "\<not> BAD_RANGE mm zid (flip_at k j z) (z_offset z + b)"
    and "\<not> BAD_RANGE mm zid (flip_at k j z) (z_offset z + x)"
    and "memlist_del (z_offset z + b) (flip_at k j z) = Done z2"
  shows "free_loop mm zid z msk k index x =
    free_loop mm zid z2 (push_bit 1 msk) (k + 1) (drop_bit 1 index) (x AND push_bit 1 msk)"
  using assms
  by (subst free_loop.simps) (simp add: test_and_change_bit_at flip_at_def Let_def)

definition freed :: "zone_t \<Rightarrow> nat \<Rightarrow> nat \<Rightarrow> (zone_t \<times> nat \<times> ulong) outcome \<Rightarrow> bool" where
  "freed z k i r \<longleftrightarrow> (\<exists>z' l y. r = Done (z', l, y) \<and>
     zone_core (memlist_add_head (z_offset z + y) l z') \<and>
     zone_frames (memlist_add_head (z_offset z + y) l z') = zone_frames z \<union> span k i \<and>
     areas_only z z')"

lemma buddy_bit:
  assumes c: "zone_core z" and "placed (unat (z_size z)) k i" and "k + 1 < MAX_ORDER"
    and new: "span k i \<inter> zone_frames z = {}"
  shows "area_map (z_free_area z ! k) ! (i div 2 ^ (k + 1)) \<longleftrightarrow> buddy k i \<in> zone_blocks z k"
proof -
  have "i \<notin> zone_blocks z k"
    using new span_free_frames [of i "zone_blocks z" k] start_in_span [of i k]
    unfolding zone_frames_def by blast
  then show ?thesis
    using assms(1-3) placed_less [OF assms(2)]
    by (auto simp: zone_core_def bits_ok_def placed_def)
qed

text \<open>One turn of the merge loop: the buddy leaves its list, the pair becomes one block.\<close>

lemma free_loop_step:
  assumes c: "zone_core z" and pages: "zone_pages mm zid z"
    and pl: "placed (unat (z_size z)) k (unat x)"
    and new: "span k (unat x) \<inter> zone_frames z = {}"
    and index: "unat index = unat x div 2 ^ (k + 1)"
    and up: "k + 1 < MAX_ORDER" and merge: "buddy k (unat x) \<in> zone_blocks z k"
  obtains z2 y where "free_loop mm zid z (push_bit k (- 1)) k index x =
      free_loop mm zid z2 (push_bit (k + 1) (- 1)) (k + 1) (drop_bit 1 index) y"
    and "zone_core z2" and "areas_only z z2" and "unat y = parent k (unat x)"
    and "zone_frames z2 = zone_frames z - span k (buddy k (unat x))"
proof -
  let ?i = "unat x" and ?n = "unat (z_size z)" and ?j = "unat x div 2 ^ (k + 1)"
  let ?msk = "push_bit k (- 1) :: ulong" and ?b = "x XOR push_bit k 1"
  let ?z = "flip_at k ?j (unlink (z_offset z + ?b) z)"
  have s: "zone_shape z" and ok: "blocks_ok ?n (zone_blocks z)"
    using c by (simp_all add: zone_core_def)
  have k: "k < MAX_ORDER" and al: "2 ^ k dvd ?i" using pl by (auto simp: placed_def)
  have k32: "k < 32" using k by (simp add: MAX_ORDER_def)
  note lt = placed_less [OF pl]
  have b: "unat ?b = buddy k ?i" using unat_xor_buddy [OF k32, of x] by simp
  have bj: "buddy k ?i div 2 ^ (k + 1) = ?j"
    using map_index_eq [OF al buddy_aligned [OF al]] by simp
  have blt: "unat ?b < ?n" using placed_less [OF blocks_ok_placed [OF ok merge]] b by simp
  have go: "?msk + push_bit (MAX_ORDER - 1) 1 \<noteq> 0" using top_order_mask [OF k] up by auto
  have pf: "zone_pages mm zid (flip_at k ?j z)" using pages by (simp add: zone_pages_def)
  have sf: "zone_shape (flip_at k ?j z)" using s k by simp
  have del: "memlist_del (z_offset z + ?b) (flip_at k ?j z) = Done ?z"
    using memlist_del_unlink [OF sf k, of "z_offset z + ?b"] s k merge b
      flip_at_areas(1) [OF s k k] block_of_page [OF refl k, of "z_offset z + ?b" z]
    by (simp add: flip_unlink)
  have "free_loop mm zid z ?msk k index x =
      free_loop mm zid ?z (push_bit 1 ?msk) (k + 1) (drop_bit 1 index) (x AND push_bit 1 ?msk)"
  proof (rule free_loop_merge [OF go k index shape_index [OF s k lt] _ _ _ _ del])
    show "area_map (z_free_area z ! k) ! ?j" using buddy_bit [OF c pl up new] merge by simp
    show "x XOR - ?msk = ?b" by (simp only: neg_order_mask)
    show "\<not> BAD_RANGE mm zid (flip_at k ?j z) (z_offset z + ?b)"
      and "\<not> BAD_RANGE mm zid (flip_at k ?j z) (z_offset z + x)"
      using not_BAD_RANGE [OF sf pf, of ?b] not_BAD_RANGE [OF sf pf, of x] blt lt by simp_all
  qed
  then have "free_loop mm zid z ?msk k index x = free_loop mm zid ?z
      (push_bit (k + 1) (- 1)) (k + 1) (drop_bit 1 index) (x AND push_bit 1 ?msk)"
    by (simp only: push_bit_push_bit add.commute [of 1 k])
  moreover have "areas_only z ?z"
    by (rule areas_only_trans [of _ "unlink (z_offset z + ?b) z"]) simp_all
  ultimately show thesis
    using that [of ?z "x AND push_bit 1 ?msk"] take_block_core(1,2) [OF c, of ?b k ?z]
      merge b bj unat_and_parent [of x k] by simp
qed

lemma parent_placed:
  assumes "placed n k i" and "placed n k (buddy k i)" and "k + 1 < MAX_ORDER"
  shows "placed n (k + 1) (parent k i)"
proof -
  have "span (k + 1) (parent k i) \<subseteq> {..<n}"
    unfolding span_parent [OF placed_aligned [OF assms(1)]]
    using assms by (auto simp: placed_def span_def)
  moreover have "(1 :: nat) \<le> 2 ^ (k + 1)" by (rule one_le_power) simp
  then have "parent k i + 2 ^ (k + 1) - 1 \<in> span (k + 1) (parent k i)"
    unfolding span_def atLeastLessThan_iff by linarith
  ultimately have "parent k i + 2 ^ (k + 1) - 1 < n" by blast
  then show ?thesis using assms(3) parent_aligned [of k i] by (simp add: placed_def)
qed

lemma free_loop_correct:
  assumes "zone_core z" and "zone_pages mm zid z" and "placed (unat (z_size z)) k (unat x)"
    and "span k (unat x) \<inter> zone_frames z = {}"
    and "unat index = unat x div 2 ^ (k + 1)"
  shows "freed z k (unat x) (free_loop mm zid z (push_bit k (- 1)) k index x)"
  using assms
proof (induction "MAX_ORDER - k" arbitrary: z k x index)
  case 0
  then show ?case by (simp add: placed_def)
next
  case (Suc d)
  let ?i = "unat x" and ?n = "unat (z_size z)" and ?F = "zone_blocks z"
  let ?j = "unat x div 2 ^ (k + 1)"
  note c = Suc.prems(1) and pl = Suc.prems(3) and new = Suc.prems(4)
  have s: "zone_shape z" and ok: "blocks_ok ?n ?F" and bits: "bits_ok z ?F"
    using c by (simp_all add: zone_core_def)
  have k: "k < MAX_ORDER" and al: "2 ^ k dvd ?i" using pl by (auto simp: placed_def)
  note lt = placed_less [OF pl]
  have out: "?i \<notin> ?F k"
    using new span_free_frames [of ?i ?F k] start_in_span [of ?i k]
    unfolding zone_frames_def by blast
  consider "k + 1 = MAX_ORDER" | "k + 1 < MAX_ORDER" "buddy k ?i \<notin> ?F k"
    | "k + 1 < MAX_ORDER" "buddy k ?i \<in> ?F k" using k by linarith
  then show ?case
  proof cases
    case 1
    then have "bits_ok z (?F(k := insert ?i (?F k)))" using bits unfolding bits_ok_def by auto
    moreover have "k = MAX_ORDER - 1" using 1 by simp
    then have "free_loop mm zid z (push_bit k (- 1)) k index x = Done (z, k, x)"
      by (simp only: free_loop_top)
    ultimately show ?thesis using add_head_core [OF s ok pl new] 1 unfolding freed_def by auto
  next
    case 2
    let ?z = "flip_at k ?j z"
    have "push_bit k (- 1 :: ulong) + push_bit (MAX_ORDER - 1) 1 \<noteq> 0"
      using top_order_mask [OF k] 2(1) by auto
    then have "free_loop mm zid z (push_bit k (- 1)) k index x = Done (?z, k, x)"
      using buddy_bit [OF c pl 2(1) new] 2(2)
      by (intro free_loop_stop k Suc.prems(5) shape_index [OF s k lt]) simp_all
    moreover have "bits_ok ?z (?F(k := insert ?i (?F k)))"
      using out by (intro flip_at_bits [OF s bits k al lt]) auto
    ultimately show ?thesis
      using add_head_core [of ?z k x] s ok pl new k 2(2) unfolding freed_def
      by (auto simp: zone_frames_def)
  next
    case 3
    obtain z2 y where st: "free_loop mm zid z (push_bit k (- 1)) k index x =
        free_loop mm zid z2 (push_bit (k + 1) (- 1)) (k + 1) (drop_bit 1 index) y"
      and z2: "zone_core z2" "areas_only z z2" and y: "unat y = parent k ?i"
      and fr: "zone_frames z2 = zone_frames z - span k (buddy k ?i)"
      using free_loop_step [OF Suc.prems 3] by blast
    have f: "z_offset z2 = z_offset z" "z_size z2 = z_size z" using areas_only_fields [OF z2(2)] by simp_all
    have whole: "span (k + 1) (unat y) = span k ?i \<union> span k (buddy k ?i)"
      using span_parent [OF al] y by simp
    have "span k (buddy k ?i) \<subseteq> zone_frames z"
      using span_free_frames [of "buddy k ?i" ?F k] 3(2) by (simp add: zone_frames_def)
    then have un: "zone_frames z2 \<union> span (k + 1) (unat y) = zone_frames z \<union> span k ?i"
      unfolding whole fr by blast
    have "freed z2 (k + 1) (unat y)
        (free_loop mm zid z2 (push_bit (k + 1) (- 1)) (k + 1) (drop_bit 1 index) y)"
    proof (rule Suc.hyps(1) [OF _ z2(1)])
      show "zone_pages mm zid z2" using Suc.prems(2) by (simp add: zone_pages_def f)
      show "placed (unat (z_size z2)) (k + 1) (unat y)"
        using parent_placed [OF pl blocks_ok_placed [OF ok 3(2)] 3(1)] by (simp add: f y)
      show "span (k + 1) (unat y) \<inter> zone_frames z2 = {}"
        unfolding whole fr using new by blast
      show "unat (drop_bit 1 index) = unat y div 2 ^ (k + 1 + 1)"
        using Suc.prems(5) y
        by (simp add: unat_drop_bit parent_def div_mult2_eq [symmetric] mult.commute)
    qed (use Suc.hyps(2) in simp)
    then show ?thesis
      unfolding freed_def st un f using z2(2) by (auto intro: areas_only_trans)
  qed
qed

section \<open>Taking\<close>

text \<open>
  Splitting a block in hand: its lower half goes on the list of its order, the upper half
  stays in hand.
\<close>

lemma split_parent:
  assumes "placed n (k + 1) i"
  shows "placed n k i" and "placed n k (i + 2 ^ k)" and "buddy k i = i + 2 ^ k"
    and "span (k + 1) i = span k i \<union> span k (i + 2 ^ k)"
    and "span k i \<inter> span k (i + 2 ^ k) = {}" and "i div 2 ^ (k + 1) = (i + 2 ^ k) div 2 ^ (k + 1)"
proof -
  obtain q where q: "i = 2 ^ (k + 1) * q" using assms by (auto simp: placed_def)
  show b: "buddy k i = i + 2 ^ k" by (simp only: q buddy_even)
  have al: "2 ^ k dvd i" by (simp add: q)
  show "placed n k i" using assms al by (simp add: placed_def)
  show "placed n k (i + 2 ^ k)" using assms al by (simp add: placed_def)
  show "span (k + 1) i = span k i \<union> span k (i + 2 ^ k)" by (auto simp: span_def)
  show "span k i \<inter> span k (i + 2 ^ k) = {}" by (auto simp: span_def)
  show "i div 2 ^ (k + 1) = (i + 2 ^ k) div 2 ^ (k + 1)"
    using map_index_eq [OF al, of "i + 2 ^ k"] b buddy_aligned [OF al] by simp
qed

lemma MARK_USED_flip:
  assumes "zone_shape z" and "k < MAX_ORDER" and "unat index < unat (z_size z)"
  shows "MARK_USED index k k z = Done (flip_at k (unat index div 2 ^ (k + 1)) z)"
proof -
  have "unat (drop_bit (1 + k) index) = unat index div 2 ^ (k + 1)" by (simp add: unat_drop_bit)
  then show ?thesis
    using shape_index [OF assms]
    by (simp add: MARK_USED_def test_and_change_bit_at flip_at_def)
qed

lemma flip_add_head: "zone_shape z \<Longrightarrow> k < MAX_ORDER \<Longrightarrow>
    flip_at k j (memlist_add_head p k z) = memlist_add_head p k (flip_at k j z)"
  unfolding memlist_add_head_def flip_at_def set_area_map_def zone_shape_def Let_def
  by (simp add: nth_list_update area_update_commute [symmetric])

lemma split_block_core:
  assumes c: "zone_core z" and pl: "placed (unat (z_size z)) (k + 1) (unat x)"
    and new: "span (k + 1) (unat x) \<inter> zone_frames z = {}"
    and z': "z' = flip_at k (unat x div 2 ^ (k + 1)) (memlist_add_head (z_offset z + x) k z)"
  shows "zone_core z'" and "zone_frames z' = zone_frames z \<union> span k (unat x)"
    and "zone_shape (memlist_add_head (z_offset z + x) k z)"
proof -
  let ?z = "flip_at k (unat x div 2 ^ (k + 1)) z" and ?F = "zone_blocks z"
  have s: "zone_shape z" and ok: "blocks_ok (unat (z_size z)) ?F" and bits: "bits_ok z ?F"
    using c by (simp_all add: zone_core_def)
  have k: "k < MAX_ORDER" using pl by (simp add: placed_def)
  note half = split_parent [OF pl]
  have none: "unat x \<notin> ?F k" "buddy k (unat x) \<notin> ?F k"
    using new span_free_frames [of "unat x" ?F k] span_free_frames [of "buddy k (unat x)" ?F k]
      half(3,4) start_in_span [of "unat x" k] start_in_span [of "unat x + 2 ^ k" k]
    unfolding zone_frames_def by (metis IntI UnI1 UnI2 empty_iff subsetD)+
  show "zone_shape (memlist_add_head (z_offset z + x) k z)"
    using add_head_shape [OF s k none(1)] .
  have "bits_ok ?z (?F(k := insert (unat x) (?F k)))"
    using none placed_aligned [OF half(1)] placed_less [OF half(1)]
    by (intro flip_at_bits [OF s bits k]) auto
  moreover have "span k (unat x) \<inter> zone_frames ?z = {}"
    using new half(4) s k by (auto simp: zone_frames_def)
  moreover have "z' = memlist_add_head (z_offset ?z + x) k ?z"
    using s k by (simp add: z' flip_add_head)
  ultimately show "zone_core z'" and "zone_frames z' = zone_frames z \<union> span k (unat x)"
    using add_head_core [of ?z k x] s k ok half(1) none(2) by (simp_all add: zone_frames_def)
qed

definition taken :: "zone_t \<Rightarrow> nat \<Rightarrow> nat set \<Rightarrow> (zone_t \<times> ulong) outcome \<Rightarrow> bool" where
  "taken z low fr r \<longleftrightarrow> (\<exists>z' y. r = Done (z', z_offset z + y) \<and> zone_core z' \<and>
     placed (unat (z_size z)) low (unat y) \<and> span low (unat y) \<subseteq> fr \<and>
     zone_frames z' = fr - span low (unat y) \<and> areas_only z z')"

lemma expand_loop_correct:
  assumes "zone_core z" and "zone_pages mm zid z" and "placed (unat (z_size z)) high (unat x)"
    and "span high (unat x) \<inter> zone_frames z = {}" and "low \<le> high"
  shows "taken z low (zone_frames z \<union> span high (unat x))
    (expand_loop mm zid z (z_offset z + x) x low high high (push_bit high 1))"
  using assms
proof (induction "high - low" arbitrary: z high x)
  case 0
  then show ?case
    using not_BAD_RANGE [of z mm zid x] placed_less [of "unat (z_size z)" high "unat x"]
    unfolding taken_def by (subst expand_loop.simps) (auto simp: zone_core_def)
next
  case (Suc d)
  then obtain k where high: "high = k + 1" by (cases high) auto
  note c = Suc.prems(1) and pl = Suc.prems(3) [unfolded high] and new = Suc.prems(4) [unfolded high]
  note half = split_parent [OF pl]
  let ?z1 = "memlist_add_head (z_offset z + x) k z"
  let ?z = "flip_at k (unat x div 2 ^ (k + 1)) ?z1" and ?y = "x + 2 ^ k"
  have s: "zone_shape z" using c by (simp add: zone_core_def)
  have k: "k < MAX_ORDER" "k < 32" using pl by (simp_all add: placed_def MAX_ORDER_def)
  have sp: "zone_core ?z" "zone_frames ?z = zone_frames z \<union> span k (unat x)" "zone_shape ?z1"
    using split_block_core [OF c pl new refl] by simp_all
  have szb: "unat (z_size z) < 2 ^ 32" using unsigned_less [of "z_size z", where 'a = nat] by simp
  have y: "unat ?y = unat x + 2 ^ k"
    using placed_less [OF half(2)] szb k
    by (subst unat_plus_no_wrap) (simp_all add: push_bit_eq_mult unat_two_power)
  have half_size: "drop_bit 1 (push_bit (k + 1) 1) = (push_bit k 1 :: ulong)"
    using k by (intro drop_push_one) (simp add: MAX_ORDER_def)
  have "MARK_USED x k k ?z1 = Done ?z"
    using MARK_USED_flip [OF sp(3), of k x] k placed_less [OF half(1)] by simp
  then have "expand_loop mm zid z (z_offset z + x) x low high high (push_bit high 1) =
      expand_loop mm zid ?z (z_offset ?z + ?y) ?y low k k (push_bit k 1)"
    using not_BAD_RANGE [OF s Suc.prems(2) placed_less [OF half(1)]] Suc.hyps(2) half_size
    by (subst expand_loop.simps) (simp add: high Let_def add.assoc, linarith)
  moreover have "taken ?z low (zone_frames ?z \<union> span k (unat ?y))
      (expand_loop mm zid ?z (z_offset ?z + ?y) ?y low k k (push_bit k 1))"
  proof (rule Suc.hyps(1) [OF _ sp(1)])
    show "zone_pages mm zid ?z" using Suc.prems(2) by (simp add: zone_pages_def)
    show "placed (unat (z_size ?z)) k (unat ?y)" using half(2) by (simp add: y)
    show "span k (unat ?y) \<inter> zone_frames ?z = {}"
      unfolding y sp(2) using half(4,5) new by blast
  qed (use Suc.hyps(2) Suc.prems(5) high in simp_all)
  moreover have "zone_frames ?z \<union> span k (unat ?y) = zone_frames z \<union> span high (unat x)"
    unfolding y sp(2) high using half(4) by blast
  moreover have "areas_only z ?z" by (rule areas_only_trans [of _ ?z1]) simp_all
  ultimately show ?case
    unfolding taken_def by (auto intro: areas_only_trans)
qed

lemma finite_zone_frames: "zone_core z \<Longrightarrow> finite (zone_frames z)"
  by (auto simp: zone_core_def zone_frames_def intro: finite_free_frames)

lemma zone_frames_bound: "zone_core z \<Longrightarrow> zone_frames z \<subseteq> {..<unat (z_size z)}"
  by (auto simp: zone_core_def zone_frames_def dest: free_frames_bound)

lemma set_free_pages_blocks [simp]: "zone_blocks (z\<lparr>z_free_pages := n\<rparr>) = zone_blocks z"
  by (rule ext) (simp add: zone_blocks_def)

lemma set_free_pages [simp]:
  "zone_frames (z\<lparr>z_free_pages := n\<rparr>) = zone_frames z"
  "zone_shape (z\<lparr>z_free_pages := n\<rparr>) = zone_shape z"
  "zone_core (z\<lparr>z_free_pages := n\<rparr>) = zone_core z"
  "zone_pages mm zid (z\<lparr>z_free_pages := n\<rparr>) = zone_pages mm zid z"
  by (simp_all add: zone_frames_def zone_shape_def zone_core_def bits_ok_def zone_pages_def)

text \<open>Everything of a zone but its free areas and the count of free pages.\<close>

definition same_zone :: "zone_t \<Rightarrow> zone_t \<Rightarrow> bool" where
  "same_zone z z' \<longleftrightarrow> areas_only (z\<lparr>z_free_pages := z_free_pages z'\<rparr>) z'"

lemma same_zone_fields:
  "same_zone z z' \<Longrightarrow> z_offset z' = z_offset z \<and> z_size z' = z_size z \<and>
    z_low_on_memory z' = z_low_on_memory z \<and>
    z_pages_low z' = z_pages_low z \<and> z_pages_high z' = z_pages_high z"
  unfolding same_zone_def by (drule areas_only_fields) simp

lemma same_zone_refl [simp]: "same_zone z z"
  by (simp add: same_zone_def)

definition pulled :: "zone_t \<Rightarrow> nat \<Rightarrow> (zone_t \<times> ulong option) outcome \<Rightarrow> bool" where
  "pulled z order r \<longleftrightarrow>
     (r = Done (z, None) \<and> (\<forall>k\<ge>order. zone_blocks z k = {})) \<or>
     (\<exists>z' y. r = Done (z', Some (z_offset z + y)) \<and> zone_inv z' \<and>
        placed (unat (z_size z)) order (unat y) \<and> span order (unat y) \<subseteq> zone_frames z \<and>
        zone_frames z' = zone_frames z - span order (unat y) \<and> same_zone z z')"

lemma rmqueue_loop_hit:
  assumes inv: "zone_inv z" and pages: "zone_pages mm zid z"
    and o: "order \<le> k" "k < MAX_ORDER" and l: "free_list (z_free_area z ! k) = page # rest"
  shows "pulled z order (rmqueue_loop mm zid z order k)"
proof -
  let ?x = "page - z_offset z"
  let ?z2 = "flip_at k (unat ?x div 2 ^ (k + 1)) (unlink page z)"
  let ?z3 = "?z2\<lparr>z_free_pages := z_free_pages ?z2 - push_bit order 1\<rparr>"
  have c: "zone_core z" and s: "zone_shape z" and ok: "blocks_ok (unat (z_size z)) (zone_blocks z)"
    using inv by (simp_all add: zone_inv_def zone_core_def)
  have x: "unat ?x \<in> zone_blocks z k" using block_of_page [OF refl o(2), of page z] l by simp
  note pl = blocks_ok_placed [OF ok x]
  have free: "span k (unat ?x) \<subseteq> zone_frames z"
    using span_free_frames [of "unat ?x" "zone_blocks z" k] x by (simp add: zone_frames_def)
  have t: "zone_core ?z2" "zone_frames ?z2 = zone_frames z - span k (unat ?x)"
    using take_block_core(1,2) [OF c x, of ?z2] by simp_all
  have del: "memlist_del page z = Done (unlink page z)"
    using memlist_del_unlink [OF s o(2), of page] l by simp
  have mark: "MARK_USED ?x k k (unlink page z) = Done ?z2"
    using MARK_USED_flip [OF unlink_shape [OF s] o(2), of ?x] placed_less [OF pl] by simp
  have "taken ?z3 order (zone_frames ?z3 \<union> span k (unat ?x))
      (expand_loop mm zid ?z3 (z_offset ?z3 + ?x) ?x order k k (push_bit k 1))"
    using t pages pl o by (intro expand_loop_correct) (auto simp: zone_pages_def)
  moreover have "zone_frames ?z3 \<union> span k (unat ?x) = zone_frames z" using t(2) free by auto
  ultimately obtain z' y where e: "expand mm zid ?z3 page ?x order k k = Done (z', z_offset z + y)"
    and z': "zone_core z'" "areas_only ?z3 z'" "zone_frames z' = zone_frames z - span order (unat y)"
    and y: "placed (unat (z_size z)) order (unat y)" "span order (unat y) \<subseteq> zone_frames z"
    unfolding taken_def expand_def by (auto simp add: algebra_simps)
  have "rmqueue_loop mm zid z order k = Done (z', Some (z_offset z + y))"
    using not_BAD_RANGE [OF s pages placed_less [OF pl]] o l del mark e
    by (subst rmqueue_loop.simps) (simp add: Let_def)
  moreover have "unat (z_free_pages z') = card (zone_frames z')"
  proof -
    have "2 ^ order \<le> card (zone_frames z)"
      using card_mono [OF finite_zone_frames [OF c] y(2)] by simp
    moreover have "unat (push_bit order (1 :: ulong)) = 2 ^ order"
      using o by (simp add: push_bit_eq_mult unat_two_power MAX_ORDER_def)
    moreover have "z_free_pages z' = z_free_pages z - push_bit order 1"
      using areas_only_fields [OF z'(2)] by simp
    ultimately have "unat (z_free_pages z') = card (zone_frames z) - 2 ^ order"
      using inv by (simp add: zone_inv_def unat_minus_no_wrap word_le_nat_alt)
    then show ?thesis using y(2) by (simp add: z'(3) card_Diff_subset)
  qed
  moreover have "same_zone z z'"
    using z'(2) areas_only_fields [OF z'(2)] unfolding same_zone_def areas_only_def
    by (cases z; cases z') (simp add: flip_at_def set_area_map_def unlink_def)
  ultimately show ?thesis using z' y unfolding pulled_def zone_inv_def by blast
qed

lemma rmqueue_loop_correct:
  assumes "zone_inv z" and "zone_pages mm zid z" and "order \<le> k" "k < MAX_ORDER"
    and "\<forall>l. order \<le> l \<and> l < k \<longrightarrow> zone_blocks z l = {}"
  shows "pulled z order (rmqueue_loop mm zid z order k)"
  using assms
proof (induction "MAX_ORDER - k" arbitrary: k)
  case (Suc d)
  show ?case
  proof (cases "free_list (z_free_area z ! k)")
    case (Cons page rest)
    then show ?thesis using rmqueue_loop_hit Suc.prems by blast
  next
    case Nil
    then have none: "zone_blocks z k = {}" by (simp add: zone_blocks_def)
    have below: "\<forall>l. order \<le> l \<and> l < k + 1 \<longrightarrow> zone_blocks z l = {}"
      using Suc.prems(5) none by (auto simp: less_Suc_eq)
    show ?thesis
    proof (cases "k + 1 < MAX_ORDER")
      case True
      then have "pulled z order (rmqueue_loop mm zid z order (k + 1))"
        using Suc.hyps Suc.prems below by (intro Suc.hyps(1)) auto
      then show ?thesis using Nil True by (subst rmqueue_loop.simps) simp
    next
      case False
      then have "\<forall>l\<ge>order. zone_blocks z l = {}"
        using below Suc.prems(4) by (auto simp: zone_blocks_def not_less less_Suc_eq_le)
      then show ?thesis
        using Nil False Suc.prems(4) unfolding pulled_def by (subst (1) rmqueue_loop.simps) simp
    qed
  qed
qed simp

end
