(* ===== verification/Bootmem.thy ===== *)
theory Bootmem
  imports Kernel_Prelude
begin

text \<open>
  The boot-time page allocator \<open>mm/bootmem.c\<close>: a bitmap with one bit per page frame below
  \<open>max_low_pfn\<close>, set when the frame is reserved, and the position where the previous
  allocation ended, so that the next one can use the rest of its last page. The bitmap is the
  list of its bits; setting or clearing a bit outside it gives \<open>Bug\<close>. The areas
  cleared by \<open>memset\<close> are recorded in \<open>boot_zeroed\<close>. The theory shows that allocations never
  overlap, when a request succeeds, and that it can fail although enough memory is free.
\<close>

section \<open>State and operations\<close>

definition PAGE_OFFSET :: ulong where
  "PAGE_OFFSET = 0xC0000000"

definition phys_to_virt :: "ulong \<Rightarrow> ulong" where
  "phys_to_virt a = a + PAGE_OFFSET"

definition virt_to_phys :: "ulong \<Rightarrow> ulong" where
  "virt_to_phys a = a - PAGE_OFFSET"

definition MAX_DMA_ADDRESS :: ulong where
  "MAX_DMA_ADDRESS = PAGE_OFFSET + 0x1000000"

definition SMP_CACHE_BYTES :: ulong where
  "SMP_CACHE_BYTES = 32"

record bootmem =
  max_low_pfn :: ulong
  bootmem_map :: ulong
  boot_bits :: "bool list"
  last_pos :: ulong
  last_offset :: ulong
  boot_zeroed :: "(ulong \<times> ulong) list"

definition init_bootmem :: "ulong \<Rightarrow> ulong \<Rightarrow> bootmem \<Rightarrow> ulong \<times> bootmem" where
  "init_bootmem start pages b =
     (let mapsize = (pages + 7) div 8
      in (mapsize, b\<lparr>bootmem_map := phys_to_virt (push_bit PAGE_SHIFT start),
                     max_low_pfn := pages,
                     boot_bits := replicate (8 * unat mapsize) True\<rparr>))"

function reserve_loop :: "ulong \<Rightarrow> ulong \<Rightarrow> bool list \<Rightarrow> bool list outcome" where
  "reserve_loop i end_pfn bits =
     (if i < end_pfn then
        if length bits \<le> unat i \<or> bits ! unat i then Bug
        else reserve_loop (i + 1) end_pfn (bits[unat i := True])
      else Done bits)"
  by pat_completeness auto
termination
  by (relation "measure (\<lambda>(i, end_pfn, bits). unat end_pfn - unat i)") (auto simp: upto_measure)

declare reserve_loop.simps [simp del]

definition reserve_bootmem :: "ulong \<Rightarrow> ulong \<Rightarrow> bootmem \<Rightarrow> bootmem outcome" where
  "reserve_bootmem addr sz b =
     (let end_pfn = (addr + sz + PAGE_SIZE - 1) div PAGE_SIZE in
      if sz = 0 then Bug
      else if max_low_pfn b < end_pfn then Bug
      else (case reserve_loop (addr div PAGE_SIZE) end_pfn (boot_bits b) of
              Bug \<Rightarrow> Bug
            | Done bits \<Rightarrow> Done (b\<lparr>boot_bits := bits\<rparr>)))"

function free_bits_loop :: "ulong \<Rightarrow> ulong \<Rightarrow> bool list \<Rightarrow> bool list outcome" where
  "free_bits_loop i end_pfn bits =
     (if i < end_pfn then
        if length bits \<le> unat i \<or> \<not> bits ! unat i then Bug
        else free_bits_loop (i + 1) end_pfn (bits[unat i := False])
      else Done bits)"
  by pat_completeness auto
termination
  by (relation "measure (\<lambda>(i, end_pfn, bits). unat end_pfn - unat i)") (auto simp: upto_measure)

declare free_bits_loop.simps [simp del]

definition free_bootmem :: "ulong \<Rightarrow> ulong \<Rightarrow> bootmem \<Rightarrow> bootmem outcome" where
  "free_bootmem addr sz b =
     (let end_pfn = (addr + sz) div PAGE_SIZE;
          start = (addr + PAGE_SIZE - 1) div PAGE_SIZE in
      if sz = 0 then Bug
      else if max_low_pfn b < end_pfn then Bug
      else (case free_bits_loop start end_pfn (boot_bits b) of
              Bug \<Rightarrow> Bug
            | Done bits \<Rightarrow> Done (b\<lparr>boot_bits := bits\<rparr>)))"

text \<open>
  The scan of \<open>__alloc_bootmem\<close>: \<open>Inl start\<close> when it jumps to \<open>found\<close>, \<open>Inr (area, start)\<close>,
  the values the two variables have left, when the loop ends.
\<close>

function boot_scan ::
  "bool list \<Rightarrow> ulong \<Rightarrow> ulong \<Rightarrow> ulong \<Rightarrow> bool \<Rightarrow> ulong \<Rightarrow> ulong + (bool \<times> ulong)"
where
  "boot_scan bits max_pfn areasize i area start =
     (if i < max_pfn then
        if \<not> bits ! unat i then
          let start' = (if \<not> area then i else start) in
          if i - start' + 1 = areasize then Inl start'
          else boot_scan bits max_pfn areasize (i + 1) True start'
        else boot_scan bits max_pfn areasize (i + 1) False (- 1)
      else Inr (area, start))"
  by pat_completeness auto
termination
  by (relation "measure (\<lambda>(bits, max_pfn, areasize, i, area, start). unat max_pfn - unat i)")
    (auto simp: upto_measure)

declare boot_scan.simps [simp del]

definition preferred_pfn :: "ulong \<Rightarrow> bootmem \<Rightarrow> ulong" where
  "preferred_pfn goal b =
     (if goal \<noteq> 0
      then let p = drop_bit PAGE_SHIFT goal in if max_low_pfn b \<le> p then 0 else p
      else 0)"

definition boot_find :: "ulong \<Rightarrow> ulong \<Rightarrow> bootmem \<Rightarrow> ulong option" where
  "boot_find areasize preferred b =
     (case boot_scan (boot_bits b) (max_low_pfn b) areasize preferred False 0 of
        Inl start \<Rightarrow> Some start
      | Inr (area, start) \<Rightarrow>
          if preferred \<noteq> 0 then
            (case boot_scan (boot_bits b) (max_low_pfn b) areasize 0 area start of
               Inl start' \<Rightarrow> Some start'
             | Inr r \<Rightarrow> None)
          else None)"

text \<open>
  The placement of the allocation once its pages are found: the new \<open>last_pos\<close> and
  \<open>last_offset\<close>, the physical address and the number of pages still to reserve.
\<close>

definition boot_place ::
  "ulong \<Rightarrow> ulong \<Rightarrow> ulong \<Rightarrow> ulong \<Rightarrow> bootmem \<Rightarrow> (bootmem \<times> ulong \<times> ulong) outcome"
where
  "boot_place sz align start areasize b =
     (if last_offset b \<noteq> 0 \<and> last_pos b + 1 = start then
        let offset = (last_offset b + align - 1) AND NOT (align - 1) in
        if PAGE_SIZE < offset then Bug
        else let remaining_size = PAGE_SIZE - offset;
                 ret = last_pos b * PAGE_SIZE + offset in
          if PAGE_SIZE < remaining_size then Bug
          else if sz < remaining_size then
            Done (b\<lparr>last_offset := (offset + sz) AND NOT PAGE_MASK\<rparr>, ret, 0)
          else
            let remaining = sz - remaining_size;
                areasize' = (remaining + PAGE_SIZE - 1) div PAGE_SIZE in
            Done (b\<lparr>last_pos := start + areasize' - 1,
                    last_offset := remaining AND NOT PAGE_MASK\<rparr>, ret, areasize')
      else
        Done (b\<lparr>last_pos := start + areasize - 1, last_offset := sz AND NOT PAGE_MASK\<rparr>,
              start * PAGE_SIZE, areasize))"

definition alloc_bootmem_goal ::
  "ulong \<Rightarrow> ulong \<Rightarrow> ulong \<Rightarrow> bootmem \<Rightarrow> (bootmem \<times> ulong) outcome"
where
  "alloc_bootmem_goal sz align goal b =
     (if sz = 0 then Bug
      else
        let areasize = (sz + PAGE_SIZE - 1) div PAGE_SIZE in
        case boot_find areasize (preferred_pfn goal b) b of
          None \<Rightarrow> Bug
        | Some start \<Rightarrow>
            if max_low_pfn b \<le> start then Bug
            else (case boot_place sz align start areasize b of
              Bug \<Rightarrow> Bug
            | Done (b1, ret, pages) \<Rightarrow>
                (case reserve_loop start (start + pages) (boot_bits b1) of
                   Bug \<Rightarrow> Bug
                 | Done bits \<Rightarrow>
                     Done (b1\<lparr>boot_bits := bits,
                              boot_zeroed := (phys_to_virt ret, sz) # boot_zeroed b1\<rparr>,
                           phys_to_virt ret))))"

definition alloc_bootmem :: "ulong \<Rightarrow> bootmem \<Rightarrow> (bootmem \<times> ulong) outcome" where
  "alloc_bootmem x = alloc_bootmem_goal x SMP_CACHE_BYTES (virt_to_phys MAX_DMA_ADDRESS)"

definition alloc_bootmem_pages :: "ulong \<Rightarrow> bootmem \<Rightarrow> (bootmem \<times> ulong) outcome" where
  "alloc_bootmem_pages x = alloc_bootmem_goal x PAGE_SIZE (virt_to_phys MAX_DMA_ADDRESS)"

definition alloc_bootmem_low_pages :: "ulong \<Rightarrow> bootmem \<Rightarrow> (bootmem \<times> ulong) outcome" where
  "alloc_bootmem_low_pages x = alloc_bootmem_goal x PAGE_SIZE 0"

section \<open>Marking pages\<close>

lemma reserve_loop_correct:
  assumes "unat e \<le> length bits" and "\<forall>p. unat i \<le> p \<and> p < unat e \<longrightarrow> \<not> bits ! p"
  shows "\<exists>bits'. reserve_loop i e bits = Done bits' \<and> length bits' = length bits \<and>
    (\<forall>p<length bits. bits' ! p \<longleftrightarrow> bits ! p \<or> (unat i \<le> p \<and> p < unat e))"
  using assms
proof (induction i e bits rule: reserve_loop.induct)
  case (1 i e bits)
  show ?case
  proof (cases "i < e")
    case True
    then have lt: "unat i < unat e" by (simp add: word_less_nat_alt)
    have inc: "unat (i + 1) = unat i + 1" using unat_inc [OF True] .
    have free: "\<not> bits ! unat i" "unat i < length bits" using 1 lt by auto
    obtain bits' where b: "reserve_loop (i + 1) e (bits[unat i := True]) = Done bits'"
      "length bits' = length bits" "\<forall>p<length bits. bits' ! p \<longleftrightarrow> bits[unat i := True] ! p \<or>
        (unat (i + 1) \<le> p \<and> p < unat e)"
      using "1.IH" [OF True] 1(2,3) free inc by (auto simp: nth_list_update)
    have "reserve_loop i e bits = Done bits'"
      using True free b(1) by (subst reserve_loop.simps) simp
    moreover have "\<forall>p<length bits. bits' ! p \<longleftrightarrow> bits ! p \<or> (unat i \<le> p \<and> p < unat e)"
      using b(3) free lt by (auto simp: nth_list_update inc)
    ultimately show ?thesis using b(2) by blast
  next
    case False
    then show ?thesis by (subst reserve_loop.simps) (auto simp: word_less_nat_alt)
  qed
qed

lemma free_bits_loop_correct:
  assumes "unat e \<le> length bits" and "\<forall>p. unat i \<le> p \<and> p < unat e \<longrightarrow> bits ! p"
  shows "\<exists>bits'. free_bits_loop i e bits = Done bits' \<and> length bits' = length bits \<and>
    (\<forall>p<length bits. bits' ! p \<longleftrightarrow> bits ! p \<and> \<not> (unat i \<le> p \<and> p < unat e))"
  using assms
proof (induction i e bits rule: free_bits_loop.induct)
  case (1 i e bits)
  show ?case
  proof (cases "i < e")
    case True
    then have lt: "unat i < unat e" by (simp add: word_less_nat_alt)
    have inc: "unat (i + 1) = unat i + 1" using unat_inc [OF True] .
    have used: "bits ! unat i" "unat i < length bits" using 1 lt by auto
    obtain bits' where b: "free_bits_loop (i + 1) e (bits[unat i := False]) = Done bits'"
      "length bits' = length bits" "\<forall>p<length bits. bits' ! p \<longleftrightarrow> bits[unat i := False] ! p \<and>
        \<not> (unat (i + 1) \<le> p \<and> p < unat e)"
      using "1.IH" [OF True] 1(2,3) used inc by (auto simp: nth_list_update)
    have "free_bits_loop i e bits = Done bits'"
      using True used b(1) by (subst free_bits_loop.simps) simp
    moreover have "\<forall>p<length bits. bits' ! p \<longleftrightarrow> bits ! p \<and> \<not> (unat i \<le> p \<and> p < unat e)"
      using b(3) used lt by (auto simp: nth_list_update inc)
    ultimately show ?thesis using b(2) by blast
  next
    case False
    then show ?thesis by (subst free_bits_loop.simps) (auto simp: word_less_nat_alt)
  qed
qed

section \<open>The scan for free pages\<close>

definition free_run :: "bool list \<Rightarrow> nat \<Rightarrow> nat \<Rightarrow> bool" where
  "free_run bits s n \<longleftrightarrow> (\<forall>p. s \<le> p \<and> p < s + n \<longrightarrow> \<not> bits ! p)"

text \<open>
  What \<open>area\<close> and \<open>start\<close> mean when the scan is at page \<open>i\<close>; a start above \<open>i\<close> is left over
  from the scan that began at the goal and ran to the end.
\<close>

definition scan_state :: "bool list \<Rightarrow> ulong \<Rightarrow> ulong \<Rightarrow> bool \<Rightarrow> ulong \<Rightarrow> bool" where
  "scan_state bits max_pfn i area start \<longleftrightarrow>
     (area \<longrightarrow> start < max_pfn \<and>
        (\<forall>p. unat start \<le> p \<and> p < (if start \<le> i then unat i else unat max_pfn) \<longrightarrow> \<not> bits ! p))"

lemma scan_distance:
  assumes "(start :: ulong) < max_pfn" and "i < max_pfn" and "unat max_pfn \<le> 2 ^ 20"
    and "i - start + 1 = n" and "0 < unat n" and "unat n \<le> 2 ^ 20"
  shows "start \<le> i" and "unat start + unat n = unat i + 1"
proof -
  show le: "start \<le> i"
  proof (rule ccontr)
    assume "\<not> start \<le> i"
    then have lt: "unat i < unat start" by (simp add: word_le_nat_alt)
    have "unat (i - start) = 2 ^ 32 + unat i - unat start"
      using lt by (simp add: unat_sub_if_size word_size)
    moreover have "unat start < 2 ^ 20" using assms(1,3) by (simp add: word_less_nat_alt)
    ultimately have "2 ^ 32 - 2 ^ 20 < unat (i - start)" "unat (i - start) < 2 ^ 32"
      using lt by simp_all
    then have "unat (i - start + 1) = (unat (i - start) + 1) mod 2 ^ 32"
      by (simp add: unat_word_ariths)
    with \<open>2 ^ 32 - 2 ^ 20 < unat (i - start)\<close> \<open>unat (i - start) < 2 ^ 32\<close> assms(4-6)
    show False by (cases "unat (i - start) + 1 = 2 ^ 32") auto
  qed
  have "unat (i - start) = unat i - unat start" using le by (rule unat_minus_no_wrap)
  moreover have "unat i - unat start + 1 < 2 ^ 32"
    using assms(2,3) by (simp add: word_less_nat_alt)
  ultimately have "unat n = unat i - unat start + 1"
    using assms(4) by (auto simp: unat_word_ariths)
  then show "unat start + unat n = unat i + 1" using le by (simp add: word_le_nat_alt)
qed

lemma boot_scan_sound:
  assumes "unat max_pfn \<le> 2 ^ 20" and "0 < unat n" and "unat n \<le> 2 ^ 20"
    and "scan_state bits max_pfn i area start" and "i \<le> max_pfn"
  shows "case boot_scan bits max_pfn n i area start of
      Inl s \<Rightarrow> unat s + unat n \<le> unat max_pfn \<and> free_run bits (unat s) (unat n)
    | Inr (area', start') \<Rightarrow> scan_state bits max_pfn 0 area' start'"
  using assms
proof (induction bits max_pfn n i area start rule: boot_scan.induct)
  case (1 bits max_pfn n i area start)
  show ?case
  proof (cases "i < max_pfn")
    case False
    then have "i = max_pfn" using 1 by simp
    then have "scan_state bits max_pfn 0 area start"
      using "1.prems"(4) unfolding scan_state_def by (auto simp: word_le_nat_alt word_less_nat_alt)
    then show ?thesis using False by (subst boot_scan.simps) simp
  next
    case lt: True
    have inc: "unat (i + 1) = unat i + 1" using unat_inc [OF lt] .
    have next_le: "i + 1 \<le> max_pfn" using lt by (simp add: word_le_nat_alt word_less_nat_alt inc)
    show ?thesis
    proof (cases "bits ! unat i")
      case True
      have "scan_state bits max_pfn (i + 1) False (- 1)" by (simp add: scan_state_def)
      then show ?thesis
        using "1.IH"(2) [OF lt] True "1.prems"(1-3) next_le lt by (subst boot_scan.simps) simp
    next
      case False
      define st where "st = (if \<not> area then i else start)"
      have st: "scan_state bits max_pfn (i + 1) True st" and st_lt: "st < max_pfn"
        using "1.prems"(4) False lt unfolding scan_state_def st_def
        by (auto simp: word_le_nat_alt word_less_nat_alt inc less_Suc_eq split: if_splits)
      show ?thesis
      proof (cases "i - st + 1 = n")
        case True
        note d = scan_distance [OF st_lt lt "1.prems"(1) True "1.prems"(2,3)]
        have "free_run bits (unat st) (unat n)"
          using st d unfolding scan_state_def free_run_def
          by (auto simp: word_le_nat_alt inc split: if_splits)
        then show ?thesis
          using True lt False d by (subst boot_scan.simps) (simp add: st_def [symmetric] Let_def word_less_nat_alt)
      next
        case neq: False
        then show ?thesis
          using "1.IH"(1) [OF lt _ st_def] False lt "1.prems"(1-3) st next_le
          by (subst boot_scan.simps) (simp add: st_def [symmetric] Let_def)
      qed
    qed
  qed
qed

lemma boot_scan_complete:
  assumes "unat max_pfn \<le> 2 ^ 20" and "0 < unat n" and "unat n \<le> 2 ^ 20"
    and "i \<le> max_pfn" and "area \<longrightarrow> start \<le> i \<and> unat i < unat start + unat n"
    and "unat (if area then start else i) \<le> s" and "s + unat n \<le> unat max_pfn"
    and "free_run bits s (unat n)"
  shows "\<exists>s. boot_scan bits max_pfn n i area start = Inl s"
  using assms
proof (induction bits max_pfn n i area start rule: boot_scan.induct)
  case (1 bits max_pfn n i area start)
  have lt: "i < max_pfn"
    using "1.prems" by (cases area) (auto simp: word_less_nat_alt word_le_nat_alt)
  have inc: "unat (i + 1) = unat i + 1" using unat_inc [OF lt] .
  have next_le: "i + 1 \<le> max_pfn" using lt by (simp add: word_le_nat_alt word_less_nat_alt inc)
  show ?case
  proof (cases "bits ! unat i")
    case True
    then have "unat i < s"
      using "1.prems"(2,5-8) unfolding free_run_def
      by (cases area) (auto simp: word_le_nat_alt not_le dest!: spec [of _ "unat i"])
    then show ?thesis
      using "1.IH"(2) [OF lt] True "1.prems"(1-3,7,8) lt next_le inc by (subst boot_scan.simps) simp
  next
    case False
    define st where "st = (if \<not> area then i else start)"
    show ?thesis
    proof (cases "i - st + 1 = n")
      case True
      then show ?thesis using lt False by (subst boot_scan.simps) (simp add: st_def [symmetric] Let_def)
    next
      case neq: False
      have le: "st \<le> i" "unat i < unat st + unat n" using "1.prems"(2,5) by (auto simp: st_def)
      have d: "unat (i - st + 1) = unat i - unat st + 1"
        using unat_inc [of "i - st" max_pfn] unat_minus_no_wrap [OF le(1)] lt
        by (auto simp: word_less_nat_alt)
      have "unat i - unat st + 1 \<noteq> unat n" using neq d by (auto simp: word_unat_eq_iff)
      then have lt': "unat (i + 1) < unat st + unat n" using le inc by (simp add: word_le_nat_alt)
      have "st \<le> i + 1" using le(1) inc by (simp add: word_le_nat_alt)
      moreover have "unat st \<le> s" using "1.prems"(6) by (auto simp: st_def split: if_splits)
      ultimately show ?thesis
        using "1.IH"(1) [OF lt _ st_def] False neq lt lt' "1.prems"(1-3,6-8) next_le
        by (subst boot_scan.simps) (auto simp: st_def [symmetric] Let_def split: if_splits)
    qed
  qed
qed

section \<open>Allocations do not overlap\<close>

text \<open>
  The invariant of the allocator. \<open>boot_used b U\<close> says that the set \<open>U\<close> of bytes in use lies
  in reserved pages and, in the page where the last allocation ended, below its end.
\<close>

definition boot_wf :: "bootmem \<Rightarrow> bool" where
  "boot_wf b \<longleftrightarrow>
     unat (max_low_pfn b) \<le> length (boot_bits b) \<and> unat (max_low_pfn b) \<le> 2 ^ 20 \<and>
     unat (last_offset b) < 4096 \<and>
     (last_offset b \<noteq> 0 \<longrightarrow> last_pos b < max_low_pfn b \<and> boot_bits b ! unat (last_pos b))"

definition boot_used :: "bootmem \<Rightarrow> nat set \<Rightarrow> bool" where
  "boot_used b U \<longleftrightarrow>
     (\<forall>a\<in>U. a div 4096 < unat (max_low_pfn b) \<longrightarrow> boot_bits b ! (a div 4096)) \<and>
     (last_offset b \<noteq> 0 \<longrightarrow>
        (\<forall>a\<in>U. a div 4096 = unat (last_pos b) \<longrightarrow> a mod 4096 < unat (last_offset b)))"

definition pages_for :: "nat \<Rightarrow> nat" where
  "pages_for n = (n + 4095) div 4096"

lemma unat_div_page: "unat ((x :: ulong) div PAGE_SIZE) = unat x div 4096"
  by (simp add: unat_div_distrib PAGE_SIZE_def)

lemma unat_page_count:
  assumes "unat sz + 4095 < 2 ^ 32"
  shows "unat ((sz + PAGE_SIZE - 1) div PAGE_SIZE) = pages_for (unat sz)"
proof -
  have "sz + PAGE_SIZE - 1 = sz + 4095" by (simp add: PAGE_SIZE_def)
  moreover have "unat (sz + 4095) = unat sz + 4095"
    using assms by (subst unat_plus_no_wrap) simp_all
  ultimately show ?thesis by (simp only: unat_div_page pages_for_def)
qed

lemma unat_and_not_PAGE_MASK: "unat (x AND NOT PAGE_MASK) = unat x mod 4096"
  by (simp only: PAGE_MASK_mask bit.double_compl unat_and_mask) (simp add: PAGE_SHIFT_def)

lemma unat_align_up:
  assumes "k \<le> 12" and "unat x < 4096"
  shows "unat ((x + 2 ^ k - 1) AND NOT (2 ^ k - 1) :: ulong) = (unat x + 2 ^ k - 1) div 2 ^ k * 2 ^ k"
proof (rule unat_round_up)
  have "(2 :: nat) ^ k \<le> 2 ^ 12" using assms(1) by (intro power_increasing) auto
  then show "unat x + 2 ^ k \<le> 2 ^ 32" using assms(2) by simp
qed (use assms(1) in simp)

lemma align_up_bounds:
  fixes lo :: nat
  assumes "k \<le> 12" and "lo < 4096"
  shows "lo \<le> (lo + 2 ^ k - 1) div 2 ^ k * 2 ^ k" and "(lo + 2 ^ k - 1) div 2 ^ k * 2 ^ k \<le> 4096"
proof -
  have "2 ^ k dvd (4096 :: nat)" using assms(1) le_imp_power_dvd [of k 12 "2 :: nat"] by simp
  then show "(lo + 2 ^ k - 1) div 2 ^ k * 2 ^ k \<le> 4096"
    using assms(2) by (intro round_up_least) simp_all
qed (rule round_up_above, simp)

lemma boot_find_sound:
  assumes "boot_wf b" and "0 < unat n" and "unat n \<le> 2 ^ 20" and "pref < max_low_pfn b \<or> pref = 0"
    and "boot_find n pref b = Some s"
  shows "unat s + unat n \<le> unat (max_low_pfn b)" and "free_run (boot_bits b) (unat s) (unat n)"
proof -
  let ?B = "boot_bits b" and ?m = "max_low_pfn b"
  have m: "unat ?m \<le> 2 ^ 20" using assms(1) by (simp add: boot_wf_def)
  have "pref \<le> ?m" using assms(4) by auto
  then have first: "case boot_scan ?B ?m n pref False 0 of
      Inl s \<Rightarrow> unat s + unat n \<le> unat ?m \<and> free_run ?B (unat s) (unat n)
    | Inr (area', start') \<Rightarrow> scan_state ?B ?m 0 area' start'"
    by (intro boot_scan_sound m assms(2,3)) (simp_all add: scan_state_def)
  have "unat s + unat n \<le> unat ?m \<and> free_run ?B (unat s) (unat n)"
  proof (cases "boot_scan ?B ?m n pref False 0")
    case (Inl s')
    then show ?thesis using first assms(5) by (simp add: boot_find_def)
  next
    case (Inr r)
    obtain area start where r: "r = (area, start)" by fastforce
    then have "scan_state ?B ?m 0 area start" using Inr first by simp
    from boot_scan_sound [OF m assms(2,3) this]
    show ?thesis
      using assms(5) Inr r by (auto simp: boot_find_def split: if_splits sum.splits)
  qed
  then show "unat s + unat n \<le> unat ?m" and "free_run ?B (unat s) (unat n)" by simp_all
qed

lemma boot_find_complete:
  assumes "boot_wf b" and "0 < unat n" and "unat n \<le> 2 ^ 20"
    and "unat pref \<le> s" and "s + unat n \<le> unat (max_low_pfn b)"
    and "free_run (boot_bits b) s (unat n)"
  shows "\<exists>s'. boot_find n pref b = Some s'"
proof -
  have "pref \<le> max_low_pfn b" using assms(4,5) by (simp add: word_le_nat_alt)
  then obtain s' where "boot_scan (boot_bits b) (max_low_pfn b) n pref False 0 = Inl s'"
    using boot_scan_complete [of "max_low_pfn b" n pref False 0 s "boot_bits b"] assms
    by (auto simp: boot_wf_def)
  then show ?thesis by (simp add: boot_find_def)
qed

text \<open>
  What a placement promises: every byte of the new area lies in the unused rest of the page
  where the previous allocation ended or in one of the \<open>n\<close> pages from \<open>st\<close> on, and
  \<open>last_pos\<close> and \<open>last_offset\<close> mark its end when it ends inside a page.
\<close>

definition placement :: "bootmem \<Rightarrow> nat \<Rightarrow> nat \<Rightarrow> nat \<Rightarrow> nat \<Rightarrow> bootmem \<Rightarrow> bool" where
  "placement b st n pa sz b1 \<longleftrightarrow>
     boot_bits b1 = boot_bits b \<and> max_low_pfn b1 = max_low_pfn b \<and>
     (\<forall>a. pa \<le> a \<and> a < pa + sz \<longrightarrow>
        (last_offset b \<noteq> 0 \<and> a div 4096 = unat (last_pos b) \<and> unat (last_offset b) \<le> a mod 4096) \<or>
        (st \<le> a div 4096 \<and> a div 4096 < st + n)) \<and>
     unat (last_offset b1) < 4096 \<and>
     (last_offset b1 \<noteq> 0 \<longrightarrow>
        pa + sz = unat (last_pos b1) * 4096 + unat (last_offset b1) \<and>
        (last_offset b \<noteq> 0 \<and> last_pos b1 = last_pos b \<and> last_offset b \<le> last_offset b1 \<or>
         st \<le> unat (last_pos b1) \<and> unat (last_pos b1) < st + n))"

lemma pages_for_cases:
  obtains (whole) q where "n = q * 4096" and "pages_for n = q"
  | (partial) q r where "n = q * 4096 + r" and "0 < r" and "r < 4096" and "pages_for n = q + 1"
proof (cases "n mod 4096 = 0")
  case True
  then show thesis using whole [of "n div 4096"] by (auto simp: pages_for_def)
next
  case False
  define q r where "q = n div 4096" and "r = n mod 4096"
  have n: "n = q * 4096 + r" and r: "0 < r" "r < 4096" using False by (simp_all add: q_def r_def)
  have "pages_for n = q + (r + 4095) div 4096" by (simp add: pages_for_def n)
  also have "(r + 4095) div 4096 = 1" using r by (intro div_nat_eqI) simp_all
  finally show thesis using partial n r by blast
qed

lemma pages_for_bounds: "n \<le> pages_for n * 4096"
    "n mod 4096 \<noteq> 0 \<Longrightarrow> n = (pages_for n - 1) * 4096 + n mod 4096 \<and> 0 < pages_for n"
  by (cases n rule: pages_for_cases; simp)+

lemma page_of_range:
  "(s :: nat) * 4096 \<le> a \<Longrightarrow> a < s * 4096 + n \<Longrightarrow> s \<le> a div 4096 \<and> a div 4096 < s + pages_for n"
  using pages_for_bounds(1) [of n]
  by (simp add: less_eq_div_iff_mult_less_eq div_less_iff_less_mult add_mult_distrib)

lemma placement_fresh:
  assumes wf: "boot_wf b" and sz: "0 < sz" "unat sz + 4095 < 2 ^ 32"
    and n: "unat n = pages_for (unat sz)" and st: "unat st + unat n \<le> unat (max_low_pfn b)"
    and b1: "b1 = b\<lparr>last_pos := st + n - 1, last_offset := sz AND NOT PAGE_MASK\<rparr>"
  shows "placement b (unat st) (unat n) (unat (st * PAGE_SIZE)) (unat sz) b1"
    and "unat (st * PAGE_SIZE) = unat st * 4096"
proof -
  have m: "unat (max_low_pfn b) \<le> 2 ^ 20" using wf by (simp add: boot_wf_def)
  have n0: "0 < unat n" using n sz(1) by (simp add: pages_for_def word_less_nat_alt)
  have "unat st * 4096 < 2 ^ 32" using st n0 m by simp
  then show pa: "unat (st * PAGE_SIZE) = unat st * 4096" by (simp add: unat_word_ariths)
  have sum: "unat (st + n) = unat st + unat n" using st m by (intro unat_plus_no_wrap) simp
  have "1 \<le> st + n" using sum n0 by (simp add: word_le_nat_alt)
  then have last: "unat (st + n - 1) = unat st + unat n - 1" using sum by (simp add: unat_minus_no_wrap)
  show "placement b (unat st) (unat n) (unat (st * PAGE_SIZE)) (unat sz) b1"
    unfolding placement_def pa
  proof (intro conjI allI impI)
    fix a
    assume "unat st * 4096 \<le> a \<and> a < unat st * 4096 + unat sz"
    then show "last_offset b \<noteq> 0 \<and> a div 4096 = unat (last_pos b) \<and>
        unat (last_offset b) \<le> a mod 4096 \<or> unat st \<le> a div 4096 \<and> a div 4096 < unat st + unat n"
      using page_of_range [of "unat st" a "unat sz"] n by simp
  next
    assume "last_offset b1 \<noteq> 0"
    then have "unat sz mod 4096 \<noteq> 0"
      using unat_and_not_PAGE_MASK [of sz] by (simp add: b1 word_unat_eq_iff)
    then show "unat st * 4096 + unat sz = unat (last_pos b1) * 4096 + unat (last_offset b1)"
      using pages_for_bounds(2) [of "unat sz"] n n0 last unat_and_not_PAGE_MASK [of sz]
      by (simp add: b1 word_less_nat_alt algebra_simps)
    show "last_offset b \<noteq> 0 \<and> last_pos b1 = last_pos b \<and> last_offset b \<le> last_offset b1 \<or>
        unat st \<le> unat (last_pos b1) \<and> unat (last_pos b1) < unat st + unat n"
      using last n0 by (auto simp: b1)
  qed (simp_all add: b1 unat_and_not_PAGE_MASK)
qed

lemma placement_rest:
  assumes wf: "boot_wf b" and lo: "last_offset b \<noteq> 0"
    and off: "unat (last_offset b) \<le> unat off" "unat off \<le> 4096"
    and sz: "sz < PAGE_SIZE - off"
    and b1: "b1 = b\<lparr>last_offset := (off + sz) AND NOT PAGE_MASK\<rparr>"
  shows "placement b st 0 (unat (last_pos b * PAGE_SIZE + off)) (unat sz) b1"
    and "unat (last_pos b * PAGE_SIZE + off) = unat (last_pos b) * 4096 + unat off"
proof -
  have m: "unat (last_pos b) < 2 ^ 20" using wf lo by (simp add: boot_wf_def word_less_nat_alt)
  have mul: "unat (last_pos b * PAGE_SIZE) = unat (last_pos b) * 4096"
    using m by (simp add: unat_word_ariths)
  have "off \<le> PAGE_SIZE" using off(2) by (simp add: word_le_nat_alt)
  then have "unat (PAGE_SIZE - off) = 4096 - unat off" by (simp add: unat_minus_no_wrap)
  then have fit: "unat off + unat sz < 4096" using sz by (simp add: word_less_nat_alt)
  then show pa: "unat (last_pos b * PAGE_SIZE + off) = unat (last_pos b) * 4096 + unat off"
    using m mul by (subst unat_plus_no_wrap) simp_all
  have "unat (off + sz) = unat off + unat sz" using fit by (intro unat_plus_no_wrap) simp
  then have new: "unat (last_offset b1) = unat off + unat sz"
    using fit by (simp add: b1 unat_and_not_PAGE_MASK)
  have "a div 4096 = unat (last_pos b) \<and> unat (last_offset b) \<le> a mod 4096"
    if a: "unat (last_pos b) * 4096 + unat off \<le> a"
      "a < unat (last_pos b) * 4096 + unat off + unat sz" for a
  proof -
    define d where "d = a - unat (last_pos b) * 4096"
    have "a = unat (last_pos b) * 4096 + d" "unat off \<le> d" "d < 4096"
      using a fit by (auto simp: d_def)
    then show ?thesis using off(1) by simp
  qed
  then show "placement b st 0 (unat (last_pos b * PAGE_SIZE + off)) (unat sz) b1"
    unfolding placement_def pa using lo new fit off(1) by (auto simp: b1 word_le_nat_alt)
qed

lemma placement_merge:
  assumes wf: "boot_wf b" and lo: "last_offset b \<noteq> 0" "last_pos b + 1 = st"
    and off: "unat (last_offset b) \<le> unat off" "unat off \<le> 4096"
    and sz: "\<not> sz < PAGE_SIZE - off" "unat sz + 4095 < 2 ^ 32" "0 < unat sz"
    and rem: "rem = sz - (PAGE_SIZE - off)" and n: "n = (rem + PAGE_SIZE - 1) div PAGE_SIZE"
    and st: "unat st + pages_for (unat sz) \<le> unat (max_low_pfn b)"
    and b1: "b1 = b\<lparr>last_pos := st + n - 1, last_offset := rem AND NOT PAGE_MASK\<rparr>"
  shows "placement b (unat st) (unat n) (unat (last_pos b * PAGE_SIZE + off)) (unat sz) b1"
    and "unat n \<le> pages_for (unat sz)"
    and "unat (last_pos b * PAGE_SIZE + off) = unat (last_pos b) * 4096 + unat off"
proof -
  have m: "last_pos b < max_low_pfn b" "unat (max_low_pfn b) \<le> 2 ^ 20"
    using wf lo by (simp_all add: boot_wf_def)
  have stn: "unat st = unat (last_pos b) + 1" using unat_inc [OF m(1)] lo(2) by auto
  have "0 < pages_for (unat sz)" using sz(3) by (simp add: pages_for_def)
  then have lp: "unat (last_pos b) + 1 < 2 ^ 20" using st stn m(2) by linarith
  have mul: "unat (last_pos b * PAGE_SIZE) = unat (last_pos b) * 4096"
    using lp by (simp add: unat_word_ariths)
  then show pa: "unat (last_pos b * PAGE_SIZE + off) = unat (last_pos b) * 4096 + unat off"
    using lp off(2) by (subst unat_plus_no_wrap) simp_all
  have "off \<le> PAGE_SIZE" using off(2) by (simp add: word_le_nat_alt)
  then have gap: "unat (PAGE_SIZE - off) = 4096 - unat off" by (simp add: unat_minus_no_wrap)
  then have r: "unat rem = unat sz - (4096 - unat off)" "4096 - unat off \<le> unat sz"
    using sz(1) unfolding rem by (simp_all add: unat_minus_no_wrap word_le_nat_alt not_less)
  have nn: "unat n = pages_for (unat rem)" unfolding n using r sz(2) by (intro unat_page_count) simp
  then show le: "unat n \<le> pages_for (unat sz)"
    using r by (auto simp: pages_for_def intro: div_le_mono)
  have sum: "unat (st + n) = unat st + unat n" using st le m(2) by (intro unat_plus_no_wrap) simp
  then have "1 \<le> st + n" using stn by (simp add: word_le_nat_alt)
  then have last: "unat (st + n - 1) = unat st + unat n - 1" using sum by (simp add: unat_minus_no_wrap)
  show "placement b (unat st) (unat n) (unat (last_pos b * PAGE_SIZE + off)) (unat sz) b1"
    unfolding placement_def pa
  proof (intro conjI allI impI)
    fix a
    assume a: "unat (last_pos b) * 4096 + unat off \<le> a \<and>
      a < unat (last_pos b) * 4096 + unat off + unat sz"
    show "last_offset b \<noteq> 0 \<and> a div 4096 = unat (last_pos b) \<and>
        unat (last_offset b) \<le> a mod 4096 \<or> unat st \<le> a div 4096 \<and> a div 4096 < unat st + unat n"
    proof (cases "a < unat st * 4096")
      case True
      define d where "d = a - unat (last_pos b) * 4096"
      have "a = unat (last_pos b) * 4096 + d" "unat off \<le> d" "d < 4096"
        using a True stn by (auto simp: d_def)
      then show ?thesis using off(1) lo(1) by simp
    next
      case False
      then have "unat st * 4096 \<le> a" "a < unat st * 4096 + unat rem"
        using a r stn off(2) by auto
      then show ?thesis using page_of_range nn by simp
    qed
  next
    assume "last_offset b1 \<noteq> 0"
    then have "unat rem mod 4096 \<noteq> 0"
      using unat_and_not_PAGE_MASK [of rem] by (simp add: b1 word_unat_eq_iff)
    note end_pos = pages_for_bounds(2) [OF this, folded nn]
    have "unat (last_pos b) * 4096 + unat off + unat sz = unat st * 4096 + unat rem"
      using r stn off(2) by simp
    then show "unat (last_pos b) * 4096 + unat off + unat sz =
        unat (last_pos b1) * 4096 + unat (last_offset b1)"
      using end_pos last unat_and_not_PAGE_MASK [of rem] stn by (auto simp: b1 diff_mult_distrib)
    show "last_offset b \<noteq> 0 \<and> last_pos b1 = last_pos b \<and> last_offset b \<le> last_offset b1 \<or>
        unat st \<le> unat (last_pos b1) \<and> unat (last_pos b1) < unat st + unat n"
      using last end_pos by (auto simp: b1)
  qed (simp_all add: b1 unat_and_not_PAGE_MASK)
qed

lemma boot_place_correct:
  assumes wf: "boot_wf b" and k: "k \<le> 12" and sz: "0 < sz" "unat sz + 4095 < 2 ^ 32"
    and n: "unat n = pages_for (unat sz)" and st: "unat st + unat n \<le> unat (max_low_pfn b)"
  shows "\<exists>b1 pa m. boot_place sz (2 ^ k) st n b = Done (b1, pa, m) \<and> unat m \<le> unat n \<and>
    2 ^ k dvd unat pa \<and> placement b (unat st) (unat m) (unat pa) (unat sz) b1"
proof (cases "last_offset b \<noteq> 0 \<and> last_pos b + 1 = st")
  case False
  have "(2 :: nat) ^ k dvd 4096" using k le_imp_power_dvd [of k 12 "2 :: nat"] by simp
  then have "2 ^ k dvd unat st * 4096" by simp
  then show ?thesis
    using placement_fresh [OF wf sz n st refl] False by (auto simp: boot_place_def)
next
  case True
  let ?lo = "last_offset b"
  define off where "off = (?lo + 2 ^ k - 1) AND NOT (2 ^ k - 1)"
  have lo: "unat ?lo < 4096" using wf by (simp add: boot_wf_def)
  have o: "unat off = (unat ?lo + 2 ^ k - 1) div 2 ^ k * 2 ^ k"
    unfolding off_def using unat_align_up [OF k lo] .
  have ob: "unat ?lo \<le> unat off" "unat off \<le> 4096" using align_up_bounds [OF k lo] o by simp_all
  have "2 ^ k dvd unat off" "(2 :: nat) ^ k dvd 4096"
    using o k le_imp_power_dvd [of k 12 "2 :: nat"] by simp_all
  then have al: "2 ^ k dvd unat (last_pos b) * 4096 + unat off" by simp
  have nb: "\<not> PAGE_SIZE < off" using ob by (simp add: word_less_nat_alt)
  then have "unat (PAGE_SIZE - off) = 4096 - unat off" by (simp add: unat_minus_no_wrap not_less)
  then have nb': "\<not> PAGE_SIZE < PAGE_SIZE - off" by (simp add: word_less_nat_alt)
  show ?thesis
  proof (cases "sz < PAGE_SIZE - off")
    case fits: True
    have "boot_place sz (2 ^ k) st n b = Done (b\<lparr>last_offset := (off + sz) AND NOT PAGE_MASK\<rparr>,
        last_pos b * PAGE_SIZE + off, 0)"
      using True nb nb' fits unfolding boot_place_def off_def [symmetric] Let_def by simp
    then show ?thesis
      using placement_rest(1) [OF wf _ ob fits refl, of "unat st"]
        placement_rest(2) [OF wf _ ob fits refl] True al by auto
  next
    case over: False
    let ?rem = "sz - (PAGE_SIZE - off)"
    let ?n = "(?rem + PAGE_SIZE - 1) div PAGE_SIZE"
    have "boot_place sz (2 ^ k) st n b = Done (b\<lparr>last_pos := st + ?n - 1,
        last_offset := ?rem AND NOT PAGE_MASK\<rparr>, last_pos b * PAGE_SIZE + off, ?n)"
      using True nb nb' over unfolding boot_place_def off_def [symmetric] Let_def by simp
    then show ?thesis
      using placement_merge [OF wf _ _ ob over sz(2) _ refl refl _ refl] True al n st sz(1)
      by (auto simp: word_less_nat_alt)
  qed
qed

text \<open>A placement in free pages keeps the invariant and touches no byte in use.\<close>

lemma placement_safe:
  assumes wf: "boot_wf b" and used: "boot_used b U" and p: "placement b st n pa sz b1"
    and st: "st + n \<le> unat (max_low_pfn b)" and free: "free_run (boot_bits b) st n"
    and bits: "length bits = length (boot_bits b)"
      "\<forall>p<length (boot_bits b). bits ! p \<longleftrightarrow> boot_bits b ! p \<or> (st \<le> p \<and> p < st + n)"
    and b2: "b2 = b1\<lparr>boot_bits := bits, boot_zeroed := z\<rparr>"
  shows "boot_wf b2" and "boot_used b2 (U \<union> {pa ..< pa + sz})" and "U \<inter> {pa ..< pa + sz} = {}"
    and "\<forall>a. pa \<le> a \<and> a < pa + sz \<longrightarrow> a div 4096 < unat (max_low_pfn b)"
proof -
  let ?m = "unat (max_low_pfn b)"
  have len: "?m \<le> length (boot_bits b)" and lo: "unat (last_offset b) < 4096"
    and lp: "last_offset b \<noteq> 0 \<longrightarrow> unat (last_pos b) < ?m \<and> boot_bits b ! unat (last_pos b)"
    using wf by (auto simp: boot_wf_def word_less_nat_alt)
  have none: "\<not> boot_bits b ! q" if "st \<le> q" "q < st + n" for q
    using free that by (simp add: free_run_def)
  have U: "\<not> (st \<le> a div 4096 \<and> a div 4096 < st + n)" if "a \<in> U" for a
    using used that none st unfolding boot_used_def by auto
  note P = p [unfolded placement_def]
  have set2: "bits ! q" if "boot_bits b ! q \<or> (st \<le> q \<and> q < st + n)" "q < ?m" for q
    using bits(2) that len by auto
  have new: "a div 4096 < ?m \<and> bits ! (a div 4096)" if "pa \<le> a" "a < pa + sz" for a
    using P that set2 lp st by fastforce
  then show "\<forall>a. pa \<le> a \<and> a < pa + sz \<longrightarrow> a div 4096 < ?m" by blast
  have end_in: "unat (last_pos b1) < ?m \<and> bits ! unat (last_pos b1)" if "last_offset b1 \<noteq> 0"
    using P that set2 lp st by fastforce
  then show "boot_wf b2"
    using wf P bits(1) by (auto simp: b2 boot_wf_def word_less_nat_alt)
  show "U \<inter> {pa ..< pa + sz} = {}"
    using P U used unfolding boot_used_def by fastforce
  have "a mod 4096 < unat (last_offset b1)"
    if "last_offset b1 \<noteq> 0" "a \<in> U \<union> {pa ..< pa + sz}" "a div 4096 = unat (last_pos b1)" for a
  proof (cases "a \<in> U")
    case True
    then have "last_offset b \<noteq> 0 \<and> last_pos b1 = last_pos b \<and> last_offset b \<le> last_offset b1"
      using P U [OF True] that by auto
    then show ?thesis using used True that unfolding boot_used_def
      by (auto simp: word_le_nat_alt)
  next
    case False
    then have "a < unat (last_pos b1) * 4096 + unat (last_offset b1)" using P that by auto
    then show ?thesis using that(3) by (metis add_less_cancel_left div_mult_mod_eq)
  qed
  then show "boot_used b2 (U \<union> {pa ..< pa + sz})"
    using used new set2 P unfolding boot_used_def b2 by auto
qed

lemma alloc_found:
  assumes wf: "boot_wf b" and used: "boot_used b U" and k: "k \<le> 12"
    and sz: "0 < sz" "unat sz \<le> 2 ^ 31"
    and found: "boot_find ((sz + PAGE_SIZE - 1) div PAGE_SIZE) (preferred_pfn goal b) b = Some st"
  shows "\<exists>b' pa. alloc_bootmem_goal sz (2 ^ k) goal b = Done (b', phys_to_virt pa) \<and>
    boot_wf b' \<and> boot_used b' (U \<union> {unat pa ..< unat pa + unat sz}) \<and>
    U \<inter> {unat pa ..< unat pa + unat sz} = {} \<and> 2 ^ k dvd unat pa \<and>
    (\<forall>a. unat pa \<le> a \<and> a < unat pa + unat sz \<longrightarrow> a div 4096 < unat (max_low_pfn b)) \<and>
    max_low_pfn b' = max_low_pfn b"
proof -
  let ?n = "(sz + PAGE_SIZE - 1) div PAGE_SIZE"
  have n: "unat ?n = pages_for (unat sz)" using sz(2) by (intro unat_page_count) simp
  have n0: "0 < unat ?n" "unat ?n \<le> 2 ^ 20"
    using sz unfolding n pages_for_def by (simp_all add: word_less_nat_alt div_le_mono [of _ "2 ^ 32"])
  have pref: "preferred_pfn goal b < max_low_pfn b \<or> preferred_pfn goal b = 0"
    by (auto simp: preferred_pfn_def Let_def)
  note f = boot_find_sound [OF wf n0 pref found]
  obtain b1 pa m where pl: "boot_place sz (2 ^ k) st ?n b = Done (b1, pa, m)" "unat m \<le> unat ?n"
    "2 ^ k dvd unat pa" "placement b (unat st) (unat m) (unat pa) (unat sz) b1"
    using boot_place_correct [OF wf k sz(1) _ n f(1)] sz(2) by auto
  have mb: "unat (max_low_pfn b) \<le> 2 ^ 20" "unat (max_low_pfn b) \<le> length (boot_bits b)"
    using wf by (simp_all add: boot_wf_def)
  have e: "unat (st + m) = unat st + unat m" using f(1) pl(2) mb by (intro unat_plus_no_wrap) simp
  have free: "free_run (boot_bits b) (unat st) (unat m)"
    using f(2) pl(2) by (simp add: free_run_def)
  have same: "boot_bits b1 = boot_bits b" "max_low_pfn b1 = max_low_pfn b"
    using pl(4) by (simp_all add: placement_def)
  obtain bits where bits: "reserve_loop st (st + m) (boot_bits b1) = Done bits"
    "length bits = length (boot_bits b)"
    "\<forall>p<length (boot_bits b). bits ! p \<longleftrightarrow> boot_bits b ! p \<or> (unat st \<le> p \<and> p < unat st + unat m)"
    using reserve_loop_correct [of "st + m" "boot_bits b1" st] same e f(1) pl(2) mb free
    by (auto simp: free_run_def)
  have "\<not> max_low_pfn b \<le> st" using f(1) n0 by (simp add: word_le_nat_alt)
  then have "alloc_bootmem_goal sz (2 ^ k) goal b = Done (b1\<lparr>boot_bits := bits,
      boot_zeroed := (phys_to_virt pa, sz) # boot_zeroed b1\<rparr>, phys_to_virt pa)"
    using sz(1) found pl(1) bits(1) by (simp add: alloc_bootmem_goal_def Let_def)
  moreover have "unat st + unat m \<le> unat (max_low_pfn b)" using f(1) pl(2) by simp
  ultimately show ?thesis
    using placement_safe [OF wf used pl(4) _ free bits(2,3) refl] pl(3) same by auto
qed

text \<open>
  C29: A boot-time allocation whose pages are available at or above its goal succeeds: it
  returns an area of the requested size and alignment that lies in the managed memory and
  overlaps no byte in use, the area is in use afterwards, and the allocator's invariant holds
  again, so no later allocation overlaps it.
\<close>

theorem alloc_bootmem_correct:
  assumes "boot_wf b" and "boot_used b U" and "k \<le> 12" and "0 < sz" and "unat sz \<le> 2 ^ 31"
    and "unat (preferred_pfn goal b) \<le> s" and "s + pages_for (unat sz) \<le> unat (max_low_pfn b)"
    and "free_run (boot_bits b) s (pages_for (unat sz))"
  shows "\<exists>b' pa. alloc_bootmem_goal sz (2 ^ k) goal b = Done (b', phys_to_virt pa) \<and>
    boot_wf b' \<and> boot_used b' (U \<union> {unat pa ..< unat pa + unat sz}) \<and>
    U \<inter> {unat pa ..< unat pa + unat sz} = {} \<and> 2 ^ k dvd unat pa \<and>
    (\<forall>a. unat pa \<le> a \<and> a < unat pa + unat sz \<longrightarrow> a div 4096 < unat (max_low_pfn b)) \<and>
    max_low_pfn b' = max_low_pfn b"
proof -
  let ?n = "(sz + PAGE_SIZE - 1) div PAGE_SIZE"
  have n: "unat ?n = pages_for (unat sz)" using assms(5) by (intro unat_page_count) simp
  have "0 < unat ?n" "unat ?n \<le> 2 ^ 20"
    using assms(4,5) unfolding n pages_for_def
    by (simp_all add: word_less_nat_alt div_le_mono [of _ "2 ^ 32"])
  then obtain st where "boot_find ?n (preferred_pfn goal b) b = Some st"
    using boot_find_complete [OF assms(1), of ?n] assms(6-8) n by auto
  then show ?thesis by (rule alloc_found [OF assms(1-5)])
qed

definition example_boot :: bootmem where
  "example_boot = \<lparr>max_low_pfn = 10, bootmem_map = 0xC0001000,
     boot_bits = [True, True, False, False, False, False, False, False, True, True,
                  True, True, True, True, True, True],
     last_pos = 1, last_offset = 100, boot_zeroed = []\<rparr>"

lemma example_boot_used: "boot_used example_boot {0 ..< 4196}"
proof -
  have "example_bits ! (a div 4096)" if "a < 4196" "example_bits = boot_bits example_boot" for a example_bits
  proof -
    have "a div 4096 < 2" using that(1) by (simp add: div_less_iff_less_mult)
    then show ?thesis using that(2) by (cases "a div 4096 = 0") (auto simp: example_boot_def less_2_cases_iff)
  qed
  moreover have "a mod 4096 < 100" if "a < 4196" "a div 4096 = 1" for a :: nat
  proof -
    have "a = a div 4096 * 4096 + a mod 4096" by simp
    then show ?thesis using that by linarith
  qed
  ultimately show ?thesis by (auto simp: boot_used_def example_boot_def)
qed

theorem alloc_bootmem_correct_witness:
  "\<exists>b' pa. alloc_bootmem_goal 9000 (2 ^ 5) 0 example_boot = Done (b', phys_to_virt pa) \<and>
    boot_wf b' \<and> {0 ..< 4196} \<inter> {unat pa ..< unat pa + 9000} = {}"
proof -
  have wf: "boot_wf example_boot" by (simp add: boot_wf_def example_boot_def)
  have run: "free_run (boot_bits example_boot) 2 (pages_for (unat (9000 :: ulong)))"
    unfolding free_run_def
  proof (intro allI impI)
    fix p
    assume "2 \<le> p \<and> p < 2 + pages_for (unat (9000 :: ulong))"
    then have "p = 2 \<or> p = 3 \<or> p = 4" by (auto simp: pages_for_def)
    then show "\<not> boot_bits example_boot ! p" by (auto simp: example_boot_def)
  qed
  have pref: "unat (preferred_pfn 0 example_boot) \<le> 2" by (simp add: preferred_pfn_def)
  show ?thesis
    using alloc_bootmem_correct [OF wf example_boot_used _ _ _ pref _ run, of 5]
    by (auto simp: pages_for_def example_boot_def)
qed

lemma boot_scan_all_free:
  assumes "\<forall>p. unat i \<le> p \<and> p < unat max_pfn \<longrightarrow> \<not> bits ! p"
    and "\<forall>j. i \<le> j \<and> j < max_pfn \<longrightarrow> j - (if area then start else i) + 1 \<noteq> n"
    and "area \<or> i < max_pfn"
  shows "boot_scan bits max_pfn n i area start = Inr (True, if area then start else i)"
  using assms
proof (induction bits max_pfn n i area start rule: boot_scan.induct)
  case (1 bits max_pfn n i area start)
  define st where "st = (if \<not> area then i else start)"
  show ?case
  proof (cases "i < max_pfn")
    case True
    have inc: "unat (i + 1) = unat i + 1" using unat_inc [OF True] .
    have free: "\<not> bits ! unat i" using 1(3) True by (simp add: word_less_nat_alt)
    have neq: "i - st + 1 \<noteq> n" using 1(4) True by (auto simp: st_def)
    have later: "j - st + 1 \<noteq> n" if "i + 1 \<le> j" "j < max_pfn" for j
      using 1(4) that inc by (auto simp: st_def word_le_nat_alt split: if_splits)
    have "boot_scan bits max_pfn n (i + 1) True st = Inr (True, st)"
      using "1.IH"(1) [OF True free st_def neq] 1(3) later inc by simp
    then show ?thesis
      using True free neq by (subst boot_scan.simps) (simp add: st_def [symmetric] Let_def, simp add: st_def)
  next
    case False
    then show ?thesis using 1(5) by (subst boot_scan.simps) simp
  qed
qed

text \<open>
  The scan that restarts at page 0 keeps the start of the run it was in at the end of
  memory. If every page is free but fewer than the requested number lie at or above the
  goal, the allocation stops with \<open>BUG()\<close>, however much memory is free below the goal.
\<close>

theorem alloc_bootmem_ignores_low_memory:
  assumes "boot_wf b" and "\<forall>p<unat (max_low_pfn b). \<not> boot_bits b ! p"
    and "preferred_pfn goal b \<noteq> 0" and "unat sz \<le> 2 ^ 31"
    and "unat (max_low_pfn b) < unat (preferred_pfn goal b) + pages_for (unat sz)"
  shows "alloc_bootmem_goal sz align goal b = Bug"
proof (cases "sz = 0")
  case False
  let ?n = "(sz + PAGE_SIZE - 1) div PAGE_SIZE" and ?g = "preferred_pfn goal b"
  let ?m = "max_low_pfn b"
  have n: "unat ?n = pages_for (unat sz)" using assms(4) by (intro unat_page_count) simp
  have m: "unat ?m \<le> 2 ^ 20" using assms(1) by (simp add: boot_wf_def)
  have n0: "0 < unat ?n" "unat ?n \<le> 2 ^ 20"
    using False assms(4) unfolding n pages_for_def
    by (simp_all add: word_unat_eq_iff div_le_mono [of _ "2 ^ 32"])
  have g: "?g < ?m" using assms(3) by (auto simp: preferred_pfn_def Let_def split: if_splits)
  have far: "j - ?g + 1 \<noteq> ?n" if "j < ?m" for j
  proof
    assume "j - ?g + 1 = ?n"
    then have "unat ?g + unat ?n = unat j + 1" by (rule scan_distance(2) [OF g that m _ n0])
    then show False using that n assms(5) by (simp add: word_less_nat_alt)
  qed
  have "boot_scan (boot_bits b) ?m ?n ?g False 0 = Inr (True, ?g)"
    using boot_scan_all_free [of ?g ?m "boot_bits b" False 0 ?n] assms(2) far g by simp
  moreover have "boot_scan (boot_bits b) ?m ?n 0 True ?g = Inr (True, ?g)"
    using boot_scan_all_free [of 0 ?m "boot_bits b" True ?g ?n] assms(2) far by simp
  ultimately have "boot_find ?n ?g b = None" by (simp add: boot_find_def)
  then show ?thesis by (simp add: alloc_bootmem_goal_def Let_def)
qed (simp add: alloc_bootmem_goal_def)

theorem alloc_bootmem_ignores_low_memory_witness:
  "alloc_bootmem_goal 12288 4096 0x8000
     \<lparr>max_low_pfn = 10, bootmem_map = 0xC0001000, boot_bits = replicate 16 False,
      last_pos = 0, last_offset = 0, boot_zeroed = []\<rparr> = Bug"
  by (rule alloc_bootmem_ignores_low_memory)
    (simp_all add: boot_wf_def preferred_pfn_def PAGE_SHIFT_def pages_for_def Let_def)

section \<open>Registering memory\<close>

definition page_bytes :: "nat \<Rightarrow> nat set" where
  "page_bytes p = {p * 4096 ..< (p + 1) * 4096}"

lemma page_touches:
  assumes "0 < (n :: nat)"
  shows "page_bytes p \<inter> {a ..< a + n} \<noteq> {} \<longleftrightarrow> a div 4096 \<le> p \<and> p < (a + n + 4095) div 4096"
proof -
  have "page_bytes p \<inter> {a ..< a + n} \<noteq> {} \<longleftrightarrow> max (p * 4096) a < min ((p + 1) * 4096) (a + n)"
    by (auto simp: page_bytes_def)
  also have "\<dots> \<longleftrightarrow> a < (p + 1) * 4096 \<and> p * 4096 + 4096 \<le> a + n + 4095"
    using assms by auto
  also have "\<dots> \<longleftrightarrow> a div 4096 < p + 1 \<and> p + 1 \<le> (a + n + 4095) div 4096"
    by (simp add: div_less_iff_less_mult less_eq_div_iff_mult_less_eq add_mult_distrib)
  finally show ?thesis by auto
qed

lemma page_inside:
  "page_bytes p \<subseteq> {a ..< a + n} \<longleftrightarrow> (a + 4095) div 4096 \<le> p \<and> p < (a + n) div 4096"
proof -
  have "page_bytes p \<subseteq> {a ..< a + n} \<longleftrightarrow> a \<le> p * 4096 \<and> (p + 1) * 4096 \<le> a + n"
    by (auto simp: page_bytes_def subset_eq dest: bspec [of _ _ "p * 4096"] bspec [of _ _ "p * 4096 + 4095"])
  also have "\<dots> \<longleftrightarrow> a + 4095 < (p + 1) * 4096 \<and> p + 1 \<le> (a + n) div 4096"
    by (auto simp: less_eq_div_iff_mult_less_eq)
  also have "\<dots> \<longleftrightarrow> (a + 4095) div 4096 < p + 1 \<and> p + 1 \<le> (a + n) div 4096"
    by (simp add: div_less_iff_less_mult)
  finally show ?thesis by auto
qed

lemma reserve_bootmem_range:
  assumes wf: "boot_wf b" and sz: "0 < sz" and nw: "unat addr + unat sz + 4095 < 2 ^ 32"
    and inside: "unat addr + unat sz \<le> unat (max_low_pfn b) * 4096"
    and free: "\<And>p. page_bytes p \<inter> {unat addr ..< unat addr + unat sz} \<noteq> {} \<Longrightarrow> \<not> boot_bits b ! p"
  shows "\<exists>bits. reserve_bootmem addr sz b = Done (b\<lparr>boot_bits := bits\<rparr>) \<and>
    length bits = length (boot_bits b) \<and>
    (\<forall>p<length bits. bits ! p \<longleftrightarrow>
       boot_bits b ! p \<or> page_bytes p \<inter> {unat addr ..< unat addr + unat sz} \<noteq> {})"
proof -
  define e where "e = (addr + sz + PAGE_SIZE - 1) div PAGE_SIZE"
  define s where "s = addr div PAGE_SIZE"
  have sum: "unat (addr + sz) = unat addr + unat sz" using nw by (intro unat_plus_no_wrap) simp
  then have e: "unat e = (unat addr + unat sz + 4095) div 4096"
    using unat_page_count [of "addr + sz"] nw by (simp only: pages_for_def e_def)
  have s: "unat s = unat addr div 4096" by (simp add: s_def unat_div_page)
  have n0: "0 < unat sz" using sz by (simp add: word_less_nat_alt)
  have "unat e \<le> unat (max_low_pfn b)"
    using inside div_le_mono [of "unat addr + unat sz + 4095" "unat (max_low_pfn b) * 4096 + 4095" 4096]
    by (simp add: e)
  then have le: "\<not> max_low_pfn b < e" "unat e \<le> length (boot_bits b)"
    using wf by (simp_all add: word_less_nat_alt boot_wf_def)
  obtain bits where "reserve_loop s e (boot_bits b) = Done bits"
    "length bits = length (boot_bits b)"
    "\<forall>p<length (boot_bits b). bits ! p \<longleftrightarrow>
       boot_bits b ! p \<or> (unat s \<le> p \<and> p < unat e)"
    using reserve_loop_correct [of e "boot_bits b" s] le free
    by (auto simp: page_touches [OF n0] e s)
  then show ?thesis
    using le sz unfolding reserve_bootmem_def Let_def e_def [symmetric] s_def [symmetric]
    by (auto simp: page_touches [OF n0] e s)
qed

lemma free_bootmem_range:
  assumes wf: "boot_wf b" and sz: "0 < sz" and nw: "unat addr + unat sz + 4095 < 2 ^ 32"
    and inside: "unat addr + unat sz \<le> unat (max_low_pfn b) * 4096"
    and used: "\<And>p. page_bytes p \<subseteq> {unat addr ..< unat addr + unat sz} \<Longrightarrow> boot_bits b ! p"
  shows "\<exists>bits. free_bootmem addr sz b = Done (b\<lparr>boot_bits := bits\<rparr>) \<and>
    length bits = length (boot_bits b) \<and>
    (\<forall>p<length bits. bits ! p \<longleftrightarrow>
       boot_bits b ! p \<and> \<not> page_bytes p \<subseteq> {unat addr ..< unat addr + unat sz})"
proof -
  let ?s = "(addr + PAGE_SIZE - 1) div PAGE_SIZE" and ?e = "(addr + sz) div PAGE_SIZE"
  have sum: "unat (addr + sz) = unat addr + unat sz" using nw by (intro unat_plus_no_wrap) simp
  then have e: "unat ?e = (unat addr + unat sz) div 4096" by (simp add: unat_div_page)
  have s: "unat ?s = (unat addr + 4095) div 4096"
    using unat_page_count [of addr] nw by (simp add: pages_for_def)
  have "unat ?e \<le> unat (max_low_pfn b)"
    using inside div_le_mono [of "unat addr + unat sz" "unat (max_low_pfn b) * 4096" 4096]
    by (simp add: e)
  then have le: "\<not> max_low_pfn b < ?e" "unat ?e \<le> length (boot_bits b)"
    using wf by (simp_all add: word_less_nat_alt boot_wf_def)
  obtain bits where "free_bits_loop ?s ?e (boot_bits b) = Done bits"
    "length bits = length (boot_bits b)"
    "\<forall>p<length (boot_bits b). bits ! p \<longleftrightarrow> boot_bits b ! p \<and> \<not> (unat ?s \<le> p \<and> p < unat ?e)"
    using free_bits_loop_correct [of ?e "boot_bits b" ?s] le used
    by (auto simp: page_inside e s)
  then show ?thesis
    using le sz by (auto simp: free_bootmem_def Let_def page_inside e s)
qed

text \<open>
  Registering memory rounds to the safe side. \<open>reserve_bootmem\<close> reserves exactly the
  pages that contain a byte of the range, and \<open>free_bootmem\<close> frees exactly the pages that lie
  in the range completely; no other page changes.
\<close>

theorem bootmem_ranges_correct:
  assumes "boot_wf b" and "0 < sz" and "unat addr + unat sz + 4095 < 2 ^ 32"
    and "unat addr + unat sz \<le> unat (max_low_pfn b) * 4096"
  shows "((\<forall>p. page_bytes p \<inter> {unat addr ..< unat addr + unat sz} \<noteq> {} \<longrightarrow> \<not> boot_bits b ! p) \<longrightarrow>
      (\<exists>bits. reserve_bootmem addr sz b = Done (b\<lparr>boot_bits := bits\<rparr>) \<and>
        length bits = length (boot_bits b) \<and>
        (\<forall>p<length bits. bits ! p \<longleftrightarrow>
           boot_bits b ! p \<or> page_bytes p \<inter> {unat addr ..< unat addr + unat sz} \<noteq> {}))) \<and>
    ((\<forall>p. page_bytes p \<subseteq> {unat addr ..< unat addr + unat sz} \<longrightarrow> boot_bits b ! p) \<longrightarrow>
      (\<exists>bits. free_bootmem addr sz b = Done (b\<lparr>boot_bits := bits\<rparr>) \<and>
        length bits = length (boot_bits b) \<and>
        (\<forall>p<length bits. bits ! p \<longleftrightarrow>
           boot_bits b ! p \<and> \<not> page_bytes p \<subseteq> {unat addr ..< unat addr + unat sz})))"
  by (intro conjI impI reserve_bootmem_range [OF assms] free_bootmem_range [OF assms]) simp_all

theorem bootmem_ranges_correct_witness:
  "(\<exists>bits. free_bootmem 100 9000 (snd (init_bootmem 1 3
      \<lparr>max_low_pfn = 0, bootmem_map = 0, boot_bits = [], last_pos = 0, last_offset = 0,
       boot_zeroed = []\<rparr>)) = Done bits) \<and> \<not> page_bytes 0 \<subseteq> {100 ..< 9100}"
proof -
  let ?b = "snd (init_bootmem 1 3 \<lparr>max_low_pfn = 0, bootmem_map = 0, boot_bits = [], last_pos = 0,
    last_offset = 0, boot_zeroed = []\<rparr>)"
  have m: "unat ((10 :: ulong) div 8) = 1" by (simp add: unat_div_distrib)
  have b: "max_low_pfn ?b = 3" "last_offset ?b = 0" "boot_bits ?b = replicate 8 True"
    by (simp_all add: init_bootmem_def Let_def m)
  have wf: "boot_wf ?b" by (simp add: boot_wf_def b)
  have "boot_bits ?b ! p" if "page_bytes p \<subseteq> {100 ..< 9100}" for p
  proof -
    have "p < 2" using that page_inside [of p 100 9000] by simp
    then show ?thesis by (simp add: b)
  qed
  then show ?thesis
    using bootmem_ranges_correct [OF wf, of 9000 100] page_inside [of 0 100 9000] by (auto simp: b)
qed

end
