(* ===== verification/Page_Zones.thy ===== *)
theory Page_Zones
  imports Page_Buddy Bootmem
begin

text \<open>
  The zone level of \<open>mm/page_alloc.c\<close>: the balancing of memory, \<open>__alloc_pages\<close>, the counters,
  \<open>build_zonelists\<close> and \<open>free_area_init\<close>, with the inline wrappers of \<open>include/linux/mm.h\<close>, in
  the configuration with \<open>CONFIG_HIGHMEM\<close>. A \<open>zone_t *\<close> is its index in \<open>zones\<close>. The two
  calls that leave the component, \<open>try_to_free_pages\<close> and \<open>schedule\<close>, are parameters.
\<close>

section \<open>State\<close>

definition MAX_NR_ZONES :: nat where
  "MAX_NR_ZONES = 3"

definition ZONE_DMA :: nat where
  "ZONE_DMA = 0"

definition ZONE_NORMAL :: nat where
  "ZONE_NORMAL = 1"

definition ZONE_HIGHMEM :: nat where
  "ZONE_HIGHMEM = 2"

definition NR_GFPINDEX :: nat where
  "NR_GFPINDEX = 0x100"

definition GFP_WAIT :: ulong where
  "GFP_WAIT = 0x01"

definition GFP_MED :: ulong where
  "GFP_MED = 0x04"

definition GFP_HIGH :: ulong where
  "GFP_HIGH = 0x08"

definition GFP_HIGHMEM :: ulong where
  "GFP_HIGHMEM = 0x40"

definition GFP_DMA :: ulong where
  "GFP_DMA = 0x80"

definition PF_MEMALLOC :: ulong where
  "PF_MEMALLOC = 0x800"

definition SCHED_YIELD :: ulong where
  "SCHED_YIELD = 0x10"

record zonelist_t =
  zl_zones :: "nat list"
  zl_gfp_mask :: ulong

record page_alloc = memory +
  nr_lru_pages :: ulong
  freepages_min :: ulong
  freepages_low :: ulong
  freepages_high :: ulong
  low_on_memory :: bool
  task_flags :: ulong
  task_policy :: ulong
  zonelists :: "zonelist_t list"

section \<open>Counters\<close>

definition nr_free_pages :: "'a memory_scheme \<Rightarrow> ulong" where
  "nr_free_pages s = foldl (\<lambda>sum zid. sum + z_free_pages (zones s ! zid)) 0 [0 ..< MAX_NR_ZONES]"

definition nr_free_buffer_pages :: "page_alloc \<Rightarrow> ulong" where
  "nr_free_buffer_pages s =
     foldl (\<lambda>sum zid. sum + z_free_pages (zones s ! zid)) (nr_lru_pages s) [0 ..< ZONE_NORMAL + 1]"

definition nr_free_highpages :: "'a memory_scheme \<Rightarrow> ulong" where
  "nr_free_highpages s = z_free_pages (zones s ! ZONE_HIGHMEM)"

text \<open>
  \<open>show_free_areas\<close>: the numbers printed for a zone, a pair of block count and block size in
  kilobytes for every order, and the total in kilobytes.
\<close>

definition show_zone :: "zone_t \<Rightarrow> (nat \<times> ulong) list \<times> ulong" where
  "show_zone z =
     (if z_size z \<noteq> 0 then
        (map (\<lambda>order. (length (free_list (z_free_area z ! order)), push_bit order 4)) [0 ..< MAX_ORDER],
         4 * foldl (\<lambda>total order. total +
               of_nat (length (free_list (z_free_area z ! order))) * push_bit order 1) 0 [0 ..< MAX_ORDER])
      else ([], 0))"

definition show_free_areas ::
  "page_alloc \<Rightarrow> (ulong \<times> ulong) \<times> (ulong \<times> ulong \<times> ulong \<times> ulong \<times> ulong) \<times>
    ((nat \<times> ulong) list \<times> ulong) list"
where
  "show_free_areas s =
     ((push_bit (PAGE_SHIFT - 10) (nr_free_pages s), push_bit (PAGE_SHIFT - 10) (nr_free_highpages s)),
      (nr_free_pages s, nr_lru_pages s, freepages_min s, freepages_low s, freepages_high s),
      map (\<lambda>type. show_zone (zones s ! type)) [0 ..< MAX_NR_ZONES])"

section \<open>Balancing\<close>

type_synonym reclaim = "ulong \<Rightarrow> page_alloc \<Rightarrow> page_alloc \<times> bool"

definition ZONE_BALANCED :: "zone_t \<Rightarrow> bool" where
  "ZONE_BALANCED z \<longleftrightarrow> z_pages_low z < z_free_pages z \<and> \<not> z_low_on_memory z"

definition reclaim_pages :: "reclaim \<Rightarrow> ulong \<Rightarrow> page_alloc \<Rightarrow> page_alloc \<times> bool" where
  "reclaim_pages try_to_free_pages gfp_mask s =
     (if gfp_mask AND GFP_WAIT = 0 then (s, True)
      else
        let (s1, freed) = try_to_free_pages gfp_mask (s\<lparr>task_flags := task_flags s OR PF_MEMALLOC\<rparr>);
            s2 = s1\<lparr>task_flags := task_flags s1 AND NOT PF_MEMALLOC\<rparr>
        in (s2, \<not> (\<not> freed \<and> gfp_mask AND (GFP_MED OR GFP_HIGH) = 0)))"

definition zone_balance_memory :: "reclaim \<Rightarrow> nat \<Rightarrow> ulong \<Rightarrow> page_alloc \<Rightarrow> page_alloc \<times> bool" where
  "zone_balance_memory try_to_free_pages zid gfp_mask s =
     (let z = zones s ! zid in
      if z_pages_low z \<le> z_free_pages z then
        if \<not> z_low_on_memory z then (s, True)
        else if z_pages_high z \<le> z_free_pages z
          then (put_zone zid (z\<lparr>z_low_on_memory := False\<rparr>) s, True)
        else reclaim_pages try_to_free_pages gfp_mask s
      else reclaim_pages try_to_free_pages gfp_mask
        (put_zone zid (z\<lparr>z_low_on_memory := True\<rparr>) s))"

definition balance_memory :: "reclaim \<Rightarrow> ulong \<Rightarrow> page_alloc \<Rightarrow> page_alloc \<times> bool" where
  "balance_memory try_to_free_pages gfp_mask s =
     (let free = nr_free_pages s in
      if freepages_low s \<le> free then
        if \<not> low_on_memory s then (s, True)
        else if freepages_high s \<le> free then (s\<lparr>low_on_memory := False\<rparr>, True)
        else reclaim_pages try_to_free_pages gfp_mask s
      else reclaim_pages try_to_free_pages gfp_mask (s\<lparr>low_on_memory := True\<rparr>))"

section \<open>Allocation and release\<close>

fun alloc_zones ::
  "reclaim \<Rightarrow> (page_alloc \<Rightarrow> page_alloc) \<Rightarrow> ulong \<Rightarrow> nat \<Rightarrow> nat list \<Rightarrow> page_alloc \<Rightarrow>
    (page_alloc \<times> ulong option) outcome"
where
  "alloc_zones try_to_free_pages schedule gfp_mask order [] s =
     (if gfp_mask AND GFP_WAIT \<noteq> 0
      then Done (schedule (s\<lparr>task_policy := task_policy s OR SCHED_YIELD\<rparr>), None)
      else Done (s, None))"
| "alloc_zones try_to_free_pages schedule gfp_mask order (zid # rest) s =
     (let z = zones s ! zid in
      if z_size z = 0 then Bug
      else
        let (s1, ok) =
          (if task_flags s AND PF_MEMALLOC = 0 \<and> \<not> ZONE_BALANCED z
           then balance_memory try_to_free_pages gfp_mask s else (s, True))
        in if \<not> ok then Done (s1, None)
        else if z_free_pages (zones s1 ! zid) \<noteq> 0 then
          (case rmqueue zid order s1 of
             Bug \<Rightarrow> Bug
           | Done (s2, Some page) \<Rightarrow> Done (s2, Some page)
           | Done (s2, None) \<Rightarrow>
               alloc_zones try_to_free_pages schedule gfp_mask order rest s2)
        else alloc_zones try_to_free_pages schedule gfp_mask order rest s1)"

definition alloc_pages_zonelist ::
  "reclaim \<Rightarrow> (page_alloc \<Rightarrow> page_alloc) \<Rightarrow> zonelist_t \<Rightarrow> nat \<Rightarrow> page_alloc \<Rightarrow>
    (page_alloc \<times> ulong option) outcome"
where
  "alloc_pages_zonelist try_to_free_pages schedule zl order s =
     alloc_zones try_to_free_pages schedule (zl_gfp_mask zl) order (zl_zones zl) s"

definition alloc_pages ::
  "reclaim \<Rightarrow> (page_alloc \<Rightarrow> page_alloc) \<Rightarrow> ulong \<Rightarrow> nat \<Rightarrow> page_alloc \<Rightarrow>
    (page_alloc \<times> ulong option) outcome"
where
  "alloc_pages try_to_free_pages schedule gfp_mask order s =
     (if length (zonelists s) \<le> unat gfp_mask then Bug
      else
        let zl = zonelists s ! unat gfp_mask in
        if zl_gfp_mask zl \<noteq> gfp_mask then Bug
        else if MAX_ORDER \<le> order then Done (s, None)
        else alloc_pages_zonelist try_to_free_pages schedule zl order s)"

definition page_address_of :: "ulong \<Rightarrow> 'a memory_scheme \<Rightarrow> ulong outcome" where
  "page_address_of page s =
     (if PageHighMem (mem_map s page) then Bug
      else Done (PAGE_OFFSET + push_bit PAGE_SHIFT page))"

definition get_free_pages ::
  "reclaim \<Rightarrow> (page_alloc \<Rightarrow> page_alloc) \<Rightarrow> ulong \<Rightarrow> nat \<Rightarrow> page_alloc \<Rightarrow>
    (page_alloc \<times> ulong) outcome"
where
  "get_free_pages try_to_free_pages schedule gfp_mask order s =
     (case alloc_pages try_to_free_pages schedule gfp_mask order s of
        Bug \<Rightarrow> Bug
      | Done (s1, None) \<Rightarrow> Done (s1, 0)
      | Done (s1, Some page) \<Rightarrow>
          (case page_address_of page s1 of
             Bug \<Rightarrow> Bug
           | Done addr \<Rightarrow> Done (s1, addr)))"

definition MAP_NR :: "ulong \<Rightarrow> ulong" where
  "MAP_NR addr = drop_bit PAGE_SHIFT (addr - PAGE_OFFSET)"

definition put_page_testzero :: "ulong \<Rightarrow> 'a memory_scheme \<Rightarrow> 'a memory_scheme \<times> bool" where
  "put_page_testzero page s =
     (let c = pg_count (mem_map s page) - 1 in (set_page_count page c s, c = 0))"

definition free_pages_page :: "ulong \<Rightarrow> nat \<Rightarrow> 'a memory_scheme \<Rightarrow> 'a memory_scheme outcome" where
  "free_pages_page page order s =
     (let (s1, zero) = put_page_testzero page s
      in if \<not> zero then Done s1 else free_pages_ok page order s1)"

definition free_pages_addr :: "ulong \<Rightarrow> nat \<Rightarrow> 'a memory_scheme \<Rightarrow> 'a memory_scheme outcome" where
  "free_pages_addr addr order s =
     (let map_nr = MAP_NR addr
      in if map_nr < max_mapnr s then free_pages_page map_nr order s else Done s)"

section \<open>Zone lists\<close>

text \<open>
  The fallback order for a \<open>gfp_mask\<close>: the cases of the \<open>switch\<close> in \<open>build_zonelists\<close> fall
  through from high memory to the DMA zone, which is always listed.
\<close>

definition zone_fallback :: "'a memory_scheme \<Rightarrow> ulong \<Rightarrow> nat list" where
  "zone_fallback s i =
     (let k = ZONE_NORMAL;
          k = (if i AND GFP_HIGHMEM \<noteq> 0 then ZONE_HIGHMEM else k);
          k = (if i AND GFP_DMA \<noteq> 0 then ZONE_DMA else k);
          high = (if z_size (zones s ! ZONE_HIGHMEM) \<noteq> 0 then [ZONE_HIGHMEM] else []);
          normal = (if z_size (zones s ! ZONE_NORMAL) \<noteq> 0 then [ZONE_NORMAL] else [])
      in if k = ZONE_HIGHMEM then high @ normal @ [ZONE_DMA]
         else if k = ZONE_NORMAL then normal @ [ZONE_DMA]
         else [ZONE_DMA])"

definition build_zonelists :: "page_alloc \<Rightarrow> page_alloc" where
  "build_zonelists s =
     s\<lparr>zonelists := map (\<lambda>i. \<lparr>zl_zones = zone_fallback s (of_nat i), zl_gfp_mask = of_nat i\<rparr>)
        [0 ..< NR_GFPINDEX]\<rparr>"

section \<open>The invariant of memory\<close>

definition memory_wf :: "'a memory_scheme \<Rightarrow> bool" where
  "memory_wf s \<longleftrightarrow> length (zones s) = MAX_NR_ZONES \<and>
     (\<forall>zid<MAX_NR_ZONES. zone_inv (zones s ! zid) \<and> zone_pages (mem_map s) zid (zones s ! zid) \<and>
        unat (z_offset (zones s ! zid)) + unat (z_size (zones s ! zid)) \<le> unat (max_mapnr s))"

text \<open>The free page frames, numbered as in \<open>mem_map\<close>: the abstract state of the allocator.\<close>

definition mem_frames :: "'a memory_scheme \<Rightarrow> nat set" where
  "mem_frames s = (\<Union>zid<MAX_NR_ZONES.
     (\<lambda>i. unat (z_offset (zones s ! zid)) + i) ` zone_frames (zones s ! zid))"

text \<open>\<open>page\<close> is the first frame of an aligned block of the given order inside the zone.\<close>

definition zone_block :: "zone_t \<Rightarrow> ulong \<Rightarrow> nat \<Rightarrow> bool" where
  "zone_block z page order \<longleftrightarrow> z_offset z \<le> page \<and>
     placed (unat (z_size z)) order (unat (page - z_offset z))"

lemma memory_wf_zone:
  assumes "memory_wf s" and "zid < MAX_NR_ZONES"
  shows "zone_inv (zones s ! zid)" and "zone_pages (mem_map s) zid (zones s ! zid)"
    and "zone_core (zones s ! zid)" and "zone_shape (zones s ! zid)"
    and "unat (z_offset (zones s ! zid)) + unat (z_size (zones s ! zid)) \<le> unat (max_mapnr s)"
    and "zid < length (zones s)"
  using assms by (auto simp: memory_wf_def zone_inv_def zone_core_def)

lemma zone_block_offset:
  "z_offset z \<le> page \<Longrightarrow> unat page = unat (z_offset z) + unat (page - z_offset z)"
  by (simp add: unat_minus_no_wrap word_le_nat_alt)

lemma zone_block_page:
  assumes "zone_shape z" and "placed (unat (z_size z)) order (unat y)"
  shows "zone_block z (z_offset z + y) order"
    and "unat (z_offset z + y) = unat (z_offset z) + unat y"
proof -
  show sum: "unat (z_offset z + y) = unat (z_offset z) + unat y"
    using unat_of_page [of y z] assms placed_less [OF assms(2)] by simp
  show "zone_block z (z_offset z + y) order"
    using assms(2) sum by (simp add: zone_block_def word_le_nat_alt)
qed

lemma zones_disjoint:
  assumes wf: "memory_wf s" and z: "zid < MAX_NR_ZONES" "zid' < MAX_NR_ZONES"
    and x: "i < unat (z_size (zones s ! zid))" "j < unat (z_size (zones s ! zid'))"
      "unat (z_offset (zones s ! zid)) + i = unat (z_offset (zones s ! zid')) + j"
  shows "zid = zid' \<and> i = j"
proof -
  let ?o = "z_offset (zones s ! zid)" and ?o' = "z_offset (zones s ! zid')"
  have "(of_nat (unat ?o + i) :: ulong) = of_nat (unat ?o' + j)" using x(3) by simp
  then have "?o + of_nat i = ?o' + of_nat j" by simp
  then have "zid = zid'"
    using memory_wf_zone(2) [OF wf z(1)] memory_wf_zone(2) [OF wf z(2)] x(1,2)
    unfolding zone_pages_def by metis
  then show ?thesis using x(3) by simp
qed

lemma mem_frames_zone:
  assumes wf: "memory_wf s" and z: "zid < MAX_NR_ZONES" and i: "i < unat (z_size (zones s ! zid))"
  shows "unat (z_offset (zones s ! zid)) + i \<in> mem_frames s \<longleftrightarrow> i \<in> zone_frames (zones s ! zid)"
proof
  assume "unat (z_offset (zones s ! zid)) + i \<in> mem_frames s"
  then obtain zid' j where j: "zid' < MAX_NR_ZONES" "j \<in> zone_frames (zones s ! zid')"
    "unat (z_offset (zones s ! zid)) + i = unat (z_offset (zones s ! zid')) + j"
    by (auto simp: mem_frames_def)
  have "j < unat (z_size (zones s ! zid'))"
    using zone_frames_bound [OF memory_wf_zone(3) [OF wf j(1)]] j(2) by auto
  then show "i \<in> zone_frames (zones s ! zid)" using zones_disjoint [OF wf z j(1) i _ j(3)] j(2) by simp
qed (use z in \<open>auto simp: mem_frames_def\<close>)

lemma span_shift: "(\<lambda>i. c + i) ` span k i = span k (c + i)"
  by (simp add: span_def image_add_atLeastLessThan ac_simps)

lemma put_zone_simps [simp]:
  "mem_map (put_zone zid z s) = mem_map s" "max_mapnr (put_zone zid z s) = max_mapnr s"
  "zones (put_zone zid z s) = (zones s)[zid := z]"
  by (simp_all add: put_zone_def)

lemma set_page_count_simps [simp]:
  "max_mapnr (set_page_count p v s) = max_mapnr s" "zones (set_page_count p v s) = zones s"
  "pg_zone (mem_map (set_page_count p v s) q) = pg_zone (mem_map s q)"
  "pg_flags (mem_map (set_page_count p v s) q) = pg_flags (mem_map s q)"
  "mem_frames (set_page_count p v s) = mem_frames s"
  by (simp_all add: set_page_count_def mem_frames_def)

lemma set_page_count_wf [simp]: "memory_wf (set_page_count p v s) \<longleftrightarrow> memory_wf s"
  by (simp add: memory_wf_def zone_pages_def)

lemma put_zone_wf:
  assumes "memory_wf s" and "zid < MAX_NR_ZONES" and "zone_inv z'" and "same_zone (zones s ! zid) z'"
  shows "memory_wf (put_zone zid z' s)"
  using assms same_zone_fields [OF assms(4)]
  by (auto simp: memory_wf_def nth_list_update zone_pages_def)

lemma put_zone_frames:
  assumes wf: "memory_wf s" and z: "zid < MAX_NR_ZONES" and same: "same_zone (zones s ! zid) z'"
  shows "mem_frames (put_zone zid z' s) =
    (mem_frames s - (\<lambda>i. unat (z_offset (zones s ! zid)) + i) ` zone_frames (zones s ! zid)) \<union>
    (\<lambda>i. unat (z_offset (zones s ! zid)) + i) ` zone_frames z'"
proof -
  let ?f = "\<lambda>k. (\<lambda>i. unat (z_offset (zones s ! k)) + i) ` zone_frames (zones s ! k)"
  let ?g = "(\<lambda>i. unat (z_offset (zones s ! zid)) + i) ` zone_frames z'"
  have off: "z_offset z' = z_offset (zones s ! zid)" using same_zone_fields [OF same] by simp
  have "mem_frames (put_zone zid z' s) = (\<Union>k<MAX_NR_ZONES. if k = zid then ?g else ?f k)"
    unfolding mem_frames_def put_zone_simps
    by (rule SUP_cong) (use z memory_wf_zone(6) [OF wf] off in \<open>auto simp: nth_list_update\<close>)
  moreover have "?f k \<inter> ?f zid = {}" if "k < MAX_NR_ZONES" "k \<noteq> zid" for k
  proof (rule ccontr)
    assume "?f k \<inter> ?f zid \<noteq> {}"
    then obtain i j where ij: "i \<in> zone_frames (zones s ! k)" "j \<in> zone_frames (zones s ! zid)"
      "unat (z_offset (zones s ! k)) + i = unat (z_offset (zones s ! zid)) + j" by blast
    have "i < unat (z_size (zones s ! k))" "j < unat (z_size (zones s ! zid))"
      using ij zone_frames_bound [OF memory_wf_zone(3) [OF wf that(1)]]
        zone_frames_bound [OF memory_wf_zone(3) [OF wf z]] by blast+
    then show False using zones_disjoint [OF wf that(1) z _ _ ij(3)] that(2) by blast
  qed
  ultimately show ?thesis using z unfolding mem_frames_def by (auto split: if_splits)
qed

lemma put_zone_self: "put_zone zid (zones s ! zid) s = s"
  by (simp add: put_zone_def)

section \<open>Taking and releasing blocks\<close>

definition zone_of :: "'a memory_scheme \<Rightarrow> ulong \<Rightarrow> nat" where
  "zone_of s page = pg_zone (mem_map s page)"

text \<open>
  A block that may be released: it is aligned and inside its zone, and its first page is not
  reserved, not in the swap cache and not locked.
\<close>

definition releasable :: "'a memory_scheme \<Rightarrow> ulong \<Rightarrow> nat \<Rightarrow> bool" where
  "releasable s page order \<longleftrightarrow>
     (\<exists>zid<MAX_NR_ZONES. zone_block (zones s ! zid) page order) \<and>
     \<not> PageReserved (mem_map s page) \<and> \<not> PageSwapCache (mem_map s page) \<and>
     \<not> PageLocked (mem_map s page)"

definition same_layout :: "'a memory_scheme \<Rightarrow> 'a memory_scheme \<Rightarrow> bool" where
  "same_layout s s' \<longleftrightarrow> max_mapnr s' = max_mapnr s \<and>
     (\<forall>zid<MAX_NR_ZONES. same_zone (zones s ! zid) (zones s' ! zid)) \<and>
     (\<forall>p. pg_flags (mem_map s' p) = pg_flags (mem_map s p) \<and>
          pg_zone (mem_map s' p) = pg_zone (mem_map s p))"

lemma same_layout_refl [simp]: "same_layout s s"
  by (simp add: same_layout_def)

lemma zone_block_same: "same_zone z z' \<Longrightarrow> zone_block z' p k = zone_block z p k"
  using same_zone_fields [of z z'] by (simp add: zone_block_def)

lemma same_layout_releasable: "same_layout s s' \<Longrightarrow> releasable s' p k = releasable s p k"
proof -
  assume l: "same_layout s s'"
  then have "zone_block (zones s' ! zid) p k = zone_block (zones s ! zid) p k"
    if "zid < MAX_NR_ZONES" for zid
    using that by (intro zone_block_same) (simp add: same_layout_def)
  then show ?thesis
    using l unfolding releasable_def same_layout_def PageReserved_def PageSwapCache_def PageLocked_def
    by auto
qed

lemma same_zone_trans: "same_zone x y \<Longrightarrow> same_zone y z \<Longrightarrow> same_zone x z"
  unfolding same_zone_def areas_only_def by (cases x; cases y; cases z) simp

lemma same_layout_trans: "same_layout x y \<Longrightarrow> same_layout y z \<Longrightarrow> same_layout x z"
  unfolding same_layout_def by (auto intro: same_zone_trans)

lemma same_layout_put:
  assumes "memory_wf s" and "same_zone (zones s ! zid) z'"
  shows "same_layout s (put_zone zid z' s)"
proof -
  have "same_zone (zones s ! k) ((zones s)[zid := z'] ! k)" if "k < MAX_NR_ZONES" for k
    using assms that by (cases "k = zid") (auto simp: memory_wf_def)
  then show ?thesis by (simp add: same_layout_def)
qed

lemma same_layout_count: "same_layout s s' \<Longrightarrow> same_layout s (set_page_count p v s')"
  by (simp add: same_layout_def)

lemma zone_block_zone:
  assumes wf: "memory_wf s" and z: "zid < MAX_NR_ZONES" and b: "zone_block (zones s ! zid) page order"
  shows "pg_zone (mem_map s page) = zid" and "unat page < unat (max_mapnr s)"
    and "span order (unat page) =
      (\<lambda>i. unat (z_offset (zones s ! zid)) + i) ` span order (unat (page - z_offset (zones s ! zid)))"
proof -
  let ?z = "zones s ! zid"
  let ?i = "unat (page - z_offset ?z)"
  have i: "?i < unat (z_size ?z)" using b placed_less by (auto simp: zone_block_def)
  have page: "unat page = unat (z_offset ?z) + ?i"
    using b zone_block_offset by (auto simp: zone_block_def)
  have "z_offset ?z + of_nat ?i = page" by simp
  then show "pg_zone (mem_map s page) = zid"
    using memory_wf_zone(2) [OF wf z] i unfolding zone_pages_def by metis
  show "unat page < unat (max_mapnr s)" using memory_wf_zone(5) [OF wf z] i page by simp
  show "span order (unat page) = (\<lambda>i. unat (z_offset ?z) + i) ` span order ?i"
    by (simp add: span_shift page)
qed

lemma span_mem_frames:
  assumes wf: "memory_wf s" and z: "zid < MAX_NR_ZONES" and b: "zone_block (zones s ! zid) page order"
  shows "span order (unat page) \<inter> mem_frames s = {} \<longleftrightarrow>
      span order (unat (page - z_offset (zones s ! zid))) \<inter> zone_frames (zones s ! zid) = {}"
proof -
  have "i < unat (z_size (zones s ! zid))"
    if "i \<in> span order (unat (page - z_offset (zones s ! zid)))" for i
    using that b by (auto simp: zone_block_def placed_def span_def)
  then show ?thesis
    unfolding zone_block_zone(3) [OF wf z b] using mem_frames_zone [OF wf z] by blast
qed

lemma free_pages_ok_release:
  assumes wf: "memory_wf s" and r: "releasable s page order"
    and new: "span order (unat page) \<inter> mem_frames s = {}"
  shows "\<exists>s'. free_pages_ok page order s = Done s' \<and> memory_wf s' \<and> same_layout s s' \<and>
    mem_frames s' = mem_frames s \<union> span order (unat page) \<and> mem_map s' = mem_map s"
proof -
  obtain zid where z: "zid < MAX_NR_ZONES" and b: "zone_block (zones s ! zid) page order"
    using r by (auto simp: releasable_def)
  let ?z = "zones s ! zid"
  let ?x = "page - z_offset ?z" and ?msk = "push_bit order (- 1) :: ulong"
  let ?z1 = "?z\<lparr>z_free_pages := z_free_pages ?z - ?msk\<rparr>"
  have zid: "pg_zone (mem_map s page) = zid" and lt: "unat page < unat (max_mapnr s)"
    using zone_block_zone [OF wf z b] by simp_all
  have pl: "placed (unat (z_size ?z)) order (unat ?x)" using b by (simp add: zone_block_def)
  have k: "order < MAX_ORDER" using pl by (simp add: placed_def)
  have new': "span order (unat ?x) \<inter> zone_frames ?z = {}" using new span_mem_frames [OF wf z b] by simp
  have al: "?x AND NOT ?msk = 0"
  proof -
    have "unat (?x AND NOT ?msk) = unat ?x mod 2 ^ order"
      by (simp only: push_bit_minus_1 bit.double_compl unat_and_mask)
    also have "\<dots> = 0" using pl by (simp add: placed_def)
    finally show ?thesis by (simp only: word_unat_eq_iff unsigned_0)
  qed
  obtain z2 l y where fl: "free_loop (mem_map s) zid ?z1 ?msk order (drop_bit (1 + order) ?x) ?x =
      Done (z2, l, y)"
    and z3: "zone_core (memlist_add_head (z_offset ?z + y) l z2)"
      "zone_frames (memlist_add_head (z_offset ?z + y) l z2) = zone_frames ?z \<union> span order (unat ?x)"
      "areas_only ?z1 z2"
    using free_loop_correct [of ?z1 "mem_map s" zid order ?x "drop_bit (1 + order) ?x"]
      memory_wf_zone [OF wf z] pl new' unfolding freed_def by (auto simp: unat_drop_bit)
  let ?z3 = "memlist_add_head (z_offset ?z + y) l z2"
  have same: "same_zone ?z ?z3"
    using z3(3) areas_only_fields [OF z3(3)] areas_only_trans [OF z3(3)]
    unfolding same_zone_def by simp
  have "z_free_pages ?z3 = z_free_pages ?z + push_bit order 1"
    using areas_only_fields [OF z3(3)] neg_order_mask [of order]
    by (simp only: add_head_fields) (simp add: diff_conv_add_uminus del: push_bit_minus_one_eq_not_mask)
  moreover have "card (zone_frames ?z3) = card (zone_frames ?z) + 2 ^ order"
    using finite_zone_frames [OF memory_wf_zone(3) [OF wf z]] new'
    by (simp add: z3(2) card_Un_disjoint Int_commute)
  moreover have "card (zone_frames ?z3) < 2 ^ 32"
    using card_mono [OF _ zone_frames_bound [OF z3(1)]] unsigned_less [of "z_size ?z3", where 'a = nat]
    by simp
  ultimately have "unat (z_free_pages ?z3) = card (zone_frames ?z3)"
    using memory_wf_zone(1) [OF wf z] k
    by (simp add: zone_inv_def unat_plus_no_wrap push_bit_eq_mult unat_two_power MAX_ORDER_def)
  then have inv: "zone_inv ?z3" using z3(1) by (simp add: zone_inv_def)
  have "free_pages_ok page order s = Done (put_zone zid ?z3 s)"
    using r lt al fl zid
    by (simp add: free_pages_ok_def releasable_def Let_def word_le_nat_alt not_le zid)
  moreover have "mem_frames (put_zone zid ?z3 s) = mem_frames s \<union> span order (unat page)"
    unfolding put_zone_frames [OF wf z same] z3(2) zone_block_zone(3) [OF wf z b]
    using z by (auto simp: mem_frames_def)
  ultimately show ?thesis
    using put_zone_wf [OF wf z inv same] same_layout_put [OF wf same] by auto
qed

lemma rmqueue_take:
  assumes wf: "memory_wf s" and z: "zid < MAX_NR_ZONES" and k: "order < MAX_ORDER"
  shows "(rmqueue zid order s = Done (s, None) \<and>
      (\<forall>page. zone_block (zones s ! zid) page order \<longrightarrow> \<not> span order (unat page) \<subseteq> mem_frames s)) \<or>
    (\<exists>s' page. rmqueue zid order s = Done (s', Some page) \<and> memory_wf s' \<and> same_layout s s' \<and>
      zone_block (zones s ! zid) page order \<and> span order (unat page) \<subseteq> mem_frames s \<and>
      mem_frames s' = mem_frames s - span order (unat page) \<and>
      (\<exists>z'. s' = set_page_count page 1 (put_zone zid z' s)))"
proof -
  let ?z = "zones s ! zid"
  note w = memory_wf_zone [OF wf z]
  have "pulled ?z order (rmqueue_loop (mem_map s) zid ?z order order)"
    using w k by (intro rmqueue_loop_correct) auto
  then consider (none) "rmqueue_loop (mem_map s) zid ?z order order = Done (?z, None)"
      "\<forall>k\<ge>order. zone_blocks ?z k = {}"
    | (some) z' y where "rmqueue_loop (mem_map s) zid ?z order order = Done (z', Some (z_offset ?z + y))"
      "zone_inv z'" "placed (unat (z_size ?z)) order (unat y)" "span order (unat y) \<subseteq> zone_frames ?z"
      "zone_frames z' = zone_frames ?z - span order (unat y)" "same_zone ?z z'"
    unfolding pulled_def by blast
  then show ?thesis
  proof cases
    case none
    have "\<not> span order (unat page) \<subseteq> mem_frames s" if b: "zone_block ?z page order" for page
    proof
      let ?i = "unat (page - z_offset ?z)"
      assume sub: "span order (unat page) \<subseteq> mem_frames s"
      have "span order ?i \<subseteq> zone_frames ?z"
      proof
        fix i
        assume i: "i \<in> span order ?i"
        then have "unat (z_offset ?z) + i \<in> mem_frames s"
          using sub zone_block_zone(3) [OF wf z b] by blast
        moreover have "i < unat (z_size ?z)"
          using i b by (auto simp: zone_block_def placed_def span_def)
        ultimately show "i \<in> zone_frames ?z" using mem_frames_zone [OF wf z] by blast
      qed
      then have "\<exists>l j. order \<le> l \<and> j \<in> zone_blocks ?z l \<and> span order ?i \<subseteq> span l j"
        using w(3) b k by (intro aligned_run_in_block)
          (auto simp: zone_core_def zone_frames_def zone_block_def placed_def)
      then show False using none(2) by blast
    qed
    then show ?thesis using none(1) by (simp add: rmqueue_def put_zone_self)
  next
    case some
    let ?p = "z_offset ?z + y"
    have b: "zone_block ?z ?p order" using zone_block_page [OF w(4) some(3)] by simp
    have wf': "memory_wf (put_zone zid z' s)" using put_zone_wf [OF wf z some(2,6)] .
    have pages': "zone_pages (mem_map (set_page_count ?p 1 (put_zone zid z' s))) zid z'"
      using memory_wf_zone(2) [OF wf' z] w(6) by (simp add: zone_pages_def)
    have "\<not> BAD_RANGE (mem_map (set_page_count ?p 1 (put_zone zid z' s))) zid z' ?p"
      using not_BAD_RANGE [OF _ pages', of y] some(2) placed_less [OF some(3)]
        same_zone_fields [OF some(6)] by (simp add: zone_inv_def zone_core_def)
    then have "rmqueue zid order s = Done (set_page_count ?p 1 (put_zone zid z' s), Some ?p)"
      using some(1) by (simp add: rmqueue_def Let_def)
    moreover have sp: "span order (unat ?p) = (\<lambda>i. unat (z_offset ?z) + i) ` span order (unat y)"
      using zone_block_zone(3) [OF wf z b] by simp
    have "span order (unat ?p) \<subseteq> mem_frames s" using some(4) z unfolding sp mem_frames_def by blast
    moreover have "mem_frames (put_zone zid z' s) = mem_frames s - span order (unat ?p)"
      unfolding put_zone_frames [OF wf z some(6)] sp some(5) using some(4) z
      by (auto simp: mem_frames_def)
    ultimately show ?thesis
      using wf' b same_layout_count [OF same_layout_put [OF wf some(6)]] by auto
  qed
qed

section \<open>The page pool\<close>

text \<open>
  The contract of the page allocator towards its clients. \<open>frames\<close> is what is free, \<open>owned\<close>
  says that a client holds a block with one reference. A block that is grabbed was free and
  is not free any more; a block that is given back is free again; and neither operation
  affects the blocks that others hold. A client that holds blocks can never lose one or be
  handed a frame twice: \<open>conserved\<close> holds along every sequence of calls.
\<close>

locale frame_pool =
  fixes wf :: "'s \<Rightarrow> bool"
    and frames :: "'s \<Rightarrow> nat set"
    and owned :: "'s \<Rightarrow> ulong \<Rightarrow> nat \<Rightarrow> bool"
    and grab :: "nat \<Rightarrow> nat \<Rightarrow> 's \<Rightarrow> ('s \<times> ulong option) outcome"
    and give :: "ulong \<Rightarrow> nat \<Rightarrow> 's \<Rightarrow> 's outcome"
  assumes grab_some: "wf s \<Longrightarrow> zid < MAX_NR_ZONES \<Longrightarrow> k < MAX_ORDER \<Longrightarrow>
      grab zid k s = Done (s', Some p) \<Longrightarrow>
      wf s' \<and> span k (unat p) \<subseteq> frames s \<and> frames s' = frames s - span k (unat p) \<and>
      owned s' p k \<and> (\<forall>q l. owned s q l \<longrightarrow> owned s' q l)"
    and grab_none: "wf s \<Longrightarrow> zid < MAX_NR_ZONES \<Longrightarrow> k < MAX_ORDER \<Longrightarrow>
      grab zid k s = Done (s', None) \<Longrightarrow> s' = s"
    and give_back: "wf s \<Longrightarrow> owned s p k \<Longrightarrow> span k (unat p) \<inter> frames s = {} \<Longrightarrow>
      \<exists>s'. give p k s = Done s' \<and> wf s' \<and> frames s' = frames s \<union> span k (unat p) \<and>
        (\<forall>q l. owned s q l \<longrightarrow> q \<noteq> p \<longrightarrow> owned s' q l)"
begin

definition conserved :: "nat set \<Rightarrow> 's \<Rightarrow> (ulong \<times> nat) list \<Rightarrow> bool" where
  "conserved tot s held \<longleftrightarrow> wf s \<and> (\<forall>p k. (p, k) \<in> set held \<longrightarrow> owned s p k) \<and>
     sorted_wrt (\<lambda>(p, k) (q, l). span k (unat p) \<inter> span l (unat q) = {}) held \<and>
     (\<forall>p k. (p, k) \<in> set held \<longrightarrow> span k (unat p) \<inter> frames s = {}) \<and>
     frames s \<union> (\<Union>(p, k)\<in>set held. span k (unat p)) = tot"

lemma conserved_start: "wf s \<Longrightarrow> conserved (frames s) s []"
  by (simp add: conserved_def)

lemma conserved_grab:
  assumes c: "conserved tot s held" and "zid < MAX_NR_ZONES" "k < MAX_ORDER"
    and g: "grab zid k s = Done (s', Some p)"
  shows "conserved tot s' ((p, k) # held)"
proof -
  have w: "wf s" using c by (simp add: conserved_def)
  note law = grab_some [OF w assms(2,3) g]
  have "span k (unat p) \<inter> span l (unat q) = {}" if "(q, l) \<in> set held" for q l
  proof -
    have "span l (unat q) \<inter> frames s = {}" using c that unfolding conserved_def by blast
    then show ?thesis using law by blast
  qed
  moreover have "span l (unat q) \<inter> frames s' = {}" if "(q, l) \<in> set ((p, k) # held)" for q l
    using c law that unfolding conserved_def list.set by blast
  moreover have "frames s' \<union> (\<Union>(q, l)\<in>set ((p, k) # held). span l (unat q)) = tot"
    using c law unfolding conserved_def by auto
  ultimately show ?thesis using c law unfolding conserved_def by auto
qed

lemma conserved_give:
  assumes c: "conserved tot s (xs @ (p, k) # ys)"
  shows "\<exists>s'. give p k s = Done s' \<and> conserved tot s' (xs @ ys)"
proof -
  have w: "wf s" and o: "owned s p k" and d: "span k (unat p) \<inter> frames s = {}"
    using c by (auto simp: conserved_def)
  obtain s' where s': "give p k s = Done s'" "wf s'" "frames s' = frames s \<union> span k (unat p)"
    "\<forall>q l. owned s q l \<longrightarrow> q \<noteq> p \<longrightarrow> owned s' q l"
    using give_back [OF w o d] by blast
  have sw: "sorted_wrt (\<lambda>(p, k) (q, l). span k (unat p) \<inter> span l (unat q) = {}) (xs @ (p, k) # ys)"
    using c unfolding conserved_def by blast
  have apart: "span k (unat p) \<inter> span l (unat q) = {}" if "(q, l) \<in> set xs \<union> set ys" for q l
  proof -
    have "span l (unat q) \<inter> span k (unat p) = {}" if "(q, l) \<in> set xs"
      using sw that by (auto simp: sorted_wrt_append)
    moreover have "span k (unat p) \<inter> span l (unat q) = {}" if "(q, l) \<in> set ys"
      using sw that by (auto simp: sorted_wrt_append)
    ultimately show ?thesis using that by blast
  qed
  have held: "owned s q l" "span l (unat q) \<inter> frames s = {}" if "(q, l) \<in> set xs \<union> set ys" for q l
    using c that unfolding conserved_def set_append list.set by blast+
  have neq: "q \<noteq> p" if "(q, l) \<in> set xs \<union> set ys" for q l
    using apart [OF that] start_in_span [of "unat p" k] start_in_span [of "unat p" l] by blast
  have "conserved tot s' (xs @ ys)"
    unfolding conserved_def
  proof (intro conjI)
    show "\<forall>q l. (q, l) \<in> set (xs @ ys) \<longrightarrow> owned s' q l" using held(1) s'(4) neq by auto
    show "sorted_wrt (\<lambda>(p, k) (q, l). span k (unat p) \<inter> span l (unat q) = {}) (xs @ ys)"
      using sw by (simp add: sorted_wrt_append)
    show "\<forall>q l. (q, l) \<in> set (xs @ ys) \<longrightarrow> span l (unat q) \<inter> frames s' = {}"
      using held(2) apart unfolding s'(3) set_append by blast
    show "frames s' \<union> (\<Union>(q, l)\<in>set (xs @ ys). span l (unat q)) = tot"
      using c unfolding s'(3) conserved_def by auto
  qed (rule s'(2))
  then show ?thesis using s'(1) by blast
qed

end

definition usable_page :: "mem_page \<Rightarrow> bool" where
  "usable_page pg \<longleftrightarrow> \<not> PageReserved pg \<and> \<not> PageSwapCache pg \<and> \<not> PageLocked pg"

definition pool_wf :: "'a memory_scheme \<Rightarrow> bool" where
  "pool_wf s \<longleftrightarrow> memory_wf s \<and> (\<forall>p. unat p \<in> mem_frames s \<longrightarrow> usable_page (mem_map s p))"

definition page_owned :: "'a memory_scheme \<Rightarrow> ulong \<Rightarrow> nat \<Rightarrow> bool" where
  "page_owned s page order \<longleftrightarrow>
     (\<exists>zid<MAX_NR_ZONES. zone_block (zones s ! zid) page order) \<and>
     (\<forall>p. unat p \<in> span order (unat page) \<longrightarrow> usable_page (mem_map s p)) \<and>
     pg_count (mem_map s page) = 1"

lemma same_layout_usable: "same_layout s s' \<Longrightarrow> usable_page (mem_map s' p) = usable_page (mem_map s p)"
  by (simp add: same_layout_def usable_page_def PageReserved_def PageSwapCache_def PageLocked_def)

lemma same_layout_block:
  "same_layout s s' \<Longrightarrow> zid < MAX_NR_ZONES \<Longrightarrow>
    zone_block (zones s' ! zid) p k = zone_block (zones s ! zid) p k"
  by (rule zone_block_same) (simp add: same_layout_def)

lemma page_owned_keep:
  "same_layout s s' \<Longrightarrow> pg_count (mem_map s' q) = pg_count (mem_map s q) \<Longrightarrow>
    page_owned s q l \<Longrightarrow> page_owned s' q l"
  unfolding page_owned_def by (metis same_layout_usable same_layout_block)

lemma rmqueue_pool:
  assumes w: "pool_wf s" and z: "zid < MAX_NR_ZONES" and k: "k < MAX_ORDER"
    and g: "rmqueue zid k s = Done (s', Some p)"
  shows "pool_wf s' \<and> span k (unat p) \<subseteq> mem_frames s \<and> mem_frames s' = mem_frames s - span k (unat p) \<and>
    page_owned s' p k \<and> (\<forall>q l. page_owned s q l \<longrightarrow> page_owned s' q l)"
proof -
  have wf: "memory_wf s" using w by (simp add: pool_wf_def)
  obtain z' where r: "memory_wf s'" "same_layout s s'" "zone_block (zones s ! zid) p k"
    "span k (unat p) \<subseteq> mem_frames s" "mem_frames s' = mem_frames s - span k (unat p)"
    "s' = set_page_count p 1 (put_zone zid z' s)"
    using rmqueue_take [OF wf z k] g by auto
  have flags: "usable_page (mem_map s q)" if "unat q \<in> mem_frames s" for q
    using w that by (simp add: pool_wf_def)
  have one: "pg_count (mem_map s' p) = 1" by (simp add: r(6) set_page_count_def)
  have "pool_wf s'" using r flags same_layout_usable [OF r(2)] by (auto simp: pool_wf_def)
  moreover have "page_owned s' p k"
    unfolding page_owned_def using one r(3,4) flags z same_layout_usable [OF r(2)]
      same_layout_block [OF r(2)] by blast
  moreover have "page_owned s' q l" if o: "page_owned s q l" for q l
  proof (rule page_owned_keep [OF r(2) _ o])
    show "pg_count (mem_map s' q) = pg_count (mem_map s q)"
      using one o by (cases "q = p") (auto simp: page_owned_def r(6) set_page_count_def)
  qed
  ultimately show ?thesis using r by blast
qed

lemma free_pages_page_pool:
  assumes w: "pool_wf s" and o: "page_owned s p k" and d: "span k (unat p) \<inter> mem_frames s = {}"
  shows "\<exists>s'. free_pages_page p k s = Done s' \<and> pool_wf s' \<and>
    mem_frames s' = mem_frames s \<union> span k (unat p) \<and> same_layout s s' \<and>
    mem_map s' = mem_map (set_page_count p 0 s) \<and>
    (\<forall>q l. page_owned s q l \<longrightarrow> q \<noteq> p \<longrightarrow> page_owned s' q l)"
proof -
  let ?s = "set_page_count p 0 s"
  have wf: "memory_wf ?s" and l1: "same_layout s ?s"
    using w same_layout_count [OF same_layout_refl] by (auto simp: pool_wf_def)
  have "usable_page (mem_map s p)" using o start_in_span unfolding page_owned_def by blast
  then have "releasable s p k"
    using o unfolding releasable_def page_owned_def usable_page_def by blast
  then have "releasable ?s p k" by (simp only: same_layout_releasable [OF l1])
  then obtain s' where s': "free_pages_ok p k ?s = Done s'" "memory_wf s'" "same_layout ?s s'"
    "mem_frames s' = mem_frames s \<union> span k (unat p)" "mem_map s' = mem_map ?s"
    using free_pages_ok_release [OF wf, of p k] d by auto
  have lay: "same_layout s s'" using same_layout_trans [OF l1 s'(3)] .
  have fr: "free_pages_page p k s = Done s'"
    using s'(1) o by (simp add: free_pages_page_def put_page_testzero_def page_owned_def)
  have "pool_wf s'"
    using w o s'(2,4) same_layout_usable [OF lay] by (auto simp: pool_wf_def page_owned_def)
  moreover have "page_owned s' q l" if "page_owned s q l" "q \<noteq> p" for q l
    using that by (intro page_owned_keep [OF lay]) (simp_all add: s'(5) set_page_count_def)
  ultimately show ?thesis using fr s' lay by blast
qed

interpretation buddy: frame_pool pool_wf mem_frames page_owned rmqueue free_pages_page
proof
  fix s s' :: "'a memory_scheme" and zid k p
  assume "pool_wf s" "zid < MAX_NR_ZONES" "k < MAX_ORDER" "rmqueue zid k s = Done (s', Some p)"
  then show "pool_wf s' \<and> span k (unat p) \<subseteq> mem_frames s \<and>
      mem_frames s' = mem_frames s - span k (unat p) \<and> page_owned s' p k \<and>
      (\<forall>q l. page_owned s q l \<longrightarrow> page_owned s' q l)"
    by (rule rmqueue_pool)
next
  fix s s' :: "'a memory_scheme" and zid k
  assume "pool_wf s" "zid < MAX_NR_ZONES" "k < MAX_ORDER" "rmqueue zid k s = Done (s', None)"
  then show "s' = s" using rmqueue_take [of s zid k] by (auto simp: pool_wf_def)
next
  fix s :: "'a memory_scheme" and p k
  assume "pool_wf s" "page_owned s p k" "span k (unat p) \<inter> mem_frames s = {}"
  then show "\<exists>s'. free_pages_page p k s = Done s' \<and> pool_wf s' \<and>
      mem_frames s' = mem_frames s \<union> span k (unat p) \<and>
      (\<forall>q l. page_owned s q l \<longrightarrow> q \<noteq> p \<longrightarrow> page_owned s' q l)"
    using free_pages_page_pool by blast
qed

section \<open>Properties of blocks\<close>

definition example_zone :: zone_t where
  "example_zone = \<lparr>z_offset = 0, z_free_pages = 16, z_low_on_memory = False, z_pages_low = 2,
     z_pages_high = 3,
     z_free_area = (replicate MAX_ORDER \<lparr>free_list = [], area_map = replicate 32 False\<rparr>)
       [4 := \<lparr>free_list = [0], area_map = True # replicate 31 False\<rparr>],
     z_size = 16\<rparr>"

definition empty_zone :: zone_t where
  "empty_zone = \<lparr>z_offset = 0, z_free_pages = 0, z_low_on_memory = False, z_pages_low = 0,
     z_pages_high = 0, z_free_area = replicate MAX_ORDER \<lparr>free_list = [], area_map = []\<rparr>,
     z_size = 0\<rparr>"

definition example_memory :: memory where
  "example_memory = \<lparr>mem_map = (\<lambda>p. \<lparr>pg_count = 0, pg_flags = 0, pg_virtual = 0, pg_zone = 0\<rparr>),
     max_mapnr = 16, zones = [example_zone, empty_zone, empty_zone]\<rparr>"

lemma example_zone_blocks: "zone_blocks example_zone = (\<lambda>k. if k = 4 then {0} else {})"
  by (rule ext) (auto simp: zone_blocks_def example_zone_def MAX_ORDER_def nth_list_update)

lemma empty_zone_blocks: "zone_blocks empty_zone = (\<lambda>k. {})"
  by (rule ext) (simp add: zone_blocks_def empty_zone_def)

lemma empty_zone_inv: "zone_inv empty_zone" "zone_frames empty_zone = {}"
  unfolding zone_inv_def zone_core_def zone_frames_def empty_zone_blocks
  by (simp_all add: free_frames_def blocks_ok_def separated_def coalesced_def bits_ok_def
      zone_shape_def empty_zone_def)

lemma example_zone_inv: "zone_inv example_zone" and example_zone_frames: "zone_frames example_zone = {0 ..< 16}"
proof -
  show fr: "zone_frames example_zone = {0 ..< 16}"
    unfolding zone_frames_def example_zone_blocks by (auto simp: mem_free_frames span_def split: if_splits)
  have "zone_shape example_zone"
    by (auto simp: zone_shape_def example_zone_def MAX_ORDER_def nth_list_update)
  moreover have "blocks_ok (unat (z_size example_zone)) (zone_blocks example_zone)"
    unfolding example_zone_blocks
    by (auto simp: blocks_ok_def separated_def coalesced_def placed_def MAX_ORDER_def buddy_def
        example_zone_def)
  moreover have "bits_ok example_zone (zone_blocks example_zone)"
    unfolding bits_ok_def example_zone_blocks
  proof (intro allI impI)
    fix k i
    assume "k + 1 < MAX_ORDER" "2 ^ k dvd i" "i < unat (z_size example_zone)"
    then have k: "k < 9" "i < 16" "k = 4 \<Longrightarrow> i = 0"
      by (auto simp: MAX_ORDER_def example_zone_def elim: dvdE)
    have "i div 2 ^ (k + 1) < 32" using div_le_dividend [of i "2 ^ (k + 1)"] k(2) by linarith
    then show "area_map (z_free_area example_zone ! k) ! (i div 2 ^ (k + 1)) =
        ((i \<in> (if k = 4 then {0} else {})) \<noteq> (buddy k i \<in> (if k = 4 then {0} else {})))"
      using k by (auto simp: example_zone_def nth_list_update MAX_ORDER_def buddy_def)
  qed
  ultimately show "zone_inv example_zone"
    unfolding zone_inv_def zone_core_def fr by (simp add: example_zone_def)
qed

lemma less_3: "(x :: nat) < MAX_NR_ZONES \<longleftrightarrow> x = 0 \<or> x = 1 \<or> x = 2"
  by (auto simp: MAX_NR_ZONES_def)

lemma lessThan_zones: "{..<MAX_NR_ZONES} = {0, 1, 2}"
  by (auto simp: MAX_NR_ZONES_def)

lemma example_memory_wf: "memory_wf example_memory"
  unfolding memory_wf_def
  by (auto simp: less_3 example_memory_def example_zone_inv empty_zone_inv zone_pages_def)
    (simp_all add: MAX_NR_ZONES_def example_zone_def empty_zone_def)

lemma example_memory_frames: "mem_frames example_memory = {0 ..< 16}"
  unfolding mem_frames_def lessThan_zones
  by (simp add: example_memory_def example_zone_frames empty_zone_inv) (simp add: example_zone_def)

lemma example_block:
  "zone_block (zones example_memory ! 0) 0 2"
  "span 2 (unat (0 :: ulong)) \<subseteq> mem_frames example_memory"
  unfolding example_memory_frames
  by (simp_all add: zone_block_def example_memory_def example_zone_def placed_def MAX_ORDER_def span_def)

text \<open>
  C4: \<open>rmqueue\<close> on a consistent zone never runs into a \<open>BUG()\<close>. It hands out an aligned block
  of the requested order whose frames were all free and are not free afterwards, with a
  reference count of one; and it returns NULL, changing nothing, only if the zone contains no
  aligned run of free frames of that order.
\<close>

theorem rmqueue_correct:
  assumes "memory_wf s" and "zid < MAX_NR_ZONES" and "order < MAX_ORDER"
  shows "\<exists>s' r. rmqueue zid order s = Done (s', r) \<and> memory_wf s' \<and>
    (case r of
       None \<Rightarrow> s' = s \<and> (\<forall>page. zone_block (zones s ! zid) page order \<longrightarrow>
                  \<not> span order (unat page) \<subseteq> mem_frames s)
     | Some page \<Rightarrow> zone_block (zones s ! zid) page order \<and> pg_count (mem_map s' page) = 1 \<and>
         span order (unat page) \<subseteq> mem_frames s \<and>
         mem_frames s' = mem_frames s - span order (unat page))"
  using rmqueue_take [OF assms] assms(1)
  by (elim disjE exE conjE) (simp_all add: set_page_count_def)

theorem rmqueue_correct_witness:
  "\<exists>s' page. rmqueue 0 2 example_memory = Done (s', Some page) \<and> memory_wf s' \<and>
    mem_frames s' = {0 ..< 16} - span 2 (unat page)"
proof -
  obtain s' r where r: "rmqueue 0 2 example_memory = Done (s', r)" "memory_wf s'"
    "case r of
       None \<Rightarrow> s' = example_memory \<and> (\<forall>page. zone_block (zones example_memory ! 0) page 2 \<longrightarrow>
                  \<not> span 2 (unat page) \<subseteq> mem_frames example_memory)
     | Some page \<Rightarrow> zone_block (zones example_memory ! 0) page 2 \<and> pg_count (mem_map s' page) = 1 \<and>
         span 2 (unat page) \<subseteq> mem_frames example_memory \<and>
         mem_frames s' = mem_frames example_memory - span 2 (unat page)"
    using rmqueue_correct [OF example_memory_wf, of 0 2] by (auto simp: MAX_NR_ZONES_def MAX_ORDER_def)
  have "r \<noteq> None"
  proof
    assume "r = None"
    then have "\<not> span 2 (unat page) \<subseteq> mem_frames example_memory"
      if "zone_block (zones example_memory ! 0) page 2" for page
      using r(3) that by simp
    then show False using example_block by blast
  qed
  then show ?thesis using r by (auto simp: example_memory_frames)
qed

text \<open>
  C3: \<open>__free_pages_ok\<close> merges a released block with its free buddies as far as possible
  without ever running into a \<open>BUG()\<close>: afterwards exactly the frames of the block are free
  in addition, and lists, bitmaps and counters are consistent again.
\<close>

theorem free_pages_ok_correct:
  assumes "memory_wf s" and "releasable s page order"
    and "span order (unat page) \<inter> mem_frames s = {}"
  shows "\<exists>s'. free_pages_ok page order s = Done s' \<and> memory_wf s' \<and> same_layout s s' \<and>
    mem_frames s' = mem_frames s \<union> span order (unat page) \<and> mem_map s' = mem_map s"
  by (rule free_pages_ok_release [OF assms])

lemma example_empty_wf:
  "memory_wf (example_memory\<lparr>zones := [example_zone\<lparr>z_free_pages := 0,
     z_free_area := replicate MAX_ORDER \<lparr>free_list = [], area_map = replicate 32 False\<rparr>\<rparr>,
     empty_zone, empty_zone]\<rparr>)"
  and example_empty_frames:
  "mem_frames (example_memory\<lparr>zones := [example_zone\<lparr>z_free_pages := 0,
     z_free_area := replicate MAX_ORDER \<lparr>free_list = [], area_map = replicate 32 False\<rparr>\<rparr>,
     empty_zone, empty_zone]\<rparr>) = {}"
proof -
  let ?z = "example_zone\<lparr>z_free_pages := 0,
     z_free_area := replicate MAX_ORDER \<lparr>free_list = [], area_map = replicate 32 False\<rparr>\<rparr>"
  have b: "zone_blocks ?z = (\<lambda>k. {})" by (rule ext) (simp add: zone_blocks_def)
  have fr: "zone_frames ?z = {}" by (simp add: zone_frames_def b free_frames_def)
  have "i div (2 * 2 ^ k) < 32" if "i < 16" for i k :: nat
    using div_le_dividend [of i "2 * 2 ^ k"] that by linarith
  then have "zone_inv ?z"
    unfolding zone_inv_def zone_core_def fr unfolding b
    by (auto simp: blocks_ok_def separated_def coalesced_def bits_ok_def zone_shape_def
        example_zone_def MAX_ORDER_def)
  then show "memory_wf (example_memory\<lparr>zones := [?z, empty_zone, empty_zone]\<rparr>)"
    unfolding memory_wf_def
    by (auto simp: less_3 example_memory_def empty_zone_inv zone_pages_def)
      (simp_all add: MAX_NR_ZONES_def example_zone_def empty_zone_def)
  show "mem_frames (example_memory\<lparr>zones := [?z, empty_zone, empty_zone]\<rparr>) = {}"
    unfolding mem_frames_def by (auto simp: less_3 fr empty_zone_inv)
qed

theorem free_pages_ok_correct_witness:
  "\<exists>s'. free_pages_ok 4 2 (example_memory\<lparr>zones := [example_zone\<lparr>z_free_pages := 0,
     z_free_area := replicate MAX_ORDER \<lparr>free_list = [], area_map = replicate 32 False\<rparr>\<rparr>,
     empty_zone, empty_zone]\<rparr>) = Done s' \<and> memory_wf s' \<and> mem_frames s' = {4 ..< 8}"
proof -
  let ?s = "example_memory\<lparr>zones := [example_zone\<lparr>z_free_pages := 0,
     z_free_area := replicate MAX_ORDER \<lparr>free_list = [], area_map = replicate 32 False\<rparr>\<rparr>,
     empty_zone, empty_zone]\<rparr>"
  have "zone_block (zones ?s ! 0) 4 2"
    by (simp add: zone_block_def example_zone_def placed_def MAX_ORDER_def)
  then have "releasable ?s 4 2"
    unfolding releasable_def
    by (auto simp: example_memory_def PageReserved_def PageSwapCache_def PageLocked_def MAX_NR_ZONES_def
        intro: exI [of _ 0])
  then show ?thesis
    using free_pages_ok_correct [OF example_empty_wf, of 4 2] unfolding example_empty_frames
    by (auto simp: span_def)
qed

lemma same_layout_frames:
  assumes wf: "memory_wf s" "memory_wf s'" and l: "same_layout s s'"
    and fr: "mem_frames s' = mem_frames s" and z: "zid < MAX_NR_ZONES"
  shows "zone_frames (zones s' ! zid) = zone_frames (zones s ! zid)"
proof -
  have f: "z_offset (zones s' ! zid) = z_offset (zones s ! zid)"
    "z_size (zones s' ! zid) = z_size (zones s ! zid)"
    using l z same_zone_fields [of "zones s ! zid" "zones s' ! zid"] by (auto simp: same_layout_def)
  have "i \<in> zone_frames (zones s' ! zid) \<longleftrightarrow> i \<in> zone_frames (zones s ! zid)"
    if "i < unat (z_size (zones s ! zid))" for i
    using mem_frames_zone [OF wf(1) z that] mem_frames_zone [OF wf(2) z, of i] that f fr by simp
  moreover have "zone_frames (zones s' ! zid) \<subseteq> {..<unat (z_size (zones s ! zid))}"
    "zone_frames (zones s ! zid) \<subseteq> {..<unat (z_size (zones s ! zid))}"
    using zone_frames_bound [OF memory_wf_zone(3) [OF wf(2) z]]
      zone_frames_bound [OF memory_wf_zone(3) [OF wf(1) z]] f by simp_all
  ultimately show ?thesis by blast
qed

text \<open>The free blocks and the counter of a zone are functions of its free frames.\<close>

lemma zone_canonical:
  assumes "zone_inv z" and "zone_inv z'" and "z_size z' = z_size z" and "zone_frames z' = zone_frames z"
  shows "zone_blocks z' = zone_blocks z \<and> z_free_pages z' = z_free_pages z"
proof -
  have "zone_blocks z' = zone_blocks z"
    using assms blocks_unique [of "unat (z_size z)" "zone_blocks z'" "zone_blocks z"]
    by (simp add: zone_inv_def zone_core_def zone_frames_def)
  moreover have "unat (z_free_pages z') = unat (z_free_pages z)"
    using assms by (simp add: zone_inv_def)
  ultimately show ?thesis by (simp add: word_unat_eq_iff)
qed

text \<open>
  C22: Giving a block back undoes taking it, at the level of the free lists: after a successful
  \<open>rmqueue\<close> followed by \<open>__free_pages\<close> of the same block every zone has the same free blocks of
  every order and the same counter as before, however the block was split off.
\<close>

theorem rmqueue_free_roundtrip:
  assumes "pool_wf s" and "zid < MAX_NR_ZONES" and "order < MAX_ORDER"
    and "rmqueue zid order s = Done (s1, Some page)"
  shows "\<exists>s2. free_pages_page page order s1 = Done s2 \<and>
    (\<forall>k<MAX_NR_ZONES. zone_blocks (zones s2 ! k) = zone_blocks (zones s ! k) \<and>
       z_free_pages (zones s2 ! k) = z_free_pages (zones s ! k))"
proof -
  note t = rmqueue_pool [OF assms]
  have wf: "memory_wf s" using assms(1) by (simp add: pool_wf_def)
  have lay: "same_layout s s1" using rmqueue_take [OF wf assms(2,3)] assms(4) by auto
  obtain s2 where s2: "free_pages_page page order s1 = Done s2" "pool_wf s2"
    "mem_frames s2 = mem_frames s1 \<union> span order (unat page)" "same_layout s1 s2"
    using free_pages_page_pool [of s1 page order] t by auto
  have wf2: "memory_wf s2" using s2(2) by (simp add: pool_wf_def)
  have lay2: "same_layout s s2" using same_layout_trans [OF lay s2(4)] .
  have fr: "mem_frames s2 = mem_frames s" using s2(3) t by blast
  have "zone_blocks (zones s2 ! k) = zone_blocks (zones s ! k) \<and>
      z_free_pages (zones s2 ! k) = z_free_pages (zones s ! k)" if k: "k < MAX_NR_ZONES" for k
    using memory_wf_zone(1) [OF wf k] memory_wf_zone(1) [OF wf2 k]
      same_layout_frames [OF wf wf2 lay2 fr k] lay2 k same_zone_fields [of "zones s ! k" "zones s2 ! k"]
    by (intro zone_canonical) (auto simp: same_layout_def)
  then show ?thesis using s2(1) by blast
qed

lemma example_pool_wf: "pool_wf example_memory"
  unfolding pool_wf_def
  by (simp add: example_memory_wf usable_page_def PageReserved_def PageSwapCache_def PageLocked_def)
    (simp add: example_memory_def)

theorem rmqueue_free_roundtrip_witness:
  "\<exists>s1 page s2. rmqueue 0 2 example_memory = Done (s1, Some page) \<and>
    free_pages_page page 2 s1 = Done s2 \<and>
    zone_blocks (zones s2 ! 0) = zone_blocks (zones example_memory ! 0)"
proof -
  have z: "0 < MAX_NR_ZONES" "2 < MAX_ORDER" by (simp_all add: MAX_NR_ZONES_def MAX_ORDER_def)
  obtain s1 page where "rmqueue 0 2 example_memory = Done (s1, Some page)"
    using rmqueue_take [OF example_memory_wf z] example_block by blast
  then show ?thesis using rmqueue_free_roundtrip [OF example_pool_wf z] z(1) by blast
qed

section \<open>Histories of the page pool\<close>

text \<open>
  The states of memory that a sequence of calls of \<open>rmqueue\<close> and \<open>__free_pages\<close> can reach,
  together with the blocks that have been handed out and not been given back.
\<close>

inductive buddy_run :: "'a memory_scheme \<Rightarrow> 'a memory_scheme \<Rightarrow> (ulong \<times> nat) list \<Rightarrow> bool"
  for s0 :: "'a memory_scheme"
where
  start: "buddy_run s0 s0 []"
| took: "buddy_run s0 s held \<Longrightarrow> zid < MAX_NR_ZONES \<Longrightarrow> order < MAX_ORDER \<Longrightarrow>
    rmqueue zid order s = Done (s', Some page) \<Longrightarrow> buddy_run s0 s' ((page, order) # held)"
| full: "buddy_run s0 s held \<Longrightarrow> zid < MAX_NR_ZONES \<Longrightarrow> order < MAX_ORDER \<Longrightarrow>
    rmqueue zid order s = Done (s', None) \<Longrightarrow> buddy_run s0 s' held"
| gave: "buddy_run s0 s (xs @ (page, order) # ys) \<Longrightarrow>
    free_pages_page page order s = Done s' \<Longrightarrow> buddy_run s0 s' (xs @ ys)"

lemma buddy_run_conserved:
  "buddy_run s0 s held \<Longrightarrow> pool_wf s0 \<Longrightarrow> buddy.conserved (mem_frames s0) s held"
proof (induction rule: buddy_run.induct)
  case start
  then show ?case by (rule buddy.conserved_start)
next
  case (took s held zid order s' page)
  then show ?case by (blast intro: buddy.conserved_grab)
next
  case (full s held zid order s')
  then have "s' = s" using buddy.grab_none [of s zid order s'] by (auto simp: buddy.conserved_def)
  then show ?case using full by simp
next
  case (gave s xs page order ys s')
  then show ?case using buddy.conserved_give [of "mem_frames s0" s xs page order ys] by auto
qed

text \<open>
  C21: Whatever sequence of allocations and releases has happened, no frame is lost and none is
  handed out twice: the blocks held by clients are pairwise disjoint, none of their frames
  is free, and together with the free frames they make up the frames that were free at the
  start. Every block held can be released without running into a \<open>BUG()\<close>.
\<close>

theorem buddy_history_conserves:
  assumes "pool_wf s0" and "buddy_run s0 s held"
  shows "memory_wf s \<and>
    sorted_wrt (\<lambda>(p, k) (q, l). span k (unat p) \<inter> span l (unat q) = {}) held \<and>
    (\<forall>p k. (p, k) \<in> set held \<longrightarrow> span k (unat p) \<inter> mem_frames s = {} \<and>
       (\<exists>s'. free_pages_page p k s = Done s')) \<and>
    mem_frames s \<union> (\<Union>(p, k)\<in>set held. span k (unat p)) = mem_frames s0"
proof -
  note c = buddy_run_conserved [OF assms(2,1)]
  have "\<exists>s'. free_pages_page p k s = Done s'" if m: "(p, k) \<in> set held" for p k
  proof -
    obtain xs ys where "held = xs @ (p, k) # ys" using split_list [OF m] by blast
    then show ?thesis using buddy.conserved_give [of "mem_frames s0" s xs p k ys] c by blast
  qed
  then show ?thesis
    using c unfolding buddy.conserved_def pool_wf_def by (intro conjI allI impI) simp_all
qed

theorem buddy_history_conserves_witness:
  "\<exists>s page. buddy_run example_memory s [(page, 2)] \<and>
    span 2 (unat page) \<inter> mem_frames s = {} \<and>
    mem_frames s \<union> span 2 (unat page) = {0 ..< 16}"
proof -
  have z: "0 < MAX_NR_ZONES" "2 < MAX_ORDER" by (simp_all add: MAX_NR_ZONES_def MAX_ORDER_def)
  obtain s page where "rmqueue 0 2 example_memory = Done (s, Some page)"
    using rmqueue_take [OF example_memory_wf z] example_block by blast
  then have r: "buddy_run example_memory s [(page, 2)]"
    by (rule buddy_run.took [OF buddy_run.start z])
  then show ?thesis
    using buddy_history_conserves [OF example_pool_wf r] by (auto simp: example_memory_frames)
qed

end
