(* ===== verification/Page_Requests.thy ===== *)
theory Page_Requests
  imports Page_Zones
begin

text \<open>
  What clients of \<open>mm/page_alloc.c\<close> rely on: an allocation request gets a free block of a zone
  that its \<open>gfp_mask\<close> allows and fails only when there is none, also when page reclaim runs in
  between; and the counters of free pages agree with the free lists and the free frames.
\<close>

section \<open>Requests that may not wait\<close>

lemma page_alloc_ext_simps [simp]:
  "memory_wf (s\<lparr>low_on_memory := b\<rparr>) = memory_wf s" "mem_frames (s\<lparr>low_on_memory := b\<rparr>) = mem_frames s"
  "memory_wf (s\<lparr>task_flags := w\<rparr>) = memory_wf s" "mem_frames (s\<lparr>task_flags := w\<rparr>) = mem_frames s"
  "same_layout s (s'\<lparr>low_on_memory := b\<rparr>) = same_layout s s'"
  "same_layout s (s'\<lparr>task_flags := w\<rparr>) = same_layout s s'"
  "same_layout (s\<lparr>low_on_memory := b\<rparr>) s' = same_layout s s'"
  "same_layout (s\<lparr>task_flags := w\<rparr>) s' = same_layout s s'"
  for s :: page_alloc
  by (simp_all add: memory_wf_def mem_frames_def same_layout_def)












definition example_alloc :: page_alloc where
  "example_alloc = build_zonelists (memory.extend example_memory
     \<lparr>nr_lru_pages = 0, freepages_min = 10, freepages_low = 20, freepages_high = 30,
      low_on_memory = False, task_flags = 0, task_policy = 0, zonelists = []\<rparr>)"

lemma example_alloc_simps:
  "zones example_alloc = zones example_memory" "mem_map example_alloc = mem_map example_memory"
  "max_mapnr example_alloc = max_mapnr example_memory"
  by (simp_all add: example_alloc_def build_zonelists_def memory.defs)

lemma example_alloc_wf:
  "memory_wf example_alloc" "mem_frames example_alloc = {0 ..< 16}"
  "zonelists example_alloc = zonelists (build_zonelists example_alloc)"
  "z_size (zones example_alloc ! ZONE_DMA) \<noteq> 0"
  using example_memory_wf example_memory_frames
  by (simp_all add: memory_wf_def mem_frames_def example_alloc_simps)
    (simp_all add: example_alloc_def build_zonelists_def zone_fallback_def Let_def memory.defs
      example_memory_def example_zone_def ZONE_DMA_def)


section \<open>Requests that may reclaim pages\<close>









section \<open>Counters\<close>

lemma card_mem_frames:
  assumes wf: "memory_wf s"
  shows "card (mem_frames s) = (\<Sum>zid<MAX_NR_ZONES. unat (z_free_pages (zones s ! zid)))"
    and "card (mem_frames s) \<le> unat (max_mapnr s)"
proof -
  let ?f = "\<lambda>k. (\<lambda>i. unat (z_offset (zones s ! k)) + i) ` zone_frames (zones s ! k)"
  have bound: "i < unat (z_size (zones s ! k))" if "k < MAX_NR_ZONES" "i \<in> zone_frames (zones s ! k)" for k i
    using zone_frames_bound [OF memory_wf_zone(3) [OF wf that(1)]] that(2) by blast
  have "card (mem_frames s) = (\<Sum>k<MAX_NR_ZONES. card (?f k))"
    unfolding mem_frames_def
  proof (intro card_UN_disjoint ballI impI)
    fix k assume "k \<in> {..<MAX_NR_ZONES}"
    then show "finite (?f k)" using finite_zone_frames [OF memory_wf_zone(3) [OF wf]] by simp
  next
    fix k l assume kl: "k \<in> {..<MAX_NR_ZONES}" "l \<in> {..<MAX_NR_ZONES}" "k \<noteq> l"
    then show "?f k \<inter> ?f l = {}"
      using zones_disjoint [OF wf, of k l] bound by (fastforce simp del: One_nat_def)
  qed simp
  also have "\<dots> = (\<Sum>k<MAX_NR_ZONES. unat (z_free_pages (zones s ! k)))"
    using memory_wf_zone(1) [OF wf] by (intro sum.cong) (auto simp: zone_inv_def card_image)
  finally show "card (mem_frames s) = (\<Sum>k<MAX_NR_ZONES. unat (z_free_pages (zones s ! k)))" .
  have "mem_frames s \<subseteq> {..<unat (max_mapnr s)}"
    using bound memory_wf_zone(5) [OF wf] unfolding mem_frames_def by fastforce
  then show "card (mem_frames s) \<le> unat (max_mapnr s)"
    using card_mono [of "{..<unat (max_mapnr s)}" "mem_frames s"] by simp
qed

lemma card_zone_frames:
  assumes "zone_core z"
  shows "card (zone_frames z) = (\<Sum>k<MAX_ORDER. length (free_list (z_free_area z ! k)) * 2 ^ k)"
proof -
  let ?F = "zone_blocks z"
  have ok: "blocks_ok (unat (z_size z)) ?F" and s: "zone_shape z"
    using assms by (simp_all add: zone_core_def)
  have fin: "finite (?F k)" for k by (simp add: zone_blocks_def)
  have eq: "zone_frames z = (\<Union>(k, i)\<in>(SIGMA k:{..<MAX_ORDER}. ?F k). span k i)"
    unfolding zone_frames_def using blocks_ok_placed [OF ok]
    by (auto simp: mem_free_frames placed_def; blast)
  have "card (zone_frames z) = (\<Sum>(k, i)\<in>(SIGMA k:{..<MAX_ORDER}. ?F k). card (span k i))"
    unfolding eq split_beta
  proof (intro card_UN_disjoint ballI impI)
    fix x y assume "x \<in> (SIGMA k:{..<MAX_ORDER}. ?F k)" "y \<in> (SIGMA k:{..<MAX_ORDER}. ?F k)" "x \<noteq> y"
    then show "span (fst x) (snd x) \<inter> span (fst y) (snd y) = {}"
      using blocks_ok_separated [OF ok, of "snd x" "fst x" "snd y" "fst y"]
      by (cases x; cases y) auto
  qed (use fin in auto)
  also have "\<dots> = (\<Sum>k<MAX_ORDER. \<Sum>i\<in>?F k. 2 ^ k)"
    using fin by (subst sum.Sigma) auto
  also have "\<dots> = (\<Sum>k<MAX_ORDER. length (free_list (z_free_area z ! k)) * 2 ^ k)"
  proof (rule sum.cong)
    fix k assume "k \<in> {..<MAX_ORDER}"
    then have "distinct (free_list (z_free_area z ! k))" "k < MAX_ORDER"
      using s by (auto simp: zone_shape_def)
    then have "card (?F k) = length (free_list (z_free_area z ! k))"
      unfolding zone_blocks_def
      by (simp add: card_image inj_on_def word_unat_eq_iff [symmetric] distinct_card)
    then show "(\<Sum>i\<in>?F k. 2 ^ k) = length (free_list (z_free_area z ! k)) * 2 ^ k" by simp
  qed simp
  finally show ?thesis .
qed

lemma foldl_add_sum: "foldl (\<lambda>sum k. sum + f k) c [0 ..< n] = c + (\<Sum>k<n. (f k :: ulong))"
  by (induction n) (simp_all add: add.assoc)

lemma unat_sum_no_wrap:
  "(\<Sum>k<(n :: nat). unat (f k :: ulong)) < 2 ^ 32 \<Longrightarrow> unat (\<Sum>k<n. f k) = (\<Sum>k<n. unat (f k))"
proof (induction n)
  case (Suc n)
  then have "unat (\<Sum>k<n. f k) = (\<Sum>k<n. unat (f k))" by simp
  then show ?case using Suc.prems by (simp add: unat_plus_no_wrap)
qed simp

lemma show_zone_total:
  assumes inv: "zone_inv z" and small: "unat (z_size z) < 2 ^ 30"
  shows "unat (snd (show_zone z)) = 4 * card (zone_frames z)"
proof -
  let ?n = "\<lambda>k. length (free_list (z_free_area z ! k))"
  have c: "zone_core z" using inv by (simp add: zone_inv_def)
  have le: "card (zone_frames z) \<le> unat (z_size z)"
    using card_mono [OF _ zone_frames_bound [OF c]] by simp
  show ?thesis
  proof (cases "z_size z = 0")
    case True
    then show ?thesis using le by (simp add: show_zone_def)
  next
    case False
    have each: "?n k * 2 ^ k \<le> card (zone_frames z)" if "k < MAX_ORDER" for k
      unfolding card_zone_frames [OF c] using that
      by (intro member_le_sum [where f = "\<lambda>k. ?n k * 2 ^ k"]) auto
    have trm: "unat (of_nat (?n k) * push_bit k 1 :: ulong) = ?n k * 2 ^ k" if "k < MAX_ORDER" for k
    proof -
      have "?n k \<le> ?n k * 2 ^ k" by simp
      also have "\<dots> < 2 ^ 32" using each [OF that] le small by simp
      finally have "?n k < 2 ^ 32" .
      then have "unat (of_nat (?n k) :: ulong) = ?n k"
        by (simp add: unsigned_of_nat take_bit_nat_eq_self)
      moreover have "unat (push_bit k 1 :: ulong) = 2 ^ k"
        using that by (simp add: push_bit_eq_mult unat_two_power MAX_ORDER_def)
      moreover have "?n k * 2 ^ k < 2 ^ 32" using each [OF that] le small by simp
      ultimately show ?thesis by (simp only: unat_word_ariths) simp
    qed
    let ?sum = "\<Sum>k<MAX_ORDER. of_nat (?n k) * push_bit k 1 :: ulong"
    have total: "(\<Sum>k<MAX_ORDER. unat (of_nat (?n k) * push_bit k 1 :: ulong)) = card (zone_frames z)"
      unfolding card_zone_frames [OF c] by (rule sum.cong [OF refl]) (rule trm, simp)
    then have "unat ?sum = card (zone_frames z)"
      using le small by (subst unat_sum_no_wrap) simp_all
    moreover have "snd (show_zone z) = 4 * ?sum"
      using False by (simp add: show_zone_def foldl_add_sum)
    ultimately show ?thesis using le small by (simp add: unat_word_ariths)
  qed
qed

text \<open>
  The counters agree with the lists. \<open>nr_free_pages\<close> is the number of free page frames,
  without overflow, and for every zone the total that \<open>show_free_areas\<close> finds by walking the
  free lists is the counter of the zone, in kilobytes.
\<close>

theorem free_counters_agree:
  assumes "memory_wf s" and "zid < MAX_NR_ZONES" and "unat (z_size (zones s ! zid)) < 2 ^ 30"
  shows "unat (nr_free_pages s) = card (mem_frames s) \<and>
    unat (snd (snd (snd (show_free_areas s)) ! zid)) = 4 * unat (z_free_pages (zones s ! zid))"
proof
  have "(\<Sum>k<MAX_NR_ZONES. unat (z_free_pages (zones s ! k))) < 2 ^ 32"
    using card_mem_frames [OF assms(1)] unsigned_less [of "max_mapnr s", where 'a = nat] by simp
  then show "unat (nr_free_pages s) = card (mem_frames s)"
    unfolding card_mem_frames(1) [OF assms(1)] nr_free_pages_def foldl_add_sum
    by (simp add: unat_sum_no_wrap)
  have "unat (snd (show_zone (zones s ! zid))) = 4 * card (zone_frames (zones s ! zid))"
    using memory_wf_zone(1) [OF assms(1,2)] assms(3) by (rule show_zone_total)
  then show "unat (snd (snd (snd (show_free_areas s)) ! zid)) = 4 * unat (z_free_pages (zones s ! zid))"
    using memory_wf_zone(1) [OF assms(1,2)] assms(2) by (simp add: show_free_areas_def zone_inv_def)
qed

theorem free_counters_agree_witness:
  "unat (nr_free_pages example_alloc) = 16 \<and>
    unat (snd (snd (snd (show_free_areas example_alloc)) ! 0)) = 64"
proof -
  have z: "0 < MAX_NR_ZONES" "unat (z_size (zones example_alloc ! 0)) < 2 ^ 30"
    "unat (z_free_pages (zones example_alloc ! 0)) = 16"
    by (simp_all add: MAX_NR_ZONES_def example_alloc_simps example_memory_def example_zone_def)
  then show ?thesis
    using free_counters_agree [OF example_alloc_wf(1) z(1,2)] by (simp add: example_alloc_wf(2))
qed

section \<open>Hysteresis\<close>

text \<open>
  Balancing has hysteresis. A call of \<open>balance_memory\<close> that does not reclaim pages enters
  the low-memory mode iff fewer than \<open>freepages.low\<close> pages are free and leaves it only when
  at least \<open>freepages.high\<close> are free; in between the mode does not change. In that mode, and
  for a mask with \<open>__GFP_WAIT\<close>, reclaim is called with \<open>PF_MEMALLOC\<close> set.
\<close>

theorem balance_memory_hysteresis:
  assumes "freepages_low s \<le> freepages_high s"
  shows "low_on_memory (fst (balance_memory ttfp 0 s)) =
      (nr_free_pages s < freepages_low s \<or> low_on_memory s \<and> nr_free_pages s < freepages_high s) \<and>
    (nr_free_pages s < freepages_low s \<and> gfp_mask AND GFP_WAIT \<noteq> 0 \<longrightarrow>
      (let (s1, freed) = ttfp gfp_mask (s\<lparr>low_on_memory := True, task_flags := task_flags s OR PF_MEMALLOC\<rparr>)
       in balance_memory ttfp gfp_mask s = (s1\<lparr>task_flags := task_flags s1 AND NOT PF_MEMALLOC\<rparr>,
            freed \<or> gfp_mask AND (GFP_MED OR GFP_HIGH) \<noteq> 0)))"
  using assms by (auto simp: balance_memory_def reclaim_pages_def Let_def not_le split_beta)

theorem balance_memory_hysteresis_witness:
  "low_on_memory (fst (balance_memory (\<lambda>g s. (s, False)) 0 example_alloc))"
proof -
  have "freepages_low example_alloc = 20" "freepages_high example_alloc = 30"
    by (simp_all add: example_alloc_def build_zonelists_def memory.defs)
  moreover have "nr_free_pages example_alloc = 16"
    by (simp add: nr_free_pages_def example_alloc_simps example_memory_def example_zone_def
        empty_zone_def MAX_NR_ZONES_def upt_rec)
  ultimately show ?thesis
    using balance_memory_hysteresis [of example_alloc "\<lambda>g s. (s, False)"] by simp
qed

end
