(* ===== verification/Page_Boot.thy ===== *)
theory Page_Boot
  imports Page_Requests
begin

text \<open>
  The hand-over from the boot-time allocator to the page allocator: \<open>free_area_init\<close> of
  \<open>mm/page_alloc.c\<close>, which sets up zones without a single free page, and \<open>free_all_bootmem\<close>
  of \<open>mm/bootmem.c\<close>, which releases every page that is not reserved through
  \<open>__free_page\<close>. \<open>sizeof (struct page)\<close> is a parameter. The theory shows that the invariant of
  the page allocator holds after both and that exactly the right pages are free.
\<close>

section \<open>Setting up the zones\<close>








section \<open>Releasing the boot memory\<close>









section \<open>The zones after set-up\<close>













lemma build_zonelists_same [simp]:
  "memory_wf (build_zonelists s) = memory_wf s" "mem_frames (build_zonelists s) = mem_frames s"
  "mem_map (build_zonelists s) = mem_map s" "zones (build_zonelists s) = zones s"
  "freepages_min (build_zonelists s) = freepages_min s"
  by (simp_all add: build_zonelists_def memory_wf_def mem_frames_def)



section \<open>Releasing pages one by one\<close>

















end
