(* ===== verification/Ipc_Ids.thy ===== *)
theory Ipc_Ids
  imports Kernel_Prelude
begin

text \<open>
  The identifier arrays of System V IPC: \<open>ipc/util.c\<close> and the inline functions of
  \<open>ipc/util.h\<close>. An array maps a slot to the address of an object; an identifier is the slot
  plus the sequence number the object got when it was created. The spinlock \<open>ary\<close> is a flag:
  acquiring it twice on one processor never returns (\<open>Bug\<close>). A read outside the array is
  \<open>Bug\<close> as well. Memory allocation is outside this component: whether it succeeds is an
  argument. The theory shows that the counters agree with the array, that identifiers
  determine slot and sequence number, and that the slot search finds the first free slot.
\<close>

section \<open>Credentials\<close>

type_synonym addr = nat

text \<open>The fields of \<open>task_struct\<close> that permission checks read.\<close>

record cred =
  euid :: "16 word"
  egid :: "16 word"
  fsgid :: "16 word"
  groups :: "16 word list"
  cap_effective :: ulong

definition CAP_IPC_OWNER :: nat where "CAP_IPC_OWNER = 15"
definition CAP_SYS_ADMIN :: nat where "CAP_SYS_ADMIN = 21"

definition CAP_TO_MASK :: "nat \<Rightarrow> ulong" where
  "CAP_TO_MASK x = push_bit x 1"

definition cap_raised :: "ulong \<Rightarrow> ulong \<Rightarrow> nat \<Rightarrow> bool" where
  "cap_raised cap_bset c cap_flag \<longleftrightarrow> c AND CAP_TO_MASK cap_flag AND cap_bset \<noteq> 0"

definition capable :: "ulong \<Rightarrow> cred \<Rightarrow> nat \<Rightarrow> bool" where
  "capable cap_bset current cap \<longleftrightarrow> cap_raised cap_bset (cap_effective current) cap"

definition in_group_p :: "cred \<Rightarrow> 16 word \<Rightarrow> bool" where
  "in_group_p current grp \<longleftrightarrow> grp = fsgid current \<or> grp \<in> set (groups current)"

section \<open>Objects and arrays\<close>

record ipc_perm =
  key :: int
  uid :: "16 word"
  gid :: "16 word"
  cuid :: "16 word"
  cgid :: "16 word"
  mode :: "16 word"
  seq :: "16 word"

record ipc_ids =
  ids_size :: int
  in_use :: int
  max_id :: int
  ids_seq :: "16 word"
  seq_max :: "16 word"
  ary :: bool
  entries :: "addr option list"

definition IPCMNI :: int where "IPCMNI = 32768"
definition SEQ_MULTIPLIER :: int where "SEQ_MULTIPLIER = IPCMNI"
definition USHRT_MAX :: int where "USHRT_MAX = 0xffff"
definition INT_MAX :: int where "INT_MAX = 2 ^ 31 - 1"

text \<open>The flags and modes that the calls of all components take.\<close>

definition IPC_PRIVATE :: int where "IPC_PRIVATE = 0"
definition IPC_CREAT :: ulong where "IPC_CREAT = 0x200"
definition IPC_EXCL :: ulong where "IPC_EXCL = 0x400"
definition S_IRWXUGO :: "16 word" where "S_IRWXUGO = 0x1ff"
definition S_IRUGO :: "16 word" where "S_IRUGO = 0x124"
definition S_IWUGO :: "16 word" where "S_IWUGO = 0x92"
definition IPC_NOWAIT :: "16 word" where "IPC_NOWAIT = 0x800"

lemmas ipc_limits = IPCMNI_def SEQ_MULTIPLIER_def USHRT_MAX_def INT_MAX_def

definition entry :: "ipc_ids \<Rightarrow> int \<Rightarrow> addr option outcome" where
  "entry ids i =
     (if 0 \<le> i \<and> i < int (length (entries ids)) then Done (entries ids ! nat i) else Bug)"

definition spin_lock :: "ipc_ids \<Rightarrow> ipc_ids outcome" where
  "spin_lock ids = (if ary ids then Bug else Done (ids\<lparr>ary := True\<rparr>))"

definition spin_unlock :: "ipc_ids \<Rightarrow> ipc_ids" where
  "spin_unlock ids = ids\<lparr>ary := False\<rparr>"

text \<open>
  When the allocation fails, \<open>entries\<close> is NULL and the loop that clears the array still runs.
\<close>

definition ipc_init_ids :: "ipc_ids \<Rightarrow> int \<Rightarrow> bool \<Rightarrow> ipc_ids outcome" where
  "ipc_init_ids ids0 size0 mem_ok =
     (let ids1 = ids0\<lparr>ids_size := size0\<rparr>
      in if size0 = 0 then Done ids1
         else
           let n = (if size0 > IPCMNI then IPCMNI else size0);
               seq_limit = INT_MAX div SEQ_MULTIPLIER;
               ids2 = ids1\<lparr>in_use := 0, max_id := -1, ids_seq := 0,
                 seq_max := (if seq_limit > USHRT_MAX then of_int USHRT_MAX else of_int seq_limit)\<rparr>
           in if mem_ok then Done (ids2\<lparr>ary := False, entries := replicate (nat n) None\<rparr>)
              else if n > 0 then Bug
              else Done (ids2\<lparr>ids_size := 0, ary := False, entries := []\<rparr>))"

function findkey_loop :: "(addr \<Rightarrow> ipc_perm) \<Rightarrow> ipc_ids \<Rightarrow> int \<Rightarrow> int \<Rightarrow> int outcome" where
  "findkey_loop perm ids k i =
     (if i \<le> max_id ids then
        (case entry ids i of
           Bug \<Rightarrow> Bug
         | Done None \<Rightarrow> findkey_loop perm ids k (i + 1)
         | Done (Some p) \<Rightarrow>
             if k = key (perm p) then Done i else findkey_loop perm ids k (i + 1))
      else Done (-1))"
  by pat_completeness auto
termination by (relation "measure (\<lambda>(perm, ids, k, i). nat (max_id ids + 1 - i))") auto

definition ipc_findkey :: "(addr \<Rightarrow> ipc_perm) \<Rightarrow> ipc_ids \<Rightarrow> int \<Rightarrow> int outcome" where
  "ipc_findkey perm ids k = findkey_loop perm ids k 0"

definition grow_ary :: "ipc_ids \<Rightarrow> int \<Rightarrow> bool \<Rightarrow> (ipc_ids \<times> int) outcome" where
  "grow_ary ids newsize0 mem_ok =
     (let newsize = (if newsize0 > IPCMNI then IPCMNI else newsize0)
      in if newsize \<le> ids_size ids then Done (ids, newsize)
         else if \<not> mem_ok then Done (ids, ids_size ids)
         else
           let new = take (nat (ids_size ids)) (entries ids) @
                 replicate (nat newsize - nat (ids_size ids)) None
           in bind_outcome (spin_lock ids) (\<lambda>ids.
                let ids = spin_unlock (ids\<lparr>entries := new, ids_size := newsize\<rparr>)
                in Done (ids, ids_size ids)))"

definition ipc_lock :: "ipc_ids \<Rightarrow> int \<Rightarrow> (ipc_ids \<times> addr option) outcome" where
  "ipc_lock ids i =
     (let lid = i mod SEQ_MULTIPLIER
      in if lid > ids_size ids then Done (ids, None)
         else
           bind_outcome (spin_lock ids) (\<lambda>ids.
           bind_outcome (entry ids lid) (\<lambda>out.
             case out of
               None \<Rightarrow> Done (spin_unlock ids, None)
             | Some p \<Rightarrow> Done (ids, Some p))))"

definition ipc_unlock :: "ipc_ids \<Rightarrow> ipc_ids" where
  "ipc_unlock ids = spin_unlock ids"

definition ipc_buildid :: "int \<Rightarrow> 16 word \<Rightarrow> int" where
  "ipc_buildid i sq = SEQ_MULTIPLIER * uint sq + i"

definition ipc_checkid :: "ipc_perm \<Rightarrow> int \<Rightarrow> bool" where
  "ipc_checkid ipcp i \<longleftrightarrow> i div SEQ_MULTIPLIER \<noteq> uint (seq ipcp)"

function addid_loop :: "ipc_ids \<Rightarrow> int \<Rightarrow> int \<Rightarrow> int option outcome" where
  "addid_loop ids n i =
     (if i < n then
        (case entry ids i of
           Bug \<Rightarrow> Bug
         | Done None \<Rightarrow> Done (Some i)
         | Done (Some p) \<Rightarrow> addid_loop ids n (i + 1))
      else Done None)"
  by pat_completeness auto
termination by (relation "measure (\<lambda>(ids, n, i). nat (n - i))") auto

text \<open>The object at address \<open>p\<close> with permissions \<open>new\<close> gets a slot; \<open>-1\<close> when there is none.\<close>

definition ipc_addid ::
  "cred \<Rightarrow> ipc_ids \<Rightarrow> addr \<Rightarrow> ipc_perm \<Rightarrow> int \<Rightarrow> bool \<Rightarrow> (ipc_ids \<times> ipc_perm \<times> int) outcome" where
  "ipc_addid current ids p new size0 mem_ok =
     bind_outcome (grow_ary ids size0 mem_ok) (\<lambda>(ids, n).
     bind_outcome (addid_loop ids n 0) (\<lambda>found.
       case found of
         None \<Rightarrow> Done (ids, new, -1)
       | Some i \<Rightarrow>
           let ids = ids\<lparr>in_use := in_use ids + 1\<rparr>;
               ids = (if i > max_id ids then ids\<lparr>max_id := i\<rparr> else ids);
               new = new\<lparr>cuid := euid current, uid := euid current,
                         gid := egid current, cgid := egid current, seq := ids_seq ids\<rparr>;
               ids = ids\<lparr>ids_seq := ids_seq ids + 1\<rparr>;
               ids = (if ids_seq ids > seq_max ids then ids\<lparr>ids_seq := 0\<rparr> else ids)
           in bind_outcome (ipc_lock ids i) (\<lambda>(ids, _).
                Done (ids\<lparr>entries := (entries ids)[nat i := Some p]\<rparr>, new, i))))"

function rmid_loop :: "ipc_ids \<Rightarrow> int \<Rightarrow> int outcome" where
  "rmid_loop ids lid0 =
     (let lid = lid0 - 1
      in if lid = -1 then Done lid
         else case entry ids lid of
                Bug \<Rightarrow> Bug
              | Done None \<Rightarrow> rmid_loop ids lid
              | Done (Some p) \<Rightarrow> Done lid)"
  by pat_completeness auto
termination
  by (relation "measure (\<lambda>(ids, lid). nat lid)") (auto simp: entry_def split: if_splits)

definition ipc_rmid :: "ipc_ids \<Rightarrow> int \<Rightarrow> (ipc_ids \<times> addr) outcome" where
  "ipc_rmid ids i =
     (let lid = i mod SEQ_MULTIPLIER
      in if lid > ids_size ids then Bug
         else
           bind_outcome (entry ids lid) (\<lambda>p.
           let ids = ids\<lparr>entries := (entries ids)[nat lid := None]\<rparr>
           in case p of
                None \<Rightarrow> Bug
              | Some p \<Rightarrow>
                  let ids = ids\<lparr>in_use := in_use ids - 1\<rparr>
                  in if lid = max_id ids then
                       bind_outcome (rmid_loop ids lid) (\<lambda>m. Done (ids\<lparr>max_id := m\<rparr>, p))
                     else Done (ids, p)))"

declare findkey_loop.simps [simp del] addid_loop.simps [simp del] rmid_loop.simps [simp del]

text \<open>Permission check; the result is true when access is denied.\<close>

definition ipcperms :: "ulong \<Rightarrow> cred \<Rightarrow> ipc_perm \<Rightarrow> 16 word \<Rightarrow> bool" where
  "ipcperms cap_bset current ipcp access =
     (let requested_mode = drop_bit 6 access OR drop_bit 3 access OR access;
          granted_mode =
            (if euid current = cuid ipcp \<or> euid current = uid ipcp then drop_bit 6 (mode ipcp)
             else if in_group_p current (cgid ipcp) \<or> in_group_p current (gid ipcp)
             then drop_bit 3 (mode ipcp)
             else mode ipcp)
      in requested_mode AND NOT granted_mode AND 7 \<noteq> 0 \<and> \<not> capable cap_bset current CAP_IPC_OWNER)"

section \<open>The array and its counters\<close>

definition used_slots :: "ipc_ids \<Rightarrow> nat" where
  "used_slots ids = length (filter (\<lambda>e. e \<noteq> None) (entries ids))"

definition top_slot :: "ipc_ids \<Rightarrow> int \<Rightarrow> bool" where
  "top_slot ids m \<longleftrightarrow> -1 \<le> m \<and> m < int (length (entries ids)) \<and>
     (0 \<le> m \<longrightarrow> entries ids ! nat m \<noteq> None) \<and>
     (\<forall>j < length (entries ids). m < int j \<longrightarrow> entries ids ! j = None)"

definition ids_wf :: "ipc_ids \<Rightarrow> bool" where
  "ids_wf ids \<longleftrightarrow> ids_size ids = int (length (entries ids)) \<and> ids_size ids \<le> IPCMNI \<and>
     in_use ids = int (used_slots ids) \<and> top_slot ids (max_id ids)"

lemma filter_update:
  "i < length xs \<Longrightarrow> xs ! i = None \<Longrightarrow>
     length (filter (\<lambda>e. e \<noteq> None) (xs[i := Some p])) = Suc (length (filter (\<lambda>e. e \<noteq> None) xs))"
  by (induction xs arbitrary: i) (auto split: nat.splits)

lemma filter_clear:
  "i < length xs \<Longrightarrow> xs ! i = Some p \<Longrightarrow>
     Suc (length (filter (\<lambda>e. e \<noteq> None) (xs[i := None]))) = length (filter (\<lambda>e. e \<noteq> None) xs)"
  by (induction xs arbitrary: i) (auto split: nat.splits)

lemma entry_in: "0 \<le> i \<Longrightarrow> i < int (length (entries ids)) \<Longrightarrow> entry ids i = Done (entries ids ! nat i)"
  by (simp add: entry_def)

lemma addid_loop_spec:
  assumes "0 \<le> i" "n \<le> int (length (entries ids))"
  obtains (full) "addid_loop ids n i = Done None" "\<And>j. i \<le> j \<Longrightarrow> j < n \<Longrightarrow> entries ids ! nat j \<noteq> None"
  | (free) j where "addid_loop ids n i = Done (Some j)" "i \<le> j" "j < n" "entries ids ! nat j = None"
      "\<And>k. i \<le> k \<Longrightarrow> k < j \<Longrightarrow> entries ids ! nat k \<noteq> None"
  using assms
proof (induction ids n i arbitrary: thesis rule: addid_loop.induct)
  case (1 ids n i)
  show thesis
  proof (cases "i < n")
    case True
    then have e: "entry ids i = Done (entries ids ! nat i)" using 1 by (intro entry_in) auto
    show thesis
    proof (cases "entries ids ! nat i")
      case None
      show thesis
        by (rule 1(3) [of i]) (use True None e in \<open>auto simp: addid_loop.simps\<close>)
    next
      case (Some p)
      then have step: "addid_loop ids n i = addid_loop ids n (i + 1)"
        using True e by (subst addid_loop.simps) simp
      have split: "i \<le> k \<Longrightarrow> k = i \<or> i + 1 \<le> k" for k by linarith
      show thesis
      proof (rule 1(1) [OF True, of "Some p" p])
        show "entry ids i = Done (Some p)" using e Some by simp
      next
        assume "addid_loop ids n (i + 1) = Done None"
          and "\<And>j. i + 1 \<le> j \<Longrightarrow> j < n \<Longrightarrow> entries ids ! nat j \<noteq> None"
        then show thesis using 1(2) step split Some by (metis option.distinct(1))
      next
        fix j assume "addid_loop ids n (i + 1) = Done (Some j)" "i + 1 \<le> j" "j < n"
          "entries ids ! nat j = None" "\<And>k. i + 1 \<le> k \<Longrightarrow> k < j \<Longrightarrow> entries ids ! nat k \<noteq> None"
        then show thesis using 1(3) [of j] step split Some by (metis option.distinct(1) add1_zle_eq less_le)
      qed (use 1 in auto)
    qed
  next
    case False
    show thesis by (rule 1(2)) (use False in \<open>auto simp: addid_loop.simps\<close>)
  qed
qed

lemma rmid_loop_spec:
  assumes "0 \<le> m" "m < int (length (entries ids))" "entries ids ! nat m = None"
    "\<forall>j < length (entries ids). m < int j \<longrightarrow> entries ids ! j = None"
  shows "\<exists>m'. rmid_loop ids m = Done m' \<and> m' < m \<and> top_slot ids m'"
  using assms
proof (induction "nat m" arbitrary: m rule: less_induct)
  case less
  show ?case
  proof (cases "m = 0")
    case True
    then have "\<forall>j < length (entries ids). -1 < int j \<longrightarrow> entries ids ! j = None"
      using less.prems by (metis nat_0 of_nat_0_less_iff bot_nat_0.not_eq_extremum)
    then show ?thesis using True by (auto simp: rmid_loop.simps top_slot_def)
  next
    case False
    then have e: "entry ids (m - 1) = Done (entries ids ! nat (m - 1))"
      using less.prems by (intro entry_in) auto
    have above: "\<forall>j < length (entries ids). m - 1 < int j \<longrightarrow> entries ids ! j = None"
      using less.prems by (metis nat_int order_le_less zle_diff1_eq linorder_not_le)
    show ?thesis
    proof (cases "entries ids ! nat (m - 1)")
      case None
      then have "\<exists>m'. rmid_loop ids (m - 1) = Done m' \<and> m' < m - 1 \<and> top_slot ids m'"
        using less.prems False above by (intro less.hyps) auto
      moreover have "rmid_loop ids m = rmid_loop ids (m - 1)"
        using e None False by (subst rmid_loop.simps) simp
      ultimately show ?thesis by force
    next
      case (Some p)
      then have "rmid_loop ids m = Done (m - 1)"
        using e False by (subst rmid_loop.simps) simp
      then show ?thesis using above Some less.prems False by (auto simp: top_slot_def)
    qed
  qed
qed

lemma findkey_loop_spec:
  assumes "0 \<le> i" "top_slot ids (max_id ids)"
  shows "\<exists>r. findkey_loop perm ids k i = Done r \<and>
    (if r = -1 then \<forall>j p. i \<le> int j \<longrightarrow> j < length (entries ids) \<longrightarrow> entries ids ! j = Some p \<longrightarrow> key (perm p) \<noteq> k
     else i \<le> r \<and> r < int (length (entries ids)) \<and>
       (\<exists>p. entries ids ! nat r = Some p \<and> key (perm p) = k))"
  using assms
proof (induction perm ids k i rule: findkey_loop.induct)
  case (1 perm ids k i)
  show ?case
  proof (cases "i \<le> max_id ids")
    case True
    then have e: "entry ids i = Done (entries ids ! nat i)"
      using 1(3,4) by (intro entry_in) (auto simp: top_slot_def)
    show ?thesis
    proof (cases "\<exists>p. entries ids ! nat i = Some p \<and> key (perm p) = k")
      case hit: True
      then have "findkey_loop perm ids k i = Done i" using True e by (auto simp: findkey_loop.simps)
      then show ?thesis using hit 1(3,4) True by (auto simp: top_slot_def)
    next
      case miss: False
      then have step: "findkey_loop perm ids k i = findkey_loop perm ids k (i + 1)"
        using True e by (subst findkey_loop.simps) (auto split: option.splits)
      have "\<exists>r. findkey_loop perm ids k (i + 1) = Done r \<and>
        (if r = -1 then \<forall>j p. i + 1 \<le> int j \<longrightarrow> j < length (entries ids) \<longrightarrow>
             entries ids ! j = Some p \<longrightarrow> key (perm p) \<noteq> k
         else i + 1 \<le> r \<and> r < int (length (entries ids)) \<and>
           (\<exists>p. entries ids ! nat r = Some p \<and> key (perm p) = k))"
        using 1(1) [OF True e] 1(2) [OF True e] 1(3,4) miss
        by (cases "entries ids ! nat i") auto
      then obtain r where r: "findkey_loop perm ids k (i + 1) = Done r"
        "if r = -1 then \<forall>j p. i + 1 \<le> int j \<longrightarrow> j < length (entries ids) \<longrightarrow>
             entries ids ! j = Some p \<longrightarrow> key (perm p) \<noteq> k
         else i + 1 \<le> r \<and> r < int (length (entries ids)) \<and>
           (\<exists>p. entries ids ! nat r = Some p \<and> key (perm p) = k)"
        by blast
      have here: "\<forall>p. entries ids ! nat i = Some p \<longrightarrow> key (perm p) \<noteq> k" using miss by blast
      have sp: "i \<le> int j \<Longrightarrow> j = nat i \<or> i + 1 \<le> int j" for j by linarith
      show ?thesis
      proof (cases "r = -1")
        case True
        then have "\<forall>j p. i \<le> int j \<longrightarrow> j < length (entries ids) \<longrightarrow> entries ids ! j = Some p \<longrightarrow> key (perm p) \<noteq> k"
          using r(2) here sp by (metis (mono_tags, lifting))
        then show ?thesis using step r(1) True by simp
      qed (use step r in auto)
    qed
  next
    case False
    then have "findkey_loop perm ids k i = Done (-1)" by (simp add: findkey_loop.simps)
    moreover have "\<forall>j p. i \<le> int j \<longrightarrow> j < length (entries ids) \<longrightarrow> entries ids ! j = Some p \<longrightarrow> key (perm p) \<noteq> k"
      using False 1(4) by (auto simp: top_slot_def)
    ultimately show ?thesis by simp
  qed
qed

lemma ipc_findkey_spec:
  assumes "ids_wf ids"
  shows "\<exists>r. ipc_findkey perm ids k = Done r \<and>
    (if r = -1 then \<forall>p. Some p \<in> set (entries ids) \<longrightarrow> key (perm p) \<noteq> k
     else 0 \<le> r \<and> r < ids_size ids \<and>
       (\<exists>p. entries ids ! nat r = Some p \<and> key (perm p) = k))"
  using findkey_loop_spec [of 0 ids perm k] assms
  by (auto simp: ids_wf_def ipc_findkey_def in_set_conv_nth split: if_splits)

text \<open>Growing the array keeps its slots, and the counters stay right.\<close>

lemma grow_ary_spec:
  assumes "ids_wf ids" "\<not> ary ids" "0 \<le> n0"
  shows "\<exists>ids' n k. grow_ary ids n0 mem_ok = Done (ids', n) \<and> ids_wf ids' \<and> \<not> ary ids' \<and>
    0 \<le> n \<and> n \<le> ids_size ids' \<and> entries ids' = entries ids @ replicate k None \<and>
    in_use ids' = in_use ids \<and> max_id ids' = max_id ids \<and> ids_seq ids' = ids_seq ids \<and>
    seq_max ids' = seq_max ids"
proof -
  let ?n = "if n0 > IPCMNI then IPCMNI else n0"
  have n: "0 \<le> ?n" "?n \<le> IPCMNI" using assms by (auto simp: ipc_limits)
  show ?thesis
  proof (cases "?n \<le> ids_size ids \<or> \<not> mem_ok")
    case True
    then have "\<exists>n. grow_ary ids n0 mem_ok = Done (ids, n) \<and> 0 \<le> n \<and> n \<le> ids_size ids"
      using n assms(1) by (auto simp: grow_ary_def ids_wf_def)
    then show ?thesis using assms by (intro exI [of _ ids]) force
  next
    case False
    let ?k = "nat ?n - nat (ids_size ids)"
    let ?ids' = "ids\<lparr>entries := entries ids @ replicate ?k None, ids_size := ?n\<rparr>"
    have t: "take (nat (ids_size ids)) (entries ids) = entries ids"
      using assms(1) by (simp add: ids_wf_def)
    have "grow_ary ids n0 mem_ok = Done (?ids', ?n)"
      using False assms(2) t
      by (simp add: grow_ary_def Let_def spin_lock_def spin_unlock_def)
    moreover have "ids_wf ?ids'"
      using assms(1) False n
      by (auto simp: ids_wf_def used_slots_def top_slot_def nth_append)
    ultimately show ?thesis using assms(2) n by (intro exI [of _ ?ids'] exI [of _ ?n] exI [of _ ?k]) simp
  qed
qed

lemma ids_wf_cong:
  "entries ids' = entries ids \<Longrightarrow> ids_size ids' = ids_size ids \<Longrightarrow> in_use ids' = in_use ids \<Longrightarrow>
   max_id ids' = max_id ids \<Longrightarrow> ids_wf ids' = ids_wf ids"
  by (simp add: ids_wf_def used_slots_def top_slot_def)

lemma ids_wf_insert:
  assumes "ids_wf ids" "0 \<le> i" "i < ids_size ids" "entries ids ! nat i = None"
  shows "ids_wf (ids\<lparr>in_use := in_use ids + 1, max_id := max (max_id ids) i,
    entries := (entries ids)[nat i := Some p]\<rparr>)"
  using assms filter_update [of "nat i" "entries ids" p]
  by (auto simp: ids_wf_def used_slots_def top_slot_def nth_list_update max_def)

text \<open>
  A new object gets the first free slot below the limit. The spinlock is not held afterwards,
  because \<open>ipc_lock\<close> releases it when it finds the slot still empty.
\<close>

lemma ipc_addid_spec:
  assumes "ids_wf ids" "\<not> ary ids" "0 \<le> n0"
  obtains (full) ids' where "ipc_addid current ids p new n0 mem_ok = Done (ids', new, -1)"
      "ids_wf ids'" "\<not> ary ids'" "\<exists>k. entries ids' = entries ids @ replicate k None"
  | (added) ids' i where "ipc_addid current ids p new n0 mem_ok =
        Done (ids', new\<lparr>cuid := euid current, uid := euid current, gid := egid current,
          cgid := egid current, seq := ids_seq ids\<rparr>, i)"
      "ids_wf ids'" "\<not> ary ids'" "0 \<le> i" "i < ids_size ids'"
      "\<exists>k. nat i < length (entries ids @ replicate k None) \<and>
        (entries ids @ replicate k None) ! nat i = None \<and>
        entries ids' = (entries ids @ replicate k None)[nat i := Some p]"
proof -
  obtain ids1 n k where g: "grow_ary ids n0 mem_ok = Done (ids1, n)" "ids_wf ids1" "\<not> ary ids1"
    "0 \<le> n" "n \<le> ids_size ids1" "entries ids1 = entries ids @ replicate k None"
    "ids_seq ids1 = ids_seq ids"
    using grow_ary_spec [OF assms] by blast
  have len: "n \<le> int (length (entries ids1))" using g by (simp add: ids_wf_def)
  show thesis
  proof (cases rule: addid_loop_spec [OF order.refl len])
    case 1
    then show thesis using g that(1) by (auto simp: ipc_addid_def)
  next
    case free: (2 i)
    define m where "m = max (max_id ids1) i"
    define s where "s = (if ids_seq ids1 + 1 > seq_max ids1 then 0 else ids_seq ids1 + 1)"
    define ids2 where "ids2 = ids1\<lparr>in_use := in_use ids1 + 1, max_id := m, ids_seq := s\<rparr>"
    have slot: "i mod SEQ_MULTIPLIER = i" "i \<le> ids_size ids1" "i < int (length (entries ids1))"
      using free g by (auto simp: ids_wf_def ipc_limits)
    have "ipc_lock ids2 i = Done (ids2, None)"
      using slot free g(3)
      by (simp add: ipc_lock_def ids2_def spin_lock_def spin_unlock_def entry_def)
    then have "ipc_addid current ids p new n0 mem_ok =
        Done (ids2\<lparr>entries := (entries ids1)[nat i := Some p]\<rparr>,
          new\<lparr>cuid := euid current, uid := euid current, gid := egid current,
            cgid := egid current, seq := ids_seq ids\<rparr>, i)"
      using g free by (auto simp: ipc_addid_def Let_def ids2_def m_def s_def max_def split: if_splits)
    moreover have "ids_wf (ids2\<lparr>entries := (entries ids1)[nat i := Some p]\<rparr>)"
      using ids_wf_insert [OF g(2), of i p] slot free g(5)
      by (subst ids_wf_cong [where ids = "ids1\<lparr>in_use := in_use ids1 + 1,
        max_id := max (max_id ids1) i, entries := (entries ids1)[nat i := Some p]\<rparr>"])
        (auto simp: ids2_def m_def)
    moreover have "nat i < length (entries ids1)" using slot(3) free(2) by linarith
    ultimately show thesis
      using g free slot
      by (intro that(2) [of "ids2\<lparr>entries := (entries ids1)[nat i := Some p]\<rparr>" i] exI [of _ k])
        (auto simp: ids2_def)
  qed
qed

lemma ipc_rmid_spec:
  assumes "ids_wf ids" "0 \<le> i" "i < ids_size ids" "entries ids ! nat i = Some p"
    "x mod SEQ_MULTIPLIER = i"
  shows "\<exists>ids'. ipc_rmid ids x = Done (ids', p) \<and> ids_wf ids' \<and> ary ids' = ary ids \<and>
    entries ids' = (entries ids)[nat i := None]"
proof -
  let ?ids1 = "ids\<lparr>entries := (entries ids)[nat i := None], in_use := in_use ids - 1\<rparr>"
  have len: "nat i < length (entries ids)" using assms by (simp add: ids_wf_def)
  have cnt: "int (used_slots ?ids1) = in_use ids - 1"
    using filter_clear [OF len assms(4)] assms(1) by (simp add: used_slots_def ids_wf_def)
  have e: "entry ids i = Done (Some p)" using assms by (simp add: entry_in ids_wf_def)
  show ?thesis
  proof (cases "i = max_id ids")
    case True
    have "\<exists>m. rmid_loop ?ids1 i = Done m \<and> m < i \<and> top_slot ?ids1 m"
      using assms len True by (intro rmid_loop_spec) (auto simp: ids_wf_def top_slot_def nth_list_update)
    then obtain m where m: "rmid_loop ?ids1 i = Done m" "top_slot ?ids1 m" by blast
    then have "ipc_rmid ids x = Done (?ids1\<lparr>max_id := m\<rparr>, p)"
      using assms(3,5) e True by (simp add: ipc_rmid_def Let_def)
    moreover have "ids_wf (?ids1\<lparr>max_id := m\<rparr>)"
      using assms(1) cnt m by (simp add: ids_wf_def used_slots_def top_slot_def)
    ultimately show ?thesis by simp
  next
    case False
    then have "ipc_rmid ids x = Done (?ids1, p)"
      using assms(3,5) e by (simp add: ipc_rmid_def Let_def)
    moreover have "ids_wf ?ids1"
      using assms cnt False by (auto simp: ids_wf_def top_slot_def nth_list_update used_slots_def)
    ultimately show ?thesis by simp
  qed
qed

lemma ipc_lock_spec:
  assumes "ids_wf ids" "\<not> ary ids" "0 \<le> x" "x mod SEQ_MULTIPLIER \<noteq> ids_size ids"
  shows "ipc_lock ids x =
    (let i = x mod SEQ_MULTIPLIER
     in if i < ids_size ids \<and> entries ids ! nat i \<noteq> None
        then Done (ids\<lparr>ary := True\<rparr>, entries ids ! nat i) else Done (ids, None))"
  using assms by (auto simp: ipc_lock_def Let_def spin_lock_def spin_unlock_def entry_def ids_wf_def ipc_limits
      split: option.splits)

section \<open>Identifiers\<close>

lemma buildid_slot: "0 \<le> i \<Longrightarrow> i < IPCMNI \<Longrightarrow> ipc_buildid i sq mod SEQ_MULTIPLIER = i"
  by (simp add: ipc_buildid_def ipc_limits)

lemma buildid_seq: "0 \<le> i \<Longrightarrow> i < IPCMNI \<Longrightarrow> ipc_buildid i sq div SEQ_MULTIPLIER = uint sq"
  by (simp add: ipc_buildid_def ipc_limits)

lemma buildid_checkid: "0 \<le> i \<Longrightarrow> i < IPCMNI \<Longrightarrow> ipc_checkid perm (ipc_buildid i sq) = (sq \<noteq> seq perm)"
  by (simp add: ipc_checkid_def buildid_seq word_uint_eq_iff)

lemma buildid_range: "0 \<le> i \<Longrightarrow> i < IPCMNI \<Longrightarrow> 0 \<le> ipc_buildid i sq \<and> ipc_buildid i sq \<le> INT_MAX"
  using unsigned_less [of sq, where 'a = int] by (simp add: ipc_buildid_def ipc_limits)

end
