(* ===== verification/Ipc_Semop.thy ===== *)
theory Ipc_Semop
  imports Ipc_Ids
begin

text \<open>
  Semaphore operations on one set (\<open>try_atomic_semop\<close> of \<open>ipc/sem.c\<close>): a list of operations
  is carried out completely or not at all. A semaphore value is a C \<open>int\<close> that stays far from
  its limits; \<open>semadj\<close> and \<open>sem_op\<close> are 16 bits wide, \<open>sempid\<close> 32.
\<close>

record sembuf =
  sem_num :: "16 word"
  sem_op :: "16 word"
  sem_flg :: "16 word"

record sem =
  semval :: int
  sempid :: "32 word"

definition SEM_UNDO :: "16 word" where "SEM_UNDO = 0x1000"
definition SEMVMX :: int where "SEMVMX = 32767"

text \<open>The results 0, 1 and a negative error code.\<close>

datatype semres = Sem_ok | Sem_block | Sem_err errno

text \<open>
  The semaphores of the set and the adjustments of the undo structure, which is absent when no
  operation asks for one. An index outside the set or a missing undo structure is \<open>Bug\<close>.
\<close>

type_synonym semvals = "sem list \<times> 16 word list option"

definition adjust :: "sembuf \<Rightarrow> 16 word \<Rightarrow> 16 word list option \<Rightarrow> 16 word list option outcome" where
  "adjust sop d adj =
     (if sem_flg sop AND SEM_UNDO = 0 then Done adj
      else case adj of
             None \<Rightarrow> Bug
           | Some a \<Rightarrow>
               (let i = unat (sem_num sop)
                in if i < length a then Done (Some (a[i := a ! i + d])) else Bug))"

definition would_block :: "sembuf \<Rightarrow> semres" where
  "would_block sop = (if sem_flg sop AND IPC_NOWAIT \<noteq> 0 then Sem_err EAGAIN else Sem_block)"

text \<open>
  The forward loop. It returns the result, or none when all operations were carried out, and
  the operations to undo, the last one first. The operation that stops the loop is among them
  even when it was not carried out.
\<close>

fun semop_loop ::
  "sembuf list \<Rightarrow> sembuf list \<Rightarrow> ulong \<Rightarrow> semvals \<Rightarrow> (semres option \<times> sembuf list \<times> semvals) outcome" where
  "semop_loop [] undo pid st = Done (None, undo, st)"
| "semop_loop (sop # sops) undo pid (sems, adj) =
     (let i = unat (sem_num sop)
      in if i \<ge> length sems then Bug
         else
           let curr = sems ! i
           in if sem_op sop = 0 \<and> semval curr \<noteq> 0
              then Done (Some (would_block sop), sop # undo, (sems, adj))
              else
                let curr = curr\<lparr>sempid := push_bit 16 (sempid curr) OR pid,
                      semval := semval curr + sint (sem_op sop)\<rparr>;
                    sems = sems[i := curr]
                in bind_outcome (adjust sop (- sem_op sop) adj) (\<lambda>adj.
                     if semval curr < 0
                     then Done (Some (would_block sop), sop # undo, (sems, adj))
                     else if semval curr > SEMVMX
                     then Done (Some (Sem_err ERANGE), sop # undo, (sems, adj))
                     else semop_loop sops (sop # undo) pid (sems, adj)))"

fun undo_loop :: "sembuf list \<Rightarrow> semvals \<Rightarrow> semvals outcome" where
  "undo_loop [] st = Done st"
| "undo_loop (sop # undo) (sems, adj) =
     (let i = unat (sem_num sop)
      in if i \<ge> length sems then Bug
         else
           let curr = sems ! i;
               sems = sems[i := curr\<lparr>semval := semval curr - sint (sem_op sop),
                 sempid := signed_drop_bit 16 (sempid curr)\<rparr>]
           in bind_outcome (adjust sop (sem_op sop) adj) (\<lambda>adj. undo_loop undo (sems, adj)))"

text \<open>The last component tells whether \<open>sem_otime\<close> is set.\<close>

definition try_atomic_semop ::
  "sembuf list \<Rightarrow> ulong \<Rightarrow> bool \<Rightarrow> semvals \<Rightarrow> (semres \<times> semvals \<times> bool) outcome" where
  "try_atomic_semop sops pid do_undo st =
     bind_outcome (semop_loop sops [] pid st) (\<lambda>(r, undo, st).
       case r of
         None \<Rightarrow>
           if do_undo then bind_outcome (undo_loop undo st) (\<lambda>st. Done (Sem_ok, st, False))
           else Done (Sem_ok, st, True)
       | Some result \<Rightarrow> bind_outcome (undo_loop undo st) (\<lambda>st. Done (result, st, False)))"

section \<open>What an operation does to the values\<close>

text \<open>The values and adjustments, without the record of the last process.\<close>

definition view :: "semvals \<Rightarrow> int list \<times> 16 word list option" where
  "view st = (map semval (fst st), snd st)"

text \<open>The operations stay inside the set, and those to be undone have a place to record it.\<close>

definition ops_fit :: "sembuf list \<Rightarrow> nat \<Rightarrow> 16 word list option \<Rightarrow> bool" where
  "ops_fit sops n adj \<longleftrightarrow> (\<forall>sop\<in>set sops. unat (sem_num sop) < n \<and>
     (sem_flg sop AND SEM_UNDO = 0 \<or> (\<exists>a. adj = Some a \<and> length a = n)))"

text \<open>The result of a sequence of operations as a function of the values alone.\<close>

fun sem_outcome :: "sembuf list \<Rightarrow> int list \<Rightarrow> semres" where
  "sem_outcome [] v = Sem_ok"
| "sem_outcome (sop # sops) v =
     (let i = unat (sem_num sop); d = sint (sem_op sop)
      in if d = 0 \<and> v ! i \<noteq> 0 \<or> v ! i + d < 0 then would_block sop
         else if v ! i + d > SEMVMX then Sem_err ERANGE
         else sem_outcome sops (v[i := v ! i + d]))"

definition op_total :: "sembuf list \<Rightarrow> nat \<Rightarrow> int" where
  "op_total sops i = (\<Sum>sop\<leftarrow>sops. if unat (sem_num sop) = i then sint (sem_op sop) else 0)"

definition undo_total :: "sembuf list \<Rightarrow> nat \<Rightarrow> 16 word" where
  "undo_total sops i =
     (\<Sum>sop\<leftarrow>sops. if unat (sem_num sop) = i \<and> sem_flg sop AND SEM_UNDO \<noteq> 0 then sem_op sop else 0)"

definition all_vals :: "(int \<Rightarrow> bool) \<Rightarrow> sem list \<Rightarrow> bool" where
  "all_vals P sems \<longleftrightarrow> (\<forall>x\<in>set sems. P (semval x))"

text \<open>What holds of every value a semaphore may take.\<close>

definition covers_range :: "(int \<Rightarrow> bool) \<Rightarrow> bool" where
  "covers_range P \<longleftrightarrow> (\<forall>v. 0 \<le> v \<and> v \<le> SEMVMX \<longrightarrow> P v)"

lemma sint_16_0 [simp]: "sint (x :: 16 word) = 0 \<longleftrightarrow> x = 0"
  by (metis signed_0 signed_word_eqI)

lemma adjust_fit:
  assumes "sem_flg sop AND SEM_UNDO = 0 \<or> (\<exists>a. adj = Some a \<and> length a = n)"
    "unat (sem_num sop) < n"
  shows "adjust sop d adj = Done (if sem_flg sop AND SEM_UNDO = 0 then adj
    else Some ((the adj)[unat (sem_num sop) := the adj ! unat (sem_num sop) + d]))"
  using assms by (auto simp: adjust_def Let_def)

lemma adjust_fit_len:
  "adjust sop d adj = Done adj' \<Longrightarrow> ops_fit sops n adj \<Longrightarrow> ops_fit sops n adj'"
  by (cases adj) (auto simp: adjust_def ops_fit_def Let_def split: if_splits)

text \<open>Undoing one operation after it was carried out, or without, when it is a wait for zero.\<close>

lemma undo_one:
  assumes "unat (sem_num sop) < length sems" "adjust sop (- sem_op sop) adj = Done adj'"
    "view st1 = ((map semval sems)[unat (sem_num sop) :=
       semval (sems ! unat (sem_num sop)) + sint (sem_op sop)], adj')"
  shows "\<exists>st2. undo_loop [sop] st1 = Done st2 \<and> view st2 = view (sems, adj)"
proof -
  obtain sems1 where st1: "st1 = (sems1, adj')" using assms(3) by (cases st1) (simp add: view_def)
  let ?i = "unat (sem_num sop)"
  have v1: "map semval sems1 = (map semval sems)[?i := semval (sems ! ?i) + sint (sem_op sop)]"
    using assms(3) by (simp add: st1 view_def)
  then have len: "length sems1 = length sems" by (metis length_list_update length_map)
  then have "semval (sems1 ! ?i) = semval (sems ! ?i) + sint (sem_op sop)"
    using v1 assms(1) by (metis length_map nth_list_update_eq nth_map)
  then have restored: "(map semval sems1)[?i := semval (sems1 ! ?i) - sint (sem_op sop)] = map semval sems"
    using v1 assms(1) by (simp add: list_update_same_conv)
  have "adjust sop (sem_op sop) adj' = Done adj"
    using assms(2) by (auto simp: adjust_def Let_def split: if_splits option.splits)
  then show ?thesis using assms(1) len restored by (simp add: st1 view_def Let_def map_update)
qed

lemma undo_loop_append:
  "undo_loop (xs @ ys) st = bind_outcome (undo_loop xs st) (undo_loop ys)"
proof (induction xs st rule: undo_loop.induct)
  case (2 sop undo sems adj)
  then show ?case by (cases "adjust sop (sem_op sop) adj") (auto simp: Let_def)
qed simp

lemma adjust_zero: "adjust sop (- sem_op sop) adj = Done adj' \<Longrightarrow> sem_op sop = 0 \<Longrightarrow> adj' = adj"
  by (auto simp: adjust_def Let_def split: if_splits option.splits)

text \<open>The loop and its undoing leave every value and adjustment as it was.\<close>

lemma semop_loop_undo:
  assumes "semop_loop sops undo pid st = Done (r, undo', st')" "ops_fit sops (length (fst st)) (snd st)"
  shows "\<exists>ds. undo' = ds @ undo \<and>
    (\<forall>st1. view st1 = view st' \<longrightarrow> (\<exists>st2. undo_loop ds st1 = Done st2 \<and> view st2 = view st))"
  using assms
proof (induction sops undo pid st arbitrary: r undo' st' rule: semop_loop.induct)
  case (2 sop sops undo pid sems adj)
  let ?i = "unat (sem_num sop)"
  let ?curr = "(sems ! ?i)\<lparr>sempid := push_bit 16 (sempid (sems ! ?i)) OR pid,
    semval := semval (sems ! ?i) + sint (sem_op sop)\<rparr>"
  have i: "?i < length sems" and fit: "ops_fit sops (length sems) adj"
    using 2(3) by (auto simp: ops_fit_def)
  obtain adj1 where adj1: "adjust sop (- sem_op sop) adj = Done adj1"
    using adjust_fit [of sop adj "length sems"] 2(3) by (auto simp: ops_fit_def)
  have one: "\<exists>st2. undo_loop [sop] st1 = Done st2 \<and> view st2 = view (sems, adj)"
    if "view st1 = view (sems[?i := ?curr], adj1)" for st1
    using that undo_one [OF i adj1, of st1] by (simp add: view_def map_update)
  show ?case
  proof (cases "sem_op sop = 0 \<and> semval (sems ! ?i) \<noteq> 0")
    case True
    have "view (sems[?i := ?curr], adj1) = view (sems, adj)"
      using True adjust_zero [OF adj1] i
      by (simp add: view_def map_update) (metis list_update_id nth_map)
    moreover have "undo' = [sop] @ undo" "st' = (sems, adj)" using 2(2) True i by auto
    ultimately show ?thesis using one by metis
  next
    case False
    then consider (stop) "undo' = [sop] @ undo" "st' = (sems[?i := ?curr], adj1)"
      | (go) "semop_loop sops (sop # undo) pid (sems[?i := ?curr], adj1) = Done (r, undo', st')"
          "\<not> semval ?curr < 0" "\<not> SEMVMX < semval ?curr"
      using 2(2) i adj1 by (auto simp: Let_def split: if_splits)
    then show ?thesis
    proof cases
      case stop
      then show ?thesis using one by blast
    next
      case go
      have "ops_fit sops (length (sems[?i := ?curr])) adj1"
        using adjust_fit_len [OF adj1 fit] by simp
      then obtain ds where ds: "undo' = ds @ sop # undo"
        "\<forall>st1. view st1 = view st' \<longrightarrow>
          (\<exists>st2. undo_loop ds st1 = Done st2 \<and> view st2 = view (sems[?i := ?curr], adj1))"
        using 2(1) [OF refl _ refl False refl refl go(2,3,1)] i by auto
      have "undo' = (ds @ [sop]) @ undo" using ds by simp
      moreover have "\<exists>st2. undo_loop (ds @ [sop]) st1 = Done st2 \<and> view st2 = view (sems, adj)"
        if "view st1 = view st'" for st1
        using ds(2) that one unfolding undo_loop_append by (metis bind_outcome.simps(1))
      ultimately show ?thesis by blast
    qed
  qed
qed (auto simp: view_def)

lemma semop_loop_result:
  assumes "ops_fit sops (length sems) adj"
  shows "\<exists>r undo' st'. semop_loop sops undo pid (sems, adj) = Done (r, undo', st') \<and>
    (case r of None \<Rightarrow> Sem_ok | Some x \<Rightarrow> x) = sem_outcome sops (map semval sems) \<and>
    (r = None \<longleftrightarrow> sem_outcome sops (map semval sems) = Sem_ok)"
  using assms
proof (induction sops arbitrary: undo sems adj)
  case (Cons sop sops)
  let ?i = "unat (sem_num sop)"
  let ?curr = "(sems ! ?i)\<lparr>sempid := push_bit 16 (sempid (sems ! ?i)) OR pid,
    semval := semval (sems ! ?i) + sint (sem_op sop)\<rparr>"
  have i: "?i < length sems" and fit: "ops_fit sops (length sems) adj"
    using Cons(2) by (auto simp: ops_fit_def)
  obtain adj1 where adj1: "adjust sop (- sem_op sop) adj = Done adj1"
    using adjust_fit [of sop adj "length sems"] Cons(2) by (auto simp: ops_fit_def)
  have "ops_fit sops (length (sems[?i := ?curr])) adj1"
    using adjust_fit_len [OF adj1 fit] by simp
  from Cons.IH [OF this, of "sop # undo"] show ?case
    using i adj1 by (auto simp: Let_def would_block_def map_update)
qed simp

lemma op_total_Cons:
  "op_total (sop # sops) j = (if j = unat (sem_num sop) then sint (sem_op sop) else 0) + op_total sops j"
  by (simp add: op_total_def)

lemma undo_total_Cons:
  "undo_total (sop # sops) j =
     (if j = unat (sem_num sop) \<and> sem_flg sop AND SEM_UNDO \<noteq> 0 then sem_op sop else 0) + undo_total sops j"
  by (simp add: undo_total_def)

lemma adjust_then:
  assumes "adjust sop (- sem_op sop) adj = Done adj1"
    "case adj1 of None \<Rightarrow> adj' = None
     | Some a \<Rightarrow> \<exists>a'. adj' = Some a' \<and> length a' = length a \<and>
         (\<forall>j < length a. a' ! j = a ! j - undo_total sops j)"
  shows "case adj of None \<Rightarrow> adj' = None
     | Some a \<Rightarrow> \<exists>a'. adj' = Some a' \<and> length a' = length a \<and>
         (\<forall>j < length a. a' ! j = a ! j - undo_total (sop # sops) j)"
proof (cases "sem_flg sop AND SEM_UNDO = 0")
  case True
  then show ?thesis using assms by (cases adj) (auto simp: adjust_def undo_total_Cons)
next
  case False
  then show ?thesis using assms
    by (cases adj) (auto simp: adjust_def undo_total_Cons Let_def nth_list_update split: if_splits)
qed

lemma semop_loop_effect:
  assumes "semop_loop sops undo pid (sems, adj) = Done (None, undo', sems', adj')"
    "ops_fit sops (length sems) adj"
  shows "length sems' = length sems \<and>
    (\<forall>i < length sems. semval (sems' ! i) = semval (sems ! i) + op_total sops i) \<and>
    (case adj of None \<Rightarrow> adj' = None
     | Some a \<Rightarrow> \<exists>a'. adj' = Some a' \<and> length a' = length a \<and>
         (\<forall>i < length a. a' ! i = a ! i - undo_total sops i))"
  using assms
proof (induction sops arbitrary: undo sems adj)
  case Nil
  then show ?case by (auto simp: op_total_def undo_total_def split: option.splits)
next
  case (Cons sop sops)
  let ?i = "unat (sem_num sop)"
  let ?curr = "(sems ! ?i)\<lparr>sempid := push_bit 16 (sempid (sems ! ?i)) OR pid,
    semval := semval (sems ! ?i) + sint (sem_op sop)\<rparr>"
  have i: "?i < length sems" and fit: "ops_fit sops (length sems) adj"
    using Cons(3) by (auto simp: ops_fit_def)
  obtain adj1 where adj1: "adjust sop (- sem_op sop) adj = Done adj1"
    using adjust_fit [of sop adj "length sems"] Cons(3) by (auto simp: ops_fit_def)
  have fit1: "ops_fit sops (length (sems[?i := ?curr])) adj1"
    using adjust_fit_len [OF adj1 fit] by simp
  have "semop_loop sops (sop # undo) pid (sems[?i := ?curr], adj1) = Done (None, undo', sems', adj')"
    using Cons(2) i adj1 by (auto simp: Let_def split: if_splits)
  note IH = Cons.IH [OF this fit1]
  have "\<forall>j < length sems. semval (sems' ! j) = semval (sems ! j) + op_total (sop # sops) j"
    using IH i by (simp add: op_total_Cons nth_list_update)
  moreover have "case adj of None \<Rightarrow> adj' = None
      | Some a \<Rightarrow> \<exists>a'. adj' = Some a' \<and> length a' = length a \<and>
          (\<forall>j < length a. a' ! j = a ! j - undo_total (sop # sops) j)"
    using adjust_then [OF adj1] IH by simp
  ultimately show ?case using IH by simp
qed

lemma semop_loop_range:
  assumes "semop_loop sops undo pid (sems, adj) = Done (None, undo', sems', adj')" "all_vals P sems"
    "covers_range P"
  shows "all_vals P sems'"
  using assms
proof (induction sops arbitrary: undo sems adj)
  case (Cons sop sops)
  let ?i = "unat (sem_num sop)"
  let ?curr = "(sems ! ?i)\<lparr>sempid := push_bit 16 (sempid (sems ! ?i)) OR pid,
    semval := semval (sems ! ?i) + sint (sem_op sop)\<rparr>"
  obtain adj1 where go: "semop_loop sops (sop # undo) pid (sems[?i := ?curr], adj1) = Done (None, undo', sems', adj')"
    "0 \<le> semval ?curr" "semval ?curr \<le> SEMVMX"
    using Cons(2) by (auto simp: Let_def split: if_splits)
  have "all_vals P (sems[?i := ?curr])"
    using Cons(3,4) go(2,3) by (auto simp: all_vals_def covers_range_def dest!: set_update_subset_insert [THEN subsetD])
  then show ?case using Cons(4) by (rule Cons.IH [OF go(1)])
qed simp

section \<open>All or nothing\<close>

text \<open>
  The complete behaviour of \<open>try_atomic_semop\<close> on operations that fit. The facts below are
  what the rest of the development uses.
\<close>

definition semop_done :: "sembuf list \<Rightarrow> semvals \<Rightarrow> semvals \<Rightarrow> bool" where
  "semop_done sops st st' \<longleftrightarrow> length (fst st') = length (fst st) \<and>
     (\<forall>i < length (fst st). semval (fst st' ! i) = semval (fst st ! i) + op_total sops i) \<and>
     (case snd st of None \<Rightarrow> snd st' = None
      | Some a \<Rightarrow> \<exists>a'. snd st' = Some a' \<and> length a' = length a \<and>
          (\<forall>i < length a. a' ! i = a ! i - undo_total sops i))"

lemma view_range:
  assumes "view st = view st'"
  shows "all_vals P (fst st) = all_vals P (fst st')"
proof -
  have "all_vals P (fst st) = (\<forall>v\<in>set (fst (view st)). P v)" for st
    by (simp add: all_vals_def view_def)
  then show ?thesis using assms by simp
qed

lemma try_atomic_semop_spec:
  assumes "ops_fit sops (length (fst st)) (snd st)"
  obtains st' where
    "try_atomic_semop sops pid do_undo st =
       Done (sem_outcome sops (fst (view st)), st', sem_outcome sops (fst (view st)) = Sem_ok \<and> \<not> do_undo)"
    "if sem_outcome sops (fst (view st)) = Sem_ok \<and> \<not> do_undo then semop_done sops st st'
     else view st' = view st"
    "\<And>P. covers_range P \<Longrightarrow> all_vals P (fst st) \<Longrightarrow> all_vals P (fst st')"
proof -
  obtain sems adj where st: "st = (sems, adj)" by (cases st)
  let ?r = "sem_outcome sops (map semval sems)"
  obtain r undo' st1 where loop: "semop_loop sops [] pid (sems, adj) = Done (r, undo', st1)"
    "(case r of None \<Rightarrow> Sem_ok | Some x \<Rightarrow> x) = ?r" "r = None \<longleftrightarrow> ?r = Sem_ok"
    using semop_loop_result [of sops sems adj "[]" pid] assms by (auto simp: st)
  have fit: "ops_fit sops (length (fst (sems, adj))) (snd (sems, adj))" using assms by (simp add: st)
  obtain ds where ds: "undo' = ds @ []"
    "\<forall>st0. view st0 = view st1 \<longrightarrow> (\<exists>st2. undo_loop ds st0 = Done st2 \<and> view st2 = view (sems, adj))"
    using semop_loop_undo [OF loop(1) fit] by blast
  obtain st2 where undo: "undo_loop undo' st1 = Done st2" "view st2 = view (sems, adj)"
    using ds(2) [rule_format, OF refl] ds(1) by (metis append_Nil2)
  have v: "fst (view st) = map semval sems" by (simp add: st view_def)
  show thesis
  proof (cases "?r = Sem_ok \<and> \<not> do_undo")
    case True
    then have r: "semop_loop sops [] pid (sems, adj) = Done (None, undo', fst st1, snd st1)"
      using loop by simp
    show thesis
    proof (rule that [of st1])
      show "try_atomic_semop sops pid do_undo st =
          Done (sem_outcome sops (fst (view st)), st1, sem_outcome sops (fst (view st)) = Sem_ok \<and> \<not> do_undo)"
        using True r by (simp add: try_atomic_semop_def st view_def)
      show "if sem_outcome sops (fst (view st)) = Sem_ok \<and> \<not> do_undo then semop_done sops st st1
          else view st1 = view st"
        using semop_loop_effect [OF r] fit True by (simp add: semop_done_def st view_def)
      show "covers_range P \<Longrightarrow> all_vals P (fst st) \<Longrightarrow> all_vals P (fst st1)" for P
        using semop_loop_range [OF r] by (simp add: st)
    qed
  next
    case False
    show thesis
    proof (rule that [of st2])
      show "try_atomic_semop sops pid do_undo st =
          Done (sem_outcome sops (fst (view st)), st2, sem_outcome sops (fst (view st)) = Sem_ok \<and> \<not> do_undo)"
        using False loop undo unfolding v by (cases r) (simp_all add: try_atomic_semop_def st)
      show "if sem_outcome sops (fst (view st)) = Sem_ok \<and> \<not> do_undo then semop_done sops st st2
          else view st2 = view st"
        using False undo(2) unfolding v by (simp only: if_False st)
      show "covers_range P \<Longrightarrow> all_vals P (fst st) \<Longrightarrow> all_vals P (fst st2)" for P
        using view_range [OF undo(2)] by (simp add: st)
    qed
  qed
qed

text \<open>
  C8: Semaphore operations are carried out together or not at all. For operations on
  semaphores of the set, \<open>try_atomic_semop\<close> completes, its result is determined by the values,
  and it either adds every operation to its semaphore and records every operation that is to
  be undone, or leaves all values and adjustments as they were; the latter also when the call
  only tests whether the operations can proceed.
\<close>

theorem semop_all_or_nothing:
  assumes "ops_fit sops (length sems) adj"
  shows "\<exists>r sems' adj' t. try_atomic_semop sops pid do_undo (sems, adj) = Done (r, (sems', adj'), t) \<and>
    r = sem_outcome sops (map semval sems) \<and>
    (if r = Sem_ok \<and> \<not> do_undo then semop_done sops (sems, adj) (sems', adj')
     else map semval sems' = map semval sems \<and> adj' = adj)"
proof -
  have "ops_fit sops (length (fst (sems, adj))) (snd (sems, adj))" using assms by simp
  then obtain st' where "try_atomic_semop sops pid do_undo (sems, adj) =
      Done (sem_outcome sops (map semval sems), st', sem_outcome sops (map semval sems) = Sem_ok \<and> \<not> do_undo)"
    "if sem_outcome sops (map semval sems) = Sem_ok \<and> \<not> do_undo then semop_done sops (sems, adj) st'
     else view st' = view (sems, adj)"
    by (rule try_atomic_semop_spec [where pid = pid and do_undo = do_undo]) (simp_all add: view_def)
  then show ?thesis by (cases st') (auto simp: view_def split: if_splits)
qed

theorem semop_all_or_nothing_witness:
  "\<exists>r sems' adj' t. try_atomic_semop
      [\<lparr>sem_num = 0, sem_op = 1, sem_flg = SEM_UNDO\<rparr>, \<lparr>sem_num = 1, sem_op = -2, sem_flg = 0\<rparr>] 7 False
      ([\<lparr>semval = 4, sempid = 0\<rparr>, \<lparr>semval = 1, sempid = 0\<rparr>], Some [0, 0]) = Done (r, (sems', adj'), t) \<and>
    r = Sem_block \<and> map semval sems' = [4, 1] \<and> adj' = Some [0, 0]"
proof -
  let ?sops = "[\<lparr>sem_num = 0, sem_op = 1, sem_flg = SEM_UNDO\<rparr>, \<lparr>sem_num = 1, sem_op = -2, sem_flg = 0\<rparr>]"
  let ?sems = "[\<lparr>semval = 4, sempid = 0\<rparr>, \<lparr>semval = 1, sempid = 0\<rparr>]"
  have "ops_fit ?sops (length ?sems) (Some [0, 0])" by (simp add: ops_fit_def)
  moreover have "sem_outcome ?sops (map semval ?sems) = Sem_block" by code_simp
  ultimately show ?thesis
    using semop_all_or_nothing [of ?sops ?sems "Some [0, 0]" 7 False] by auto
qed

end
