(* ===== verification/Ipc_Table.thy ===== *)
theory Ipc_Table
  imports Ipc_Ids
begin

text \<open>
  What the components of System V IPC rely on when they use an identifier array of \<open>Ipc_Ids\<close>: an
  object is in at most one slot, sums over the objects follow the changes of the array, and
  looking up an identifier takes the spinlock exactly when it finds an object. The last part is
  the locale \<open>ipc_table\<close>, for a state that holds an array together with other data.
\<close>

section \<open>Slots\<close>

definition slot_of :: "int \<Rightarrow> nat" where
  "slot_of x = nat (x mod SEQ_MULTIPLIER)"

definition holds :: "ipc_ids \<Rightarrow> nat \<Rightarrow> addr \<Rightarrow> bool" where
  "holds ids i p \<longleftrightarrow> i < length (entries ids) \<and> entries ids ! i = Some p"

text \<open>The identifiers that \<open>ipc_lock\<close> looks up without reading past the end of the array.\<close>

definition id_ok :: "ipc_ids \<Rightarrow> int \<Rightarrow> bool" where
  "id_ok ids x \<longleftrightarrow> 0 \<le> x \<and> x mod SEQ_MULTIPLIER \<noteq> ids_size ids"

lemma ids_wf_size: "ids_wf ids \<Longrightarrow> ids_size ids = int (length (entries ids)) \<and> ids_size ids \<le> IPCMNI"
  by (simp add: ids_wf_def)

lemma int_slot_of: "0 \<le> x \<Longrightarrow> int (slot_of x) = x mod SEQ_MULTIPLIER"
  by (simp add: slot_of_def ipc_limits)

lemma holds_slot: "ids_wf ids \<Longrightarrow> holds ids i p \<Longrightarrow> int i < ids_size ids \<and> int i < IPCMNI"
  by (auto simp: holds_def dest: ids_wf_size)

lemma holds_fun: "holds ids i p \<Longrightarrow> holds ids i q \<Longrightarrow> p = q"
  by (simp add: holds_def)

lemma holds_in: "(\<exists>i. holds ids i p) \<longleftrightarrow> Some p \<in> set (entries ids)"
  by (auto simp: holds_def in_set_conv_nth)

lemma holds_grown: "entries ids' = entries ids @ replicate k None \<Longrightarrow> holds ids' i p = holds ids i p"
  by (auto simp: holds_def nth_append)

lemma holds_added:
  assumes "i < length (entries ids @ replicate k None)" "(entries ids @ replicate k None) ! i = None"
    "entries ids' = (entries ids @ replicate k None)[i := Some p]"
  shows "holds ids' j q \<longleftrightarrow> j = i \<and> q = p \<or> holds ids j q"
proof -
  have "holds ids j q \<longleftrightarrow> j < length (entries ids @ replicate k None) \<and> (entries ids @ replicate k None) ! j = Some q"
    by (auto simp: holds_def nth_append)
  then show ?thesis using assms by (auto simp: holds_def nth_list_update)
qed

lemma holds_removed: "entries ids' = (entries ids)[i := None] \<Longrightarrow> holds ids' j q \<longleftrightarrow> j \<noteq> i \<and> holds ids j q"
  by (cases "j = i"; cases "i < length (entries ids)") (auto simp: holds_def)

section \<open>Sums over the objects\<close>

definition table_sum :: "(addr \<Rightarrow> 'a::ab_group_add) \<Rightarrow> addr option list \<Rightarrow> 'a" where
  "table_sum f es = (\<Sum>e\<leftarrow>es. case e of None \<Rightarrow> 0 | Some p \<Rightarrow> f p)"

lemma table_sum_append_None: "table_sum f (es @ replicate k None) = table_sum f es"
  by (induction k) (simp_all add: table_sum_def)

lemma table_sum_cong: "(\<And>p. Some p \<in> set es \<Longrightarrow> f p = g p) \<Longrightarrow> table_sum f es = table_sum g es"
  unfolding table_sum_def by (intro arg_cong [where f = sum_list] map_cong) (auto split: option.splits)

lemma table_sum_clear:
  "i < length es \<Longrightarrow> es ! i = Some p \<Longrightarrow> table_sum f (es[i := None]) = table_sum f es - f p"
proof (induction es arbitrary: i)
  case (Cons e es)
  then show ?case by (cases i) (auto simp: table_sum_def)
qed simp

lemma table_sum_put:
  "i < length es \<Longrightarrow> es ! i = None \<Longrightarrow> table_sum f (es[i := Some p]) = table_sum f es + f p"
proof (induction es arbitrary: i)
  case (Cons e es)
  then show ?case by (cases i) (auto simp: table_sum_def)
qed simp

lemma table_sum_insert:
  assumes "i < length es" "es ! i = None" "Some p \<notin> set es"
  shows "table_sum (f(p := v)) (es[i := Some p]) = table_sum f es + v"
proof -
  have "table_sum (f(p := v)) es = table_sum f es" using assms(3) by (intro table_sum_cong) auto
  then show ?thesis using table_sum_put [OF assms(1,2), of "f(p := v)" p] by simp
qed

lemma table_sum_upd:
  assumes "i < length es" "es ! i = Some p" "\<And>j. j < length es \<Longrightarrow> es ! j = Some p \<Longrightarrow> j = i"
  shows "table_sum (f(p := v)) es = table_sum f es - f p + v"
proof -
  have "es[i := None] ! j \<noteq> Some p" if "j < length es" for j
    using assms(1) assms(3) [OF that] that by (cases "j = i") auto
  then have "Some p \<notin> set (es[i := None])" by (auto simp: in_set_conv_nth)
  then have "table_sum (f(p := v)) (es[i := None, i := Some p]) = table_sum f (es[i := None]) + v"
    using assms(1) by (intro table_sum_insert) auto
  moreover have "es[i := None, i := Some p] = es" using assms(2) by (metis list_update_id list_update_overwrite)
  ultimately show ?thesis using table_sum_clear [OF assms(1,2), of f] by simp
qed

section \<open>Looking up an identifier\<close>

locale ipc_table =
  fixes ids_of :: "'s \<Rightarrow> ipc_ids"
    and with_ids :: "ipc_ids \<Rightarrow> 's \<Rightarrow> 's"
    and lock :: "'s \<Rightarrow> int \<Rightarrow> ('s \<times> addr option) outcome"
  assumes lock_ids: "lock s x = bind_outcome (ipc_lock (ids_of s) x) (\<lambda>(ids, p). Done (with_ids ids s, p))"
    and with_same: "with_ids (ids_of s) s = s"
begin

lemma lock_cases:
  assumes "ids_wf (ids_of s)" "\<not> ary (ids_of s)" "id_ok (ids_of s) x"
  obtains (absent) "lock s x = Done (s, None)" "\<And>p. \<not> holds (ids_of s) (slot_of x) p"
  | (found) p where "lock s x = Done (with_ids ((ids_of s)\<lparr>ary := True\<rparr>) s, Some p)"
      "holds (ids_of s) (slot_of x) p"
proof -
  let ?i = "x mod SEQ_MULTIPLIER"
  have i: "0 \<le> ?i" "0 \<le> x" "?i \<noteq> ids_size (ids_of s)"
    using assms(3) by (auto simp: id_ok_def ipc_limits)
  note lk = ipc_lock_spec [OF assms(1,2) i(2,3)]
  note sz = ids_wf_size [OF assms(1)]
  show thesis
  proof (cases "?i < ids_size (ids_of s) \<and> entries (ids_of s) ! nat ?i \<noteq> None")
    case True
    then obtain p where "entries (ids_of s) ! nat ?i = Some p" by auto
    then show thesis
      using True lk sz i(1) found [of p] by (auto simp: lock_ids Let_def holds_def slot_of_def nat_less_iff)
  next
    case False
    then have "lock s x = Done (s, None)" using lk with_same by (auto simp: lock_ids Let_def)
    moreover have "\<not> holds (ids_of s) (slot_of x) p" for p
      using False sz i(1) by (auto simp: holds_def slot_of_def nat_less_iff)
    ultimately show thesis by (rule absent)
  qed
qed

text \<open>The slot just past the end is read although it is not there.\<close>

lemma lock_past_end:
  assumes "ids_wf (ids_of s)" "\<not> ary (ids_of s)" "0 \<le> x" "\<not> id_ok (ids_of s) x"
  shows "lock s x = Bug"
  using assms ids_wf_size [OF assms(1)]
  by (auto simp: lock_ids ipc_lock_def id_ok_def Let_def spin_lock_def entry_def)

lemma lock_held:
  assumes "ids_wf (ids_of s)" "\<not> ary (ids_of s)" "0 \<le> x" "holds (ids_of s) (slot_of x) p"
  shows "lock s x = Done (with_ids ((ids_of s)\<lparr>ary := True\<rparr>) s, Some p)"
proof -
  have "int (slot_of x) < ids_size (ids_of s)" using holds_slot [OF assms(1,4)] by simp
  then have "id_ok (ids_of s) x" using assms(3) int_slot_of [OF assms(3)] by (simp add: id_ok_def)
  then show ?thesis using lock_cases [OF assms(1,2)] assms(4) holds_fun by metis
qed

end

end
