(* ===== verification/Ipc_Sem.thy ===== *)
theory Ipc_Sem
  imports Ipc_Semop Ipc_Table
begin

text \<open>
  The System V semaphore calls of \<open>ipc/sem.c\<close> on the state they share: the identifier array,
  the semaphore sets, the undo structures and the queues of sleeping processes. Sets and undo
  structures are found by address. A list that the source links through the structures
  (\<open>sem_pending\<close>, \<open>undo\<close>, \<open>semundo\<close>) is a list of addresses; a sleeping process has one queue
  entry, on its stack, which is found by the process. \<open>q_prev\<close> tells whether the entry is
  linked. Whatever the call does not control is an argument: the address an allocation
  returns, whether user memory can be accessed, and, as a function on the state, what other
  processes do while the call has released the lock and may sleep. The kernel semaphore
  \<open>sem_ids.sem\<close>, which only orders whole calls, is left out.
\<close>

section \<open>State\<close>

record sem_queue =
  q_undo :: "addr option"
  q_pid :: ulong
  q_status :: semres
  q_sma :: addr
  q_id :: int
  q_sops :: "sembuf list"
  q_alter :: bool
  q_prev :: bool

record sem_undo =
  un_semid :: int
  semadj :: "16 word list"

record semid_ds =
  sem_perm :: ipc_perm
  sem_otime :: int
  sem_ctime :: int
  sem_base :: "sem list"
  sem_pending :: "nat list"
  sma_undo :: "addr list"
  sem_nsems :: "16 word"

record task = cred +
  pid :: ulong
  semundo :: "addr list"
  semsleeping :: bool

record sem_limits =
  sc_semmsl :: int
  sc_semmns :: int
  sc_semopm :: nat
  sc_semmni :: int

record sem_state =
  sem_ids :: ipc_ids
  sem_ctls :: sem_limits
  used_sems :: int
  sets :: "addr \<Rightarrow> semid_ds"
  undos :: "addr \<Rightarrow> sem_undo"
  queues :: "nat \<Rightarrow> sem_queue"
  tasks :: "nat \<Rightarrow> task"
  woken :: "nat list"
  now :: int
  cap_bset :: ulong

definition SEMMNI :: int where "SEMMNI = 128"
definition SEMMSL :: int where "SEMMSL = 250"
definition SEMMNS :: int where "SEMMNS = SEMMNI * SEMMSL"
definition SEMOPM :: nat where "SEMOPM = 32"
definition SEMMSL_FAST :: nat where "SEMMSL_FAST = 256"
definition SEMOPM_FAST :: nat where "SEMOPM_FAST = 64"

definition default_sem_ctls :: sem_limits where
  "default_sem_ctls =
     \<lparr>sc_semmsl = SEMMSL, sc_semmns = SEMMNS, sc_semopm = SEMOPM, sc_semmni = SEMMNI\<rparr>"

definition sem_init :: "sem_state \<Rightarrow> bool \<Rightarrow> sem_state outcome" where
  "sem_init s mem_ok =
     (let s = s\<lparr>used_sems := 0\<rparr>
      in bind_outcome (ipc_init_ids (sem_ids s) (sc_semmni (sem_ctls s)) mem_ok) (\<lambda>ids.
           Done (s\<lparr>sem_ids := ids\<rparr>)))"

definition set_at :: "addr \<Rightarrow> (semid_ds \<Rightarrow> semid_ds) \<Rightarrow> sem_state \<Rightarrow> sem_state" where
  "set_at p f s = s\<lparr>sets := (sets s)(p := f (sets s p))\<rparr>"

definition undo_at :: "addr \<Rightarrow> (sem_undo \<Rightarrow> sem_undo) \<Rightarrow> sem_state \<Rightarrow> sem_state" where
  "undo_at p f s = s\<lparr>undos := (undos s)(p := f (undos s p))\<rparr>"

definition queue_at :: "nat \<Rightarrow> (sem_queue \<Rightarrow> sem_queue) \<Rightarrow> sem_state \<Rightarrow> sem_state" where
  "queue_at t f s = s\<lparr>queues := (queues s)(t := f (queues s t))\<rparr>"

definition task_at :: "nat \<Rightarrow> (task \<Rightarrow> task) \<Rightarrow> sem_state \<Rightarrow> sem_state" where
  "task_at t f s = s\<lparr>tasks := (tasks s)(t := f (tasks s t))\<rparr>"

definition wake_up_process :: "nat \<Rightarrow> sem_state \<Rightarrow> sem_state" where
  "wake_up_process t s = s\<lparr>woken := woken s @ [t]\<rparr>"

lemmas sem_updates = set_at_def undo_at_def queue_at_def task_at_def wake_up_process_def

abbreviation cred_of :: "sem_state \<Rightarrow> nat \<Rightarrow> cred" where
  "cred_of s t \<equiv> cred.truncate (tasks s t)"

definition sem_perms_denied :: "sem_state \<Rightarrow> nat \<Rightarrow> addr \<Rightarrow> 16 word \<Rightarrow> bool" where
  "sem_perms_denied s t sma access =
     ipcperms (cap_bset s) (cred_of s t) (sem_perm (sets s sma)) access"

definition sem_lock :: "sem_state \<Rightarrow> int \<Rightarrow> (sem_state \<times> addr option) outcome" where
  "sem_lock s semid =
     bind_outcome (ipc_lock (sem_ids s) semid) (\<lambda>(ids, p). Done (s\<lparr>sem_ids := ids\<rparr>, p))"

definition sem_unlock :: "sem_state \<Rightarrow> sem_state" where
  "sem_unlock s = s\<lparr>sem_ids := ipc_unlock (sem_ids s)\<rparr>"

definition sem_checkid :: "sem_state \<Rightarrow> addr \<Rightarrow> int \<Rightarrow> bool" where
  "sem_checkid s sma semid = ipc_checkid (sem_perm (sets s sma)) semid"

section \<open>Creating and finding a set\<close>

type_synonym 'a sys = "(sem_state \<times> (errno + 'a)) outcome"

text \<open>\<open>p\<close> is what \<open>ipc_alloc\<close> returns for the set, \<open>mem_ok\<close> whether the array can grow.\<close>

definition newary ::
  "sem_state \<Rightarrow> nat \<Rightarrow> int \<Rightarrow> int \<Rightarrow> ulong \<Rightarrow> addr option \<Rightarrow> bool \<Rightarrow> int sys" where
  "newary s t k nsems semflg p mem_ok =
     (if nsems = 0 then Done (s, Inl EINVAL)
      else if used_sems s + nsems > sc_semmns (sem_ctls s) then Done (s, Inl ENOSPC)
      else case p of
             None \<Rightarrow> Done (s, Inl ENOMEM)
           | Some sma \<Rightarrow>
               let perm0 = \<lparr>key = 0, uid = 0, gid = 0, cuid = 0, cgid = 0, mode = 0, seq = 0\<rparr>
               in bind_outcome
                    (ipc_addid (cred_of s t) (sem_ids s) sma perm0 (sc_semmni (sem_ctls s)) mem_ok)
                    (\<lambda>(ids, perm, i).
                       let s = s\<lparr>sem_ids := ids\<rparr>
                       in if i = -1 then Done (s, Inl ENOSPC)
                          else
                            let s = s\<lparr>used_sems := used_sems s + nsems\<rparr>;
                                ds = \<lparr>sem_perm = perm\<lparr>mode := ucast semflg AND S_IRWXUGO, key := k\<rparr>,
                                      sem_otime = 0, sem_ctime = now s,
                                      sem_base = replicate (nat nsems) \<lparr>semval = 0, sempid = 0\<rparr>,
                                      sem_pending = [], sma_undo = [], sem_nsems = of_int nsems\<rparr>;
                                s = sem_unlock (set_at sma (\<lambda>_. ds) s)
                            in Done (s, Inr (ipc_buildid i (seq perm)))))"

definition sys_semget ::
  "sem_state \<Rightarrow> nat \<Rightarrow> int \<Rightarrow> int \<Rightarrow> ulong \<Rightarrow> addr option \<Rightarrow> bool \<Rightarrow> int sys" where
  "sys_semget s t k nsems semflg p mem_ok =
     (if nsems < 0 \<or> nsems > sc_semmsl (sem_ctls s) then Done (s, Inl EINVAL)
      else if k = IPC_PRIVATE then newary s t k nsems semflg p mem_ok
      else
        bind_outcome (ipc_findkey (\<lambda>p. sem_perm (sets s p)) (sem_ids s) k) (\<lambda>i.
          if i = -1 then
            if semflg AND IPC_CREAT = 0 then Done (s, Inl ENOENT)
            else newary s t k nsems semflg p mem_ok
          else if semflg AND IPC_CREAT \<noteq> 0 \<and> semflg AND IPC_EXCL \<noteq> 0 then Done (s, Inl EEXIST)
          else
            bind_outcome (sem_lock s i) (\<lambda>(s, sma).
              case sma of
                None \<Rightarrow> Bug
              | Some sma \<Rightarrow>
                  let err =
                    (if nsems > uint (sem_nsems (sets s sma)) then Inl EINVAL
                     else if sem_perms_denied s t sma (ucast semflg) then Inl EACCES
                     else Inr (ipc_buildid i (seq (sem_perm (sets s sma)))))
                  in Done (sem_unlock s, err))))"

text \<open>The lock is held afterwards exactly when there is no error.\<close>

definition sem_revalidate ::
  "sem_state \<Rightarrow> nat \<Rightarrow> int \<Rightarrow> addr \<Rightarrow> 16 word \<Rightarrow> 16 word \<Rightarrow> (sem_state \<times> errno option) outcome" where
  "sem_revalidate s t semid sma nsems access =
     bind_outcome (sem_lock s semid) (\<lambda>(s, smanew).
       case smanew of
         None \<Rightarrow> Done (s, Some EIDRM)
       | Some p \<Rightarrow>
           if p \<noteq> sma then Done (sem_unlock s, Some EIDRM)
           else if sem_checkid s sma semid then Done (sem_unlock s, Some EIDRM)
           else if sem_nsems (sets s sma) \<noteq> nsems then Done (sem_unlock s, Some EIDRM)
           else if sem_perms_denied s t sma access then Done (sem_unlock s, Some EACCES)
           else Done (s, None))"

section \<open>The queue of sleeping processes\<close>

definition append_to_queue :: "addr \<Rightarrow> nat \<Rightarrow> sem_state \<Rightarrow> sem_state" where
  "append_to_queue sma t s =
     queue_at t (\<lambda>q. q\<lparr>q_prev := True\<rparr>)
       (set_at sma (\<lambda>d. d\<lparr>sem_pending := sem_pending d @ [t]\<rparr>) s)"

definition prepend_to_queue :: "addr \<Rightarrow> nat \<Rightarrow> sem_state \<Rightarrow> sem_state" where
  "prepend_to_queue sma t s =
     queue_at t (\<lambda>q. q\<lparr>q_prev := True\<rparr>)
       (set_at sma (\<lambda>d. d\<lparr>sem_pending := t # sem_pending d\<rparr>) s)"

definition remove_from_queue :: "addr \<Rightarrow> nat \<Rightarrow> sem_state \<Rightarrow> sem_state" where
  "remove_from_queue sma t s =
     queue_at t (\<lambda>q. q\<lparr>q_prev := False\<rparr>)
       (set_at sma (\<lambda>d. d\<lparr>sem_pending := remove1 t (sem_pending d)\<rparr>) s)"

text \<open>\<open>try_atomic_semop\<close> on the set and the undo structure in the state.\<close>

definition semop_on ::
  "addr \<Rightarrow> sembuf list \<Rightarrow> addr option \<Rightarrow> ulong \<Rightarrow> bool \<Rightarrow> sem_state \<Rightarrow> (sem_state \<times> semres) outcome" where
  "semop_on sma sops un who do_undo s =
     bind_outcome
       (try_atomic_semop sops who do_undo
          (sem_base (sets s sma), map_option (\<lambda>u. semadj (undos s u)) un))
       (\<lambda>(r, (sems, adj), otime).
          let s = set_at sma (\<lambda>d. d\<lparr>sem_base := sems\<rparr>) s;
              s = (case (un, adj) of
                     (Some u, Some a) \<Rightarrow> undo_at u (\<lambda>x. x\<lparr>semadj := a\<rparr>) s
                   | _ \<Rightarrow> s);
              s = (if otime then set_at sma (\<lambda>d. d\<lparr>sem_otime := now s\<rparr>) s else s)
          in Done (s, r))"

text \<open>
  The loop follows \<open>q->next\<close>, which removing \<open>q\<close> does not change; the processes still to be
  visited are the tail of the list the loop started with.
\<close>

fun update_loop :: "addr \<Rightarrow> nat list \<Rightarrow> sem_state \<Rightarrow> sem_state outcome" where
  "update_loop sma [] s = Done s"
| "update_loop sma (t # ts) s =
     (let q = queues s t
      in if q_status q = Sem_block then Done s
         else
           bind_outcome (semop_on sma (q_sops q) (q_undo q) (q_pid q) (q_alter q) s) (\<lambda>(s, err).
             if err = Sem_block then update_loop sma ts s
             else
               let s = wake_up_process t s
               in if err = Sem_ok \<and> q_alter q
                  then Done (queue_at t (\<lambda>q. q\<lparr>q_status := Sem_block\<rparr>) s)
                  else update_loop sma ts
                         (remove_from_queue sma t (queue_at t (\<lambda>q. q\<lparr>q_status := err\<rparr>) s))))"

definition update_queue :: "addr \<Rightarrow> sem_state \<Rightarrow> sem_state outcome" where
  "update_queue sma s = update_loop sma (sem_pending (sets s sma)) s"

definition count_semncnt :: "sem_state \<Rightarrow> addr \<Rightarrow> 16 word \<Rightarrow> nat" where
  "count_semncnt s sma semnum =
     (\<Sum>t\<leftarrow>sem_pending (sets s sma). length (filter (\<lambda>sop.
        sem_num sop = semnum \<and> sint (sem_op sop) < 0 \<and> sem_flg sop AND IPC_NOWAIT = 0)
        (q_sops (queues s t))))"

definition count_semzcnt :: "sem_state \<Rightarrow> addr \<Rightarrow> 16 word \<Rightarrow> nat" where
  "count_semzcnt s sma semnum =
     (\<Sum>t\<leftarrow>sem_pending (sets s sma). length (filter (\<lambda>sop.
        sem_num sop = semnum \<and> sem_op sop = 0 \<and> sem_flg sop AND IPC_NOWAIT = 0)
        (q_sops (queues s t))))"

section \<open>Removing a set\<close>

definition freeary :: "int \<Rightarrow> sem_state \<Rightarrow> sem_state outcome" where
  "freeary semid s =
     bind_outcome (ipc_rmid (sem_ids s) semid) (\<lambda>(ids, sma).
       let s = s\<lparr>sem_ids := ids\<rparr>;
           ds = sets s sma;
           s = fold (\<lambda>u. undo_at u (\<lambda>x. x\<lparr>un_semid := -1\<rparr>)) (sma_undo ds) s;
           s = fold (\<lambda>t s. wake_up_process t
                 (queue_at t (\<lambda>q. q\<lparr>q_status := Sem_err EIDRM, q_prev := False\<rparr>) s)) (sem_pending ds) s;
           s = sem_unlock s
       in Done (s\<lparr>used_sems := used_sems s - uint (sem_nsems ds)\<rparr>))"

section \<open>The invariant\<close>

text \<open>
  What every call keeps between the array, the sets, the undo structures and the processes.
  The identifier of a set is made of its slot and sequence number.
\<close>

definition live :: "sem_state \<Rightarrow> nat \<Rightarrow> addr \<Rightarrow> bool" where
  "live s i p \<longleftrightarrow> i < length (entries (sem_ids s)) \<and> entries (sem_ids s) ! i = Some p"

interpretation sem_table: ipc_table sem_ids "\<lambda>ids s. s\<lparr>sem_ids := ids\<rparr>" sem_lock
  by unfold_locales (simp_all add: sem_lock_def)

lemma live_holds: "live s i p = holds (sem_ids s) i p"
  by (simp add: live_def holds_def)

definition set_id :: "sem_state \<Rightarrow> nat \<Rightarrow> addr \<Rightarrow> int" where
  "set_id s i p = ipc_buildid (int i) (seq (sem_perm (sets s p)))"

definition vals :: "sem_state \<Rightarrow> addr \<Rightarrow> int list" where
  "vals s p = map semval (sem_base (sets s p))"

definition total_sems :: "sem_state \<Rightarrow> int" where
  "total_sems s = table_sum (\<lambda>p. uint (sem_nsems (sets s p))) (entries (sem_ids s))"

definition set_wf :: "sem_state \<Rightarrow> addr \<Rightarrow> bool" where
  "set_wf s p \<longleftrightarrow> length (sem_base (sets s p)) = unat (sem_nsems (sets s p)) \<and>
     all_vals (\<lambda>v. 0 \<le> v) (sem_base (sets s p)) \<and>
     distinct (sem_pending (sets s p)) \<and> distinct (sma_undo (sets s p))"

definition queued_wf :: "sem_state \<Rightarrow> nat \<Rightarrow> addr \<Rightarrow> nat \<Rightarrow> bool" where
  "queued_wf s i p t \<longleftrightarrow> (let q = queues s t in
     q_prev q \<and> q_sma q = p \<and> q_id q = set_id s i p \<and> semsleeping (tasks s t) \<and>
     (\<forall>sop\<in>set (q_sops q). sem_num sop < sem_nsems (sets s p) \<and>
        (sem_flg sop AND SEM_UNDO = 0 \<or> q_undo q \<noteq> None)) \<and>
     (\<forall>u. q_undo q = Some u \<longrightarrow> u \<in> set (sma_undo (sets s p)) \<and> u \<in> set (semundo (tasks s t))))"

definition undo_wf :: "sem_state \<Rightarrow> nat \<Rightarrow> addr \<Rightarrow> addr \<Rightarrow> bool" where
  "undo_wf s i p u \<longleftrightarrow> un_semid (undos s u) = set_id s i p \<and>
     length (semadj (undos s u)) = unat (sem_nsems (sets s p)) \<and>
     (\<exists>t. u \<in> set (semundo (tasks s t)))"

definition task_wf :: "sem_state \<Rightarrow> nat \<Rightarrow> bool" where
  "task_wf s t \<longleftrightarrow> distinct (semundo (tasks s t)) \<and>
     (\<forall>u\<in>set (semundo (tasks s t)). un_semid (undos s u) = -1 \<or>
        (\<exists>i p. live s i p \<and> u \<in> set (sma_undo (sets s p)))) \<and>
     (\<forall>t'. t' \<noteq> t \<longrightarrow> set (semundo (tasks s t)) \<inter> set (semundo (tasks s t')) = {}) \<and>
     (semsleeping (tasks s t) \<and> q_prev (queues s t) \<longrightarrow>
        (\<exists>i p. live s i p \<and> t \<in> set (sem_pending (sets s p)))) \<and>
     (semsleeping (tasks s t) \<and> q_status (queues s t) = Sem_block \<longrightarrow> q_prev (queues s t)) \<and>
     (semsleeping (tasks s t) \<longrightarrow> 0 \<le> q_id (queues s t))"

definition sem_inv :: "sem_state \<Rightarrow> bool" where
  "sem_inv s \<longleftrightarrow> ids_wf (sem_ids s) \<and>
     (\<forall>i j p. live s i p \<and> live s j p \<longrightarrow> i = j) \<and>
     used_sems s = total_sems s \<and>
     sc_semmsl (sem_ctls s) < 2 ^ 16 \<and> 0 \<le> sc_semmni (sem_ctls s) \<and>
     (\<forall>i p. live s i p \<longrightarrow> set_wf s p \<and>
        (\<forall>t\<in>set (sem_pending (sets s p)). queued_wf s i p t) \<and>
        (\<forall>u\<in>set (sma_undo (sets s p)). undo_wf s i p u)) \<and>
     (\<forall>t. task_wf s t)"

lemma sem_invI:
  assumes "ids_wf (sem_ids s)" "\<And>i j p. live s i p \<Longrightarrow> live s j p \<Longrightarrow> i = j"
    "used_sems s = total_sems s" "sc_semmsl (sem_ctls s) < 2 ^ 16" "0 \<le> sc_semmni (sem_ctls s)"
    "\<And>i p. live s i p \<Longrightarrow> set_wf s p"
    "\<And>i p t. live s i p \<Longrightarrow> t \<in> set (sem_pending (sets s p)) \<Longrightarrow> queued_wf s i p t"
    "\<And>i p u. live s i p \<Longrightarrow> u \<in> set (sma_undo (sets s p)) \<Longrightarrow> undo_wf s i p u"
    "\<And>t. task_wf s t"
  shows "sem_inv s"
  using assms unfolding sem_inv_def by blast

lemma sem_inv_ids:
  assumes "sem_inv s"
  shows "ids_wf (sem_ids s)" "used_sems s = total_sems s" "sc_semmsl (sem_ctls s) < 2 ^ 16"
    "0 \<le> sc_semmni (sem_ctls s)"
  using assms unfolding sem_inv_def by blast+

abbreviation unlocked :: "sem_state \<Rightarrow> bool" where
  "unlocked s \<equiv> \<not> ary (sem_ids s)"

section \<open>Changes that keep the structure\<close>

text \<open>
  A change of values, adjustments, times, status and the lock: the links between the parts
  stay, and the values stay in every set of values that holds the legal ones.
\<close>

definition sem_frame :: "sem_state \<Rightarrow> sem_state \<Rightarrow> bool" where
  "sem_frame s s' \<longleftrightarrow>
     (sem_ids s')\<lparr>ary := False\<rparr> = (sem_ids s)\<lparr>ary := False\<rparr> \<and> used_sems s' = used_sems s \<and>
     sem_ctls s' = sem_ctls s \<and> tasks s' = tasks s \<and> cap_bset s' = cap_bset s \<and> now s' = now s \<and>
     (\<forall>t. (queues s' t)\<lparr>q_status := Sem_ok\<rparr> = (queues s t)\<lparr>q_status := Sem_ok\<rparr>) \<and>
     (\<forall>t. q_status (queues s' t) = Sem_block \<longrightarrow> q_status (queues s t) = Sem_block \<or> q_prev (queues s t)) \<and>
     (\<forall>p. sem_nsems (sets s' p) = sem_nsems (sets s p) \<and>
        seq (sem_perm (sets s' p)) = seq (sem_perm (sets s p)) \<and>
        sem_pending (sets s' p) = sem_pending (sets s p) \<and> sma_undo (sets s' p) = sma_undo (sets s p) \<and>
        length (sem_base (sets s' p)) = length (sem_base (sets s p)) \<and>
        (all_vals (\<lambda>v. 0 \<le> v) (sem_base (sets s p)) \<longrightarrow> all_vals (\<lambda>v. 0 \<le> v) (sem_base (sets s' p)))) \<and>
     (\<forall>u. un_semid (undos s' u) = un_semid (undos s u) \<and>
        length (semadj (undos s' u)) = length (semadj (undos s u)))"

lemma sem_frame_refl [simp]: "sem_frame s s"
  by (simp add: sem_frame_def)

lemma sem_frameD:
  assumes "sem_frame s s'"
  shows "entries (sem_ids s') = entries (sem_ids s)" "used_sems s' = used_sems s"
    "ids_size (sem_ids s') = ids_size (sem_ids s)" "in_use (sem_ids s') = in_use (sem_ids s)"
    "max_id (sem_ids s') = max_id (sem_ids s)"
    "sem_ctls s' = sem_ctls s" "tasks s' = tasks s"
    "q_prev (queues s' t) = q_prev (queues s t)" "q_sma (queues s' t) = q_sma (queues s t)"
    "q_id (queues s' t) = q_id (queues s t)" "q_sops (queues s' t) = q_sops (queues s t)"
    "q_undo (queues s' t) = q_undo (queues s t)" "q_alter (queues s' t) = q_alter (queues s t)"
    "q_status (queues s' t) = Sem_block \<Longrightarrow> q_status (queues s t) = Sem_block \<or> q_prev (queues s t)"
    "sem_nsems (sets s' p) = sem_nsems (sets s p)"
    "seq (sem_perm (sets s' p)) = seq (sem_perm (sets s p))"
    "sem_pending (sets s' p) = sem_pending (sets s p)" "sma_undo (sets s' p) = sma_undo (sets s p)"
    "length (sem_base (sets s' p)) = length (sem_base (sets s p))"
    "all_vals (\<lambda>v. 0 \<le> v) (sem_base (sets s p)) \<Longrightarrow> all_vals (\<lambda>v. 0 \<le> v) (sem_base (sets s' p))"
    "un_semid (undos s' u) = un_semid (undos s u)"
    "length (semadj (undos s' u)) = length (semadj (undos s u))"
proof -
  have ids: "(sem_ids s')\<lparr>ary := False\<rparr> = (sem_ids s)\<lparr>ary := False\<rparr>"
    and q: "(queues s' t)\<lparr>q_status := Sem_ok\<rparr> = (queues s t)\<lparr>q_status := Sem_ok\<rparr>"
    using assms by (simp_all add: sem_frame_def)
  show "entries (sem_ids s') = entries (sem_ids s)" "ids_size (sem_ids s') = ids_size (sem_ids s)"
    "in_use (sem_ids s') = in_use (sem_ids s)" "max_id (sem_ids s') = max_id (sem_ids s)"
    using arg_cong [OF ids, of entries] arg_cong [OF ids, of ids_size] arg_cong [OF ids, of in_use]
      arg_cong [OF ids, of max_id] by simp_all
  show "q_prev (queues s' t) = q_prev (queues s t)" "q_sma (queues s' t) = q_sma (queues s t)"
    "q_id (queues s' t) = q_id (queues s t)" "q_sops (queues s' t) = q_sops (queues s t)"
    "q_undo (queues s' t) = q_undo (queues s t)" "q_alter (queues s' t) = q_alter (queues s t)"
    using arg_cong [OF q, of q_prev] arg_cong [OF q, of q_sma] arg_cong [OF q, of q_id]
      arg_cong [OF q, of q_sops] arg_cong [OF q, of q_undo] arg_cong [OF q, of q_alter] by simp_all
qed (use assms in \<open>auto simp: sem_frame_def\<close>)

lemma sem_frame_trans: "sem_frame s s' \<Longrightarrow> sem_frame s' s'' \<Longrightarrow> sem_frame s s''"
  using sem_frameD(8) [of s s'] unfolding sem_frame_def by (intro conjI allI impI) fastforce+

lemma sem_frame_live: "sem_frame s s' \<Longrightarrow> live s' i p = live s i p"
  by (simp add: live_def sem_frameD(1))

lemma sem_frame_set_id: "sem_frame s s' \<Longrightarrow> set_id s' i p = set_id s i p"
  by (simp add: set_id_def sem_frameD(16))

lemma sem_frame_inv:
  assumes "sem_frame s s'" "sem_inv s"
  shows "sem_inv s'"
proof -
  note D = sem_frameD [OF assms(1)] sem_frame_live [OF assms(1)] sem_frame_set_id [OF assms(1)]
  have st: "q_status (queues s' t) = Sem_block \<longrightarrow> q_status (queues s t) = Sem_block \<or> q_prev (queues s t)" for t
    using assms(1) by (simp add: sem_frame_def)
  have "ids_wf (sem_ids s') = ids_wf (sem_ids s)" by (rule ids_wf_cong) (simp_all add: D)
  moreover have "total_sems s' = total_sems s" by (simp add: total_sems_def D)
  moreover have "set_wf s p \<Longrightarrow> set_wf s' p" for p by (simp add: set_wf_def D)
  moreover have "queued_wf s' i p t = queued_wf s i p t" for i p t by (simp add: queued_wf_def Let_def D)
  moreover have "undo_wf s' i p u = undo_wf s i p u" for i p u by (simp add: undo_wf_def D)
  moreover have "task_wf s t \<Longrightarrow> task_wf s' t" for t
    using st [of t] by (auto simp: task_wf_def D(1-13) D(15-))
  ultimately show ?thesis using assms(2) by (simp add: sem_inv_def D)
qed

lemma sem_frame_lock: "sem_frame s (s\<lparr>sem_ids := (sem_ids s)\<lparr>ary := b\<rparr>\<rparr>)"
  by (simp add: sem_frame_def)

lemma sem_frame_unlock [simp]: "sem_frame s (sem_unlock s)"
  using sem_frame_lock [of s False] by (simp add: sem_unlock_def ipc_unlock_def spin_unlock_def)

lemma unlocked_unlock [simp]: "unlocked (sem_unlock s)"
  by (simp add: sem_unlock_def ipc_unlock_def spin_unlock_def)

lemma sem_frame_wake: "sem_frame s (wake_up_process t s)"
  by (simp add: sem_frame_def wake_up_process_def)

lemma sem_frame_status:
  "r \<noteq> Sem_block \<or> q_prev (queues s t) \<Longrightarrow> sem_frame s (queue_at t (\<lambda>q. q\<lparr>q_status := r\<rparr>) s)"
  by (auto simp: sem_frame_def queue_at_def)

lemma live_slot: "sem_inv s \<Longrightarrow> live s i p \<Longrightarrow> int i < IPCMNI"
  by (auto simp: sem_inv_def live_def dest: ids_wf_size)

lemma set_id_slot:
  assumes "sem_inv s" "live s i p"
  shows "set_id s i p mod SEQ_MULTIPLIER = int i" "0 \<le> set_id s i p"
    "sem_checkid s p (set_id s i p) = False"
  using live_slot [OF assms] buildid_slot buildid_range buildid_checkid
  by (simp_all add: set_id_def sem_checkid_def)

lemma sem_invD:
  assumes "sem_inv s" "live s i p"
  shows "set_wf s p" "t \<in> set (sem_pending (sets s p)) \<Longrightarrow> queued_wf s i p t"
    "u \<in> set (sma_undo (sets s p)) \<Longrightarrow> undo_wf s i p u"
  using assms by (auto simp: sem_inv_def)

lemma sem_inv_task: "sem_inv s \<Longrightarrow> task_wf s t"
  by (simp add: sem_inv_def)

lemma sem_inv_slot: "sem_inv s \<Longrightarrow> live s i p \<Longrightarrow> live s j p \<Longrightarrow> i = j"
  by (auto simp: sem_inv_def)

lemma live_fun: "live s i p \<Longrightarrow> live s i p' \<Longrightarrow> p = p'"
  by (simp add: live_def)

section \<open>Trying the operations of a process\<close>

abbreviation adj_of :: "sem_state \<Rightarrow> addr option \<Rightarrow> 16 word list option" where
  "adj_of s un \<equiv> map_option (\<lambda>u. semadj (undos s u)) un"

lemma all_vals_nonneg: "covers_range (\<lambda>v. 0 \<le> v)"
  by (simp add: covers_range_def)

lemma semop_on_spec:
  assumes "ops_fit sops (length (sem_base (sets s sma))) (adj_of s un)"
  obtains s' where "semop_on sma sops un who do_undo s = Done (s', sem_outcome sops (vals s sma))"
    "sem_frame s s'" "queues s' = queues s" "woken s' = woken s" "sem_ids s' = sem_ids s"
    "\<And>p. p \<noteq> sma \<Longrightarrow> sets s' p = sets s p"
    "if sem_outcome sops (vals s sma) = Sem_ok \<and> \<not> do_undo
     then semop_done sops (sem_base (sets s sma), adj_of s un) (sem_base (sets s' sma), adj_of s' un)
     else vals s' sma = vals s sma"
proof -
  let ?st = "(sem_base (sets s sma), adj_of s un)"
  have fit: "ops_fit sops (length (fst ?st)) (snd ?st)" using assms by simp
  have v: "fst (view ?st) = vals s sma" by (simp add: view_def vals_def)
  obtain st' where st': "try_atomic_semop sops who do_undo ?st =
      Done (sem_outcome sops (vals s sma), st', sem_outcome sops (vals s sma) = Sem_ok \<and> \<not> do_undo)"
    "if sem_outcome sops (vals s sma) = Sem_ok \<and> \<not> do_undo then semop_done sops ?st st' else view st' = view ?st"
    "\<And>P. covers_range P \<Longrightarrow> all_vals P (fst ?st) \<Longrightarrow> all_vals P (fst st')"
    using try_atomic_semop_spec [OF fit, of who do_undo] v by auto
  obtain sems adj where sa: "st' = (sems, adj)" by (cases st')
  have len: "length sems = length (sem_base (sets s sma))"
    using st'(2) by (auto simp: sa semop_done_def view_def split: if_splits dest: arg_cong [of _ _ length])
  have nn: "all_vals (\<lambda>v. 0 \<le> v) (sem_base (sets s sma)) \<Longrightarrow> all_vals (\<lambda>v. 0 \<le> v) sems"
    using st'(3) [OF all_vals_nonneg] by (simp add: sa)
  have adj: "case un of None \<Rightarrow> adj = None
      | Some u \<Rightarrow> \<exists>a. adj = Some a \<and> length a = length (semadj (undos s u))"
    using st'(2) by (cases un) (auto simp: sa semop_done_def view_def split: if_splits)
  define ok where "ok = (sem_outcome sops (vals s sma) = Sem_ok \<and> \<not> do_undo)"
  define d where "d = (sets s sma)\<lparr>sem_base := sems, sem_otime := (if ok then now s else sem_otime (sets s sma))\<rparr>"
  show thesis
  proof (cases un)
    case None
    define s' where "s' = s\<lparr>sets := (sets s)(sma := d)\<rparr>"
    have "semop_on sma sops un who do_undo s = Done (s', sem_outcome sops (vals s sma))"
      using st'(1) None adj by (simp add: semop_on_def sa Let_def set_at_def s'_def d_def ok_def [symmetric])
    then show thesis
      by (rule that) (use st'(2) None adj len nn in
        \<open>auto simp: sa s'_def d_def sem_frame_def vals_def view_def split: if_splits\<close>)
  next
    case (Some u)
    then obtain a where a: "adj = Some a" "length a = length (semadj (undos s u))" using adj by auto
    define s' where "s' = s\<lparr>sets := (sets s)(sma := d), undos := (undos s)(u := (undos s u)\<lparr>semadj := a\<rparr>)\<rparr>"
    have "semop_on sma sops un who do_undo s = Done (s', sem_outcome sops (vals s sma))"
      using st'(1) Some a
      by (simp add: semop_on_def sa Let_def set_at_def undo_at_def s'_def d_def ok_def [symmetric])
    then show thesis
      by (rule that) (use st'(2) Some a len nn in
        \<open>auto simp: sa s'_def d_def sem_frame_def vals_def view_def split: if_splits\<close>)
  qed
qed

section \<open>Leaving the queue\<close>

lemma live_cong: "sem_ids s' = sem_ids s \<Longrightarrow> live s' = live s"
  by (simp add: live_def fun_eq_iff)

lemma pending_owner:
  assumes "sem_inv s" "live s i p" "t \<in> set (sem_pending (sets s p))"
    "live s j p'" "t \<in> set (sem_pending (sets s p'))"
  shows "p' = p"
  using sem_invD(2) [OF assms(1,2,3)] sem_invD(2) [OF assms(1,4,5)] by (simp add: queued_wf_def Let_def)

text \<open>
  A process that leaves the queue is awake, or it still has to look at a result other than
  the request to try again.
\<close>

lemma unlink_inv:
  assumes "sem_inv s" "live s i sma" "t \<in> set (sem_pending (sets s sma))"
    "b \<Longrightarrow> semsleeping (tasks s t) \<and> q_status (queues s t) \<noteq> Sem_block"
  shows "sem_inv (remove_from_queue sma t (task_at t (\<lambda>k. k\<lparr>semsleeping := b\<rparr>) s))" (is "sem_inv ?s'")
proof -
  define s' where "s' = ?s'"
  have eqs: "sem_ids s' = sem_ids s" "used_sems s' = used_sems s" "sem_ctls s' = sem_ctls s"
    "undos s' = undos s"
    "\<And>p. sets s' p = (if p = sma then (sets s sma)\<lparr>sem_pending := remove1 t (sem_pending (sets s sma))\<rparr> else sets s p)"
    "\<And>t'. queues s' t' = (if t' = t then (queues s t)\<lparr>q_prev := False\<rparr> else queues s t')"
    "\<And>t'. tasks s' t' = (if t' = t then (tasks s t)\<lparr>semsleeping := b\<rparr> else tasks s t')"
    by (auto simp: s'_def remove_from_queue_def sem_updates)
  have live': "live s' = live s" using eqs(1) by (rule live_cong)
  have sid: "set_id s' = set_id s" by (auto simp: set_id_def eqs fun_eq_iff)
  have tot: "total_sems s' = total_sems s"
    unfolding total_sems_def eqs(1) by (rule arg_cong [where f = "\<lambda>f. table_sum f _"]) (auto simp: eqs)
  have wf: "set_wf s p \<Longrightarrow> set_wf s' p" for p by (auto simp: set_wf_def eqs)
  have und: "undo_wf s' j p u = undo_wf s j p u" for j p u
    by (auto simp: undo_wf_def sid eqs split: if_splits)
  have pend: "t' \<in> set (sem_pending (sets s' p)) \<longleftrightarrow> t' \<in> set (sem_pending (sets s p)) \<and> t' \<noteq> t"
    if "live s j p" for j p t'
    using sem_invD(1) [OF assms(1,2)] pending_owner [OF assms(1-3) that]
    by (auto simp: eqs set_wf_def)
  have qw: "queued_wf s' j p t'" if "live s j p" "t' \<in> set (sem_pending (sets s' p))" for j p t'
    using sem_invD(2) [OF assms(1) that(1), of t'] that pend [OF that(1), of t']
    by (auto simp: queued_wf_def Let_def sid eqs)
  have tw: "task_wf s' t'" for t'
  proof -
    have w: "task_wf s t'" by (rule sem_inv_task [OF assms(1)])
    have su: "semundo (tasks s' t'') = semundo (tasks s t'')" "sma_undo (sets s' p) = sma_undo (sets s p)" for t'' p
      by (simp_all add: eqs)
    show ?thesis
    proof (cases "t' = t")
      case True
      then show ?thesis using w assms(4) unfolding task_wf_def live' su eqs(4)
        by (auto simp: eqs(6,7))
    next
      case False
      then have "\<exists>j p. live s j p \<and> t' \<in> set (sem_pending (sets s' p))"
        if "semsleeping (tasks s t')" "q_prev (queues s t')"
        using w that pend unfolding task_wf_def by meson
      then show ?thesis using w False unfolding task_wf_def live' su eqs(4)
        by (simp add: eqs(6,7))
    qed
  qed
  have "sem_inv s'"
    using sem_inv_ids [OF assms(1)] sem_inv_slot [OF assms(1)] sem_invD(1,3) [OF assms(1)]
    by (intro sem_invI) (auto simp: eqs(1-3) tot live' und wf qw tw, auto simp: eqs(5) split: if_splits)
  then show ?thesis by (simp only: s'_def)
qed

lemma task_at_same: "f (tasks s t) = tasks s t \<Longrightarrow> task_at t f s = s"
  by (simp add: task_at_def fun_upd_idem)

lemma unlink_inv_asleep:
  assumes "sem_inv s" "live s i sma" "t \<in> set (sem_pending (sets s sma))" "q_status (queues s t) \<noteq> Sem_block"
  shows "sem_inv (remove_from_queue sma t s)"
proof -
  have sl: "semsleeping (tasks s t)"
    using sem_invD(2) [OF assms(1-3)] by (simp add: queued_wf_def Let_def)
  then have "task_at t (\<lambda>k. k\<lparr>semsleeping := True\<rparr>) s = s"
    by (intro task_at_same) (cases "tasks s t", simp)
  then show ?thesis using unlink_inv [OF assms(1-3), of True] assms(4) sl by simp
qed

section \<open>Going through the queue\<close>

lemma queued_fit:
  assumes "sem_inv s" "live s i p" "t \<in> set (sem_pending (sets s p))"
  shows "ops_fit (q_sops (queues s t)) (length (sem_base (sets s p))) (adj_of s (q_undo (queues s t)))"
proof -
  have q: "queued_wf s i p t" using assms by (rule sem_invD(2))
  have len: "length (sem_base (sets s p)) = unat (sem_nsems (sets s p))"
    using sem_invD(1) [OF assms(1,2)] by (simp add: set_wf_def)
  have "length (semadj (undos s u)) = unat (sem_nsems (sets s p))" if "q_undo (queues s t) = Some u" for u
    using sem_invD(3) [OF assms(1,2), of u] q that by (auto simp: queued_wf_def Let_def undo_wf_def)
  then show ?thesis using q unfolding len
    by (auto simp: ops_fit_def queued_wf_def Let_def word_less_nat_alt)
qed

text \<open>What the loop over the processes \<open>ts\<close> of the queue leaves alone.\<close>

definition outside :: "addr \<Rightarrow> nat list \<Rightarrow> sem_state \<Rightarrow> sem_state \<Rightarrow> bool" where
  "outside sma ts s s' \<longleftrightarrow> sem_ids s' = sem_ids s \<and> tasks s' = tasks s \<and>
     set (woken s) \<subseteq> set (woken s') \<and>
     (\<forall>t. t \<notin> set ts \<longrightarrow> queues s' t = queues s t \<and>
        (t \<in> set (sem_pending (sets s' sma)) \<longleftrightarrow> t \<in> set (sem_pending (sets s sma))))"

lemma outside_refl [simp]: "outside sma ts s s"
  by (simp add: outside_def)

lemma outside_trans: "outside sma ts s s' \<Longrightarrow> outside sma ts s' s'' \<Longrightarrow> outside sma ts s s''"
  by (auto simp: outside_def)

lemma outside_mono: "outside sma ts s s' \<Longrightarrow> set ts \<subseteq> set ts' \<Longrightarrow> outside sma ts' s s'"
  by (auto simp: outside_def)

lemma op_total_zero: "\<forall>sop\<in>set sops. sem_op sop = 0 \<Longrightarrow> op_total sops j = 0"
  by (induction sops) (auto simp: op_total_def)

text \<open>One round of the loop, by what the attempt for the process gives.\<close>

lemma update_round:
  assumes "sem_inv s" "live s i sma" "t \<in> set (sem_pending (sets s sma))"
    "q_status (queues s t) \<noteq> Sem_block"
  defines "r \<equiv> sem_outcome (q_sops (queues s t)) (vals s sma)"
  obtains (blocked) s1 where "r = Sem_block"
      "\<And>ts. update_loop sma (t # ts) s = update_loop sma ts s1" "sem_inv s1" "outside sma [t] s s1"
      "queues s1 = queues s" "vals s1 sma = vals s sma"
      "sem_pending (sets s1 sma) = sem_pending (sets s sma)"
  | (retry) s1 where "r = Sem_ok" "q_alter (queues s t)"
      "\<And>ts. update_loop sma (t # ts) s = Done s1" "sem_inv s1" "outside sma [t] s s1"
      "vals s1 sma = vals s sma" "t \<in> set (woken s1)" "q_status (queues s1 t) = Sem_block"
      "sem_pending (sets s1 sma) = sem_pending (sets s sma)"
  | (over) s1 where "r \<noteq> Sem_block" "\<not> (r = Sem_ok \<and> q_alter (queues s t))"
      "\<And>ts. update_loop sma (t # ts) s = update_loop sma ts s1" "sem_inv s1" "outside sma [t] s s1"
      "t \<in> set (woken s1)" "q_status (queues s1 t) = r" "\<not> q_prev (queues s1 t)"
      "sem_pending (sets s1 sma) = remove1 t (sem_pending (sets s sma))"
      "(r = Sem_ok \<longrightarrow> (\<forall>sop\<in>set (q_sops (queues s t)). sem_op sop = 0)) \<Longrightarrow> vals s1 sma = vals s sma"
proof -
  let ?q = "queues s t"
  obtain s1 where s1: "semop_on sma (q_sops ?q) (q_undo ?q) (q_pid ?q) (q_alter ?q) s = Done (s1, r)"
    "sem_frame s s1" "queues s1 = queues s" "woken s1 = woken s" "sem_ids s1 = sem_ids s"
    "if r = Sem_ok \<and> \<not> q_alter ?q
     then semop_done (q_sops ?q) (sem_base (sets s sma), adj_of s (q_undo ?q))
            (sem_base (sets s1 sma), adj_of s1 (q_undo ?q))
     else vals s1 sma = vals s sma"
    unfolding r_def by (rule semop_on_spec [OF queued_fit [OF assms(1-3)], of "q_pid ?q" "q_alter ?q"]) blast
  note D = sem_frameD [OF s1(2)]
  have prev: "q_prev ?q" using sem_invD(2) [OF assms(1-3)] by (simp add: queued_wf_def Let_def)
  have inv1: "sem_inv s1" using sem_frame_inv [OF s1(2) assms(1)] .
  have out1: "outside sma [t] s s1" by (simp add: outside_def D(7,17) s1(3-5))
  let ?w = "wake_up_process t s1"
  have fw: "sem_frame s1 ?w" by (rule sem_frame_wake)
  consider "r = Sem_block" | "r = Sem_ok" "q_alter ?q" | "r \<noteq> Sem_block" "\<not> (r = Sem_ok \<and> q_alter ?q)" by blast
  then show thesis
  proof cases
    case 1
    then show thesis
      by (intro blocked [of s1]) (use assms(4) s1 inv1 out1 D in \<open>auto simp: Let_def\<close>)
  next
    case 2
    let ?s2 = "queue_at t (\<lambda>q. q\<lparr>q_status := Sem_block\<rparr>) ?w"
    have "sem_frame ?w ?s2" using prev s1(3) by (intro sem_frame_status) (simp add: wake_up_process_def)
    then have "sem_inv ?s2" using sem_frame_inv fw inv1 by blast
    moreover have "outside sma [t] s ?s2"
      using out1 by (auto simp: outside_def sem_updates)
    moreover have "vals ?s2 sma = vals s sma" using s1(6) 2 by (simp add: vals_def sem_updates)
    ultimately show thesis
      by (intro retry [of ?s2]) (use assms(4) s1(1) 2 D in \<open>auto simp: Let_def sem_updates\<close>)
  next
    case 3
    let ?s2 = "queue_at t (\<lambda>q. q\<lparr>q_status := r\<rparr>) ?w"
    let ?s3 = "remove_from_queue sma t ?s2"
    have f2: "sem_frame s1 ?s2"
      using sem_frame_trans [OF fw sem_frame_status [of r]] 3 by simp
    have inv2: "sem_inv ?s2" using sem_frame_inv [OF f2 inv1] .
    have live2: "live ?s2 i sma" using assms(2) s1(2) f2 by (simp add: sem_frame_live)
    have "t \<in> set (sem_pending (sets ?s2 sma))" using assms(3) D by (simp add: sem_updates)
    then have "sem_inv ?s3"
      using unlink_inv_asleep [OF inv2 live2] 3 by (simp add: queue_at_def)
    moreover have "outside sma [t] s ?s3"
      using out1 by (auto simp: outside_def sem_updates remove_from_queue_def)
    moreover have "vals ?s3 sma = vals s1 sma" by (simp add: vals_def sem_updates remove_from_queue_def)
    moreover have "vals s1 sma = vals s sma" if z: "r = Sem_ok \<longrightarrow> (\<forall>sop\<in>set (q_sops ?q). sem_op sop = 0)"
    proof (cases "r = Sem_ok \<and> \<not> q_alter ?q")
      case True
      have "op_total (q_sops ?q) j = 0" for j using z True by (intro op_total_zero) simp
      then show ?thesis using True s1(6) by (auto simp: semop_done_def vals_def intro: nth_equalityI)
    qed (use s1(6) in simp)
    ultimately show thesis
      by (intro over [of ?s3]) (use assms(4) s1(1) 3 D in \<open>auto simp: Let_def sem_updates remove_from_queue_def\<close>)
  qed
qed

lemma update_loop_inv:
  assumes "sem_inv s" "live s i sma" "set ts \<subseteq> set (sem_pending (sets s sma))" "distinct ts"
  shows "\<exists>s'. update_loop sma ts s = Done s' \<and> sem_inv s' \<and> outside sma ts s s'"
  using assms
proof (induction ts arbitrary: s)
  case (Cons t ts)
  show ?case
  proof (cases "q_status (queues s t) = Sem_block")
    case True
    then show ?thesis using Cons.prems by simp
  next
    case False
    have t: "t \<in> set (sem_pending (sets s sma))" using Cons.prems by simp
    have go: ?thesis if s1: "update_loop sma (t # ts) s = update_loop sma ts s1" "sem_inv s1" "outside sma [t] s s1"
        "\<And>x. x \<in> set ts \<Longrightarrow> x \<in> set (sem_pending (sets s1 sma))" for s1
    proof -
      have "live s1 i sma" using Cons.prems(2) s1(3) by (simp add: outside_def live_def)
      then obtain s' where "update_loop sma ts s1 = Done s'" "sem_inv s'" "outside sma ts s1 s'"
        using Cons.IH [OF s1(2)] s1(4) Cons.prems(4) by auto
      then show ?thesis
        using s1(1) outside_trans [OF outside_mono [OF s1(3), of "t # ts"] outside_mono, of ts s' ]
        by auto
    qed
    have rest: "x \<in> set ts \<Longrightarrow> x \<in> set (sem_pending (sets s sma)) \<and> x \<noteq> t" for x using Cons.prems by auto
    show ?thesis
    proof (cases rule: update_round [OF Cons.prems(1,2) t False])
      case (1 s1)
      then show ?thesis using go [of s1] rest by simp
    next
      case (2 s1)
      then show ?thesis using outside_mono [of sma "[t]" s s1 "t # ts"] by auto
    next
      case (3 s1)
      then show ?thesis using go [of s1] rest by simp
    qed
  qed
qed simp

lemma update_queue_inv:
  assumes "sem_inv s" "live s i sma"
  shows "\<exists>s'. update_queue sma s = Done s' \<and> sem_inv s' \<and> sem_ids s' = sem_ids s \<and> tasks s' = tasks s"
  using update_loop_inv [OF assms, of "sem_pending (sets s sma)"] sem_invD(1) [OF assms]
  by (auto simp: update_queue_def set_wf_def outside_def)

text \<open>
  The fate of a process the loop visits: it stays blocked, or it is out of the queue and woken
  with its result.
\<close>

definition served :: "addr \<Rightarrow> sem_state \<Rightarrow> sem_state \<Rightarrow> nat \<Rightarrow> bool" where
  "served sma s s' t \<longleftrightarrow> (let r = sem_outcome (q_sops (queues s t)) (vals s sma) in
     if r = Sem_block then t \<in> set (sem_pending (sets s' sma))
     else t \<notin> set (sem_pending (sets s' sma)) \<and> t \<in> set (woken s') \<and> q_status (queues s' t) = r)"

definition retrying :: "addr \<Rightarrow> sem_state \<Rightarrow> nat \<Rightarrow> bool" where
  "retrying sma s t \<longleftrightarrow> t \<in> set (sem_pending (sets s sma)) \<and> q_status (queues s t) = Sem_block"

text \<open>Processes that are marked as not altering anything only wait for zero.\<close>

definition waits_only :: "sem_state \<Rightarrow> nat list \<Rightarrow> bool" where
  "waits_only s ts \<longleftrightarrow> (\<forall>t\<in>set ts. q_alter (queues s t) \<or> (\<forall>sop\<in>set (q_sops (queues s t)). sem_op sop = 0))"

lemma update_loop_serves:
  assumes "sem_inv s" "live s i sma" "set ts \<subseteq> set (sem_pending (sets s sma))" "distinct ts"
    "waits_only s ts" "update_loop sma ts s = Done s'"
  shows "vals s' sma = vals s sma \<and> ((\<exists>t\<in>set ts. retrying sma s' t) \<or> (\<forall>t\<in>set ts. served sma s s' t))"
  using assms
proof (induction ts arbitrary: s)
  case (Cons t ts)
  show ?case
  proof (cases "q_status (queues s t) = Sem_block")
    case True
    then show ?thesis using Cons.prems by (simp add: retrying_def)
  next
    case False
    have t: "t \<in> set (sem_pending (sets s sma))" "t \<notin> set ts" using Cons.prems by auto
    have rest: "x \<in> set ts \<Longrightarrow> x \<in> set (sem_pending (sets s sma)) \<and> x \<noteq> t" for x using Cons.prems by auto
    have dist: "distinct (sem_pending (sets s sma))" using sem_invD(1) [OF Cons.prems(1,2)] by (simp add: set_wf_def)
    have go: ?thesis if s1: "update_loop sma (t # ts) s = update_loop sma ts s1" "sem_inv s1"
        "outside sma [t] s s1" "\<And>x. x \<in> set ts \<Longrightarrow> x \<in> set (sem_pending (sets s1 sma))"
        "vals s1 sma = vals s sma" "served sma s s1 t" for s1
    proof -
      have lv: "live s1 i sma" using Cons.prems(2) s1(3) by (simp add: outside_def live_def)
      have sub: "set ts \<subseteq> set (sem_pending (sets s1 sma))" and d: "distinct ts" using s1(4) Cons.prems(4) by auto
      have qs: "x \<in> set ts \<Longrightarrow> queues s1 x = queues s x" for x using s1(3) rest by (auto simp: outside_def)
      have w: "waits_only s1 ts" using Cons.prems(5) qs by (auto simp: waits_only_def)
      have run: "update_loop sma ts s1 = Done s'" using Cons.prems(6) s1(1) by simp
      have out: "outside sma ts s1 s'"
        using update_loop_inv [OF s1(2) lv sub d] run by auto
      have IH: "vals s' sma = vals s1 sma"
        "(\<exists>t\<in>set ts. retrying sma s' t) \<or> (\<forall>t\<in>set ts. served sma s1 s' t)"
        using Cons.IH [OF s1(2) lv sub d w run] by blast+
      have "served sma s s' t" using s1(6) out t(2) by (auto simp: served_def outside_def Let_def)
      moreover have "served sma s1 s' x = served sma s s' x" if "x \<in> set ts" for x
        using qs [OF that] s1(5) by (simp add: served_def)
      ultimately show ?thesis using IH s1(5) by auto
    qed
    show ?thesis
    proof (cases rule: update_round [OF Cons.prems(1,2) t(1) False])
      case (1 s1)
      then show ?thesis using go [of s1] rest t by (simp add: served_def)
    next
      case (2 s1)
      then show ?thesis using Cons.prems(6) t by (auto simp: retrying_def)
    next
      case (3 s1)
      then have "vals s1 sma = vals s sma"
        using Cons.prems(5) by (cases "q_alter (queues s t)") (auto simp: waits_only_def)
      then show ?thesis using 3 go [of s1] rest t dist by (simp add: served_def Let_def)
    qed
  qed
qed simp

end
