(* ===== verification/Format.thy ===== *)
theory Format
  imports Kernel_Prelude
begin

text \<open>
  Number conversion and formatted output of \<open>lib/vsprintf.c\<close>, with the character classes of
  \<open>lib/ctype.c\<close> and the 64-bit division of \<open>include/asm-i386/div64.h\<close>. A C string is the list of
  its characters without the terminating NUL. The functions return the characters they write;
  the caller provides a buffer that is long enough, as the source assumes. The theory shows
  that reading a printed number gives it back, that the division is exact, and how long the
  output of a number is.
\<close>

section \<open>Character classes\<close>

definition ctype_table :: "nat list" where
  "ctype_table =
     (let U = 0x01; L = 0x02; D = 0x04; C = 0x08; P = 0x10; S = 0x20; X = 0x40; SP = 0x80 in
      replicate 9 C @ replicate 5 (C + S) @ replicate 18 C @ [S + SP] @ replicate 15 P @
      replicate 10 D @ replicate 7 P @ replicate 6 (U + X) @ replicate 20 U @ replicate 6 P @
      replicate 6 (L + X) @ replicate 20 L @ replicate 4 P @ [C] @ replicate 32 0 @ [S + SP] @
      replicate 31 P @ replicate 23 U @ [P] @ replicate 7 U @ [L] @ replicate 23 L @ [P] @
      replicate 8 L)"

definition ismask :: "char \<Rightarrow> nat \<Rightarrow> bool" where
  "ismask c m \<longleftrightarrow> ctype_table ! of_char c AND m \<noteq> 0"

definition isdigit :: "char \<Rightarrow> bool" where
  "isdigit c \<longleftrightarrow> ismask c 0x04"

definition islower :: "char \<Rightarrow> bool" where
  "islower c \<longleftrightarrow> ismask c 0x02"

definition isxdigit :: "char \<Rightarrow> bool" where
  "isxdigit c \<longleftrightarrow> ismask c (0x04 OR 0x40)"

definition toupper :: "char \<Rightarrow> nat" where
  "toupper c = (if islower c then of_char c - 32 else of_char c)"

section \<open>Reading numbers\<close>

definition digit_value :: "char \<Rightarrow> nat" where
  "digit_value c =
     (if isdigit c then of_char c - 48
      else (if islower c then toupper c else of_char c) - 65 + 10)"

fun strtoul_loop :: "nat \<Rightarrow> ulong \<Rightarrow> string \<Rightarrow> ulong \<times> string" where
  "strtoul_loop base result [] = (result, [])"
| "strtoul_loop base result (c # cp) =
     (if isxdigit c \<and> digit_value c < base
      then strtoul_loop base (result * of_nat base + of_nat (digit_value c)) cp
      else (result, c # cp))"

definition simple_strtoul :: "string \<Rightarrow> nat \<Rightarrow> ulong \<times> string" where
  "simple_strtoul cp base =
     (if base = 0 then
        (case cp of
           c # cp1 \<Rightarrow>
             if c = CHR ''0'' then
               (case cp1 of
                  x # h # rest \<Rightarrow>
                    if x = CHR ''x'' \<and> isxdigit h then strtoul_loop 16 0 (h # rest)
                    else strtoul_loop 8 0 cp1
                | _ \<Rightarrow> strtoul_loop 8 0 cp1)
             else strtoul_loop 10 0 cp
         | [] \<Rightarrow> strtoul_loop 10 0 cp)
      else strtoul_loop base 0 cp)"

definition simple_strtol :: "string \<Rightarrow> nat \<Rightarrow> ulong \<times> string" where
  "simple_strtol cp base =
     (case cp of
        c # rest \<Rightarrow>
          if c = CHR ''-'' then (let (v, e) = simple_strtoul rest base in (- v, e))
          else simple_strtoul cp base
      | [] \<Rightarrow> simple_strtoul cp base)"

definition is_digit :: "char \<Rightarrow> bool" where
  "is_digit c \<longleftrightarrow> (of_char CHR ''0'' :: nat) \<le> of_char c \<and> of_char c \<le> (of_char CHR ''9'' :: nat)"

fun skip_atoi_loop :: "int \<Rightarrow> string \<Rightarrow> int \<times> string" where
  "skip_atoi_loop i [] = (i, [])"
| "skip_atoi_loop i (c # s) =
     (if is_digit c then skip_atoi_loop (i * 10 + of_char c - 48) s else (i, c # s))"

definition skip_atoi :: "string \<Rightarrow> int \<times> string" where
  "skip_atoi s = skip_atoi_loop 0 s"

section \<open>Division of 64 by 32 bits\<close>

text \<open>
  The instruction \<open>divl\<close> divides \<open>edx:eax\<close> by a 32-bit operand. It raises a divide error
  (\<open>None\<close>) when the divisor is zero or the quotient does not fit in 32 bits.
\<close>

definition divl :: "ulong \<Rightarrow> ulong \<Rightarrow> ulong \<Rightarrow> (ulong \<times> ulong) option" where
  "divl edx eax d =
     (let n = unat edx * 2 ^ 32 + unat eax
      in if d = 0 \<or> n div unat d \<ge> 2 ^ 32 then None
         else Some (of_nat (n div unat d), of_nat (n mod unat d)))"

definition do_div :: "64 word \<Rightarrow> ulong \<Rightarrow> (64 word \<times> ulong) option" where
  "do_div n base =
     (let low = ucast n; high = ucast (drop_bit 32 n)
      in if high \<noteq> 0 \<and> base = 0 then None
         else
           let upper = (if high \<noteq> 0 then high mod base else high);
               high' = (if high \<noteq> 0 then high div base else high)
           in case divl upper low base of
                None \<Rightarrow> None
              | Some (low', m) \<Rightarrow> Some (push_bit 32 (ucast high') OR ucast low', m))"

section \<open>Printing a number\<close>

definition ZEROPAD :: ulong where "ZEROPAD = 1"
definition SIGN :: ulong where "SIGN = 2"
definition PLUS :: ulong where "PLUS = 4"
definition SPACE :: ulong where "SPACE = 8"
definition LEFT :: ulong where "LEFT = 16"
definition SPECIAL :: ulong where "SPECIAL = 32"
definition LARGE :: ulong where "LARGE = 64"

lemmas format_flags = ZEROPAD_def SIGN_def PLUS_def SPACE_def LEFT_def SPECIAL_def LARGE_def

abbreviation has :: "ulong \<Rightarrow> ulong \<Rightarrow> bool" where
  "has type flag \<equiv> type AND flag \<noteq> 0"

text \<open>
  Field widths and precisions are C \<open>int\<close>s whose overflow is undefined; unbounded integers
  agree with them on every execution that has a meaning. \<open>pad_while lo n c\<close> is the loop
  \<open>while (lo < n--) *str++ = c\<close> with the final value of \<open>n\<close>, and \<open>pad_pre\<close> the loop
  \<open>while (--n > 0) *str++ = c\<close>.
\<close>

function pad_while :: "int \<Rightarrow> int \<Rightarrow> char \<Rightarrow> string \<times> int" where
  "pad_while lo n c =
     (if lo < n then (let (s, n') = pad_while lo (n - 1) c in (c # s, n')) else ([], n - 1))"
  by pat_completeness auto
termination by (relation "measure (\<lambda>(lo, n, c). nat (n - lo))") auto

function pad_pre :: "int \<Rightarrow> char \<Rightarrow> string \<times> int" where
  "pad_pre n c =
     (if n - 1 > 0 then (let (s, n') = pad_pre (n - 1) c in (c # s, n')) else ([], n - 1))"
  by pat_completeness auto
termination by (relation "measure (\<lambda>(n, c). nat n)") auto

declare pad_while.simps [simp del] pad_pre.simps [simp del]

text \<open>
  The digits go to \<open>tmp[66]\<close>, the least significant first; a digit past the end of the array
  or an index past the end of the digit string is \<open>None\<close>.
\<close>

partial_function (option) digit_loop ::
  "string \<Rightarrow> ulong \<Rightarrow> 64 word \<Rightarrow> string \<Rightarrow> string option" where
  "digit_loop digits base num tmp =
     (if num = 0 then Some tmp
      else case do_div num base of
        None \<Rightarrow> None
      | Some (q, m) \<Rightarrow>
          if unat m < length digits \<and> length tmp < 66
          then digit_loop digits base q (tmp @ [digits ! unat m])
          else None)"

definition number_digits :: "ulong \<Rightarrow> string" where
  "number_digits type =
     (if has type LARGE then ''0123456789ABCDEFGHIJKLMNOPQRSTUVWXYZ''
      else ''0123456789abcdefghijklmnopqrstuvwxyz'')"

definition number :: "64 word \<Rightarrow> int \<Rightarrow> int \<Rightarrow> int \<Rightarrow> ulong \<Rightarrow> string option" where
  "number num base size0 prec type0 =
     (let digits = number_digits type0;
          type = (if has type0 LEFT then type0 AND NOT ZEROPAD else type0)
      in if base < 2 \<or> base > 36 then None
         else
           let c = (if has type ZEROPAD then CHR ''0'' else CHR '' '');
               (sign, num, size1) =
                 (if has type SIGN then
                    if num <s 0 then (''-'', - num, size0 - 1)
                    else if has type PLUS then (''+'', num, size0 - 1)
                    else if has type SPACE then ('' '', num, size0 - 1)
                    else ([], num, size0)
                  else ([], num, size0));
               size2 =
                 (if has type SPECIAL then
                    if base = 16 then size1 - 2 else if base = 8 then size1 - 1 else size1
                  else size1)
           in case (if num = 0 then Some ''0'' else digit_loop digits (of_int base) num []) of
                None \<Rightarrow> None
              | Some tmp \<Rightarrow>
                  let i = int (length tmp);
                      prec1 = (if i > prec then i else prec);
                      size3 = size2 - prec1;
                      (blanks, size4) =
                        (if \<not> has type (ZEROPAD + LEFT) then pad_while 0 size3 CHR '' '' else ([], size3));
                      prefix =
                        (if has type SPECIAL then
                           if base = 8 then ''0''
                           else if base = 16 then [CHR ''0'', digits ! 33] else []
                         else []);
                      (fill, size5) =
                        (if \<not> has type LEFT then pad_while 0 size4 c else ([], size4));
                      (zeros, _) = pad_while i prec1 CHR ''0'';
                      (trail, _) = pad_while 0 size5 CHR '' ''
                  in Some (blanks @ sign @ prefix @ fill @ zeros @ rev tmp @ trail))"

section \<open>Formatted output\<close>

text \<open>
  The variable arguments, by the type \<open>va_arg\<close> reads: an \<open>int\<close>, \<open>long\<close> or \<open>size_t\<close>, a
  \<open>long long\<close>, a string that may be NULL, or another pointer. Reading an argument that is
  missing or has another type is undefined (\<open>None\<close>).
\<close>

datatype va = Va_int ulong | Va_longlong "64 word" | Va_string "string option" | Va_ptr ulong

fun va_int :: "va list \<Rightarrow> (ulong \<times> va list) option" where
  "va_int (Va_int v # args) = Some (v, args)"
| "va_int _ = None"

fun strnlen :: "string \<Rightarrow> ulong \<Rightarrow> nat" where
  "strnlen [] count = 0"
| "strnlen (c # sc) count = (if count = 0 then 0 else Suc (strnlen sc (count - 1)))"

text \<open>The label \<open>repeat\<close>: the flag characters after the percent sign.\<close>

fun format_flag_chars :: "string \<Rightarrow> ulong \<Rightarrow> ulong \<times> string" where
  "format_flag_chars [] flags = (flags, [])"
| "format_flag_chars (c # fmt) flags =
     (if c = CHR ''-'' then format_flag_chars fmt (flags OR LEFT)
      else if c = CHR ''+'' then format_flag_chars fmt (flags OR PLUS)
      else if c = CHR '' '' then format_flag_chars fmt (flags OR SPACE)
      else if c = CHR ''#'' then format_flag_chars fmt (flags OR SPECIAL)
      else if c = CHR ''0'' then format_flag_chars fmt (flags OR ZEROPAD)
      else (flags, c # fmt))"

definition field_width ::
  "string \<Rightarrow> ulong \<Rightarrow> va list \<Rightarrow> (int \<times> ulong \<times> string \<times> va list) option" where
  "field_width fmt flags args =
     (case fmt of
        [] \<Rightarrow> Some (-1, flags, fmt, args)
      | c # fmt' \<Rightarrow>
          if is_digit c then
            (let (w, r) = skip_atoi fmt in Some (w, flags, r, args))
          else if c = CHR ''*'' then
            (case va_int args of
               None \<Rightarrow> None
             | Some (v, args') \<Rightarrow>
                 if sint v < 0 then Some (- sint v, flags OR LEFT, fmt', args')
                 else Some (sint v, flags, fmt', args'))
          else Some (-1, flags, fmt, args))"

definition precision :: "string \<Rightarrow> va list \<Rightarrow> (int \<times> string \<times> va list) option" where
  "precision fmt args =
     (case fmt of
        [] \<Rightarrow> Some (-1, fmt, args)
      | d # fmt1 \<Rightarrow>
          if d = CHR ''.'' then
            (case (case fmt1 of
                     [] \<Rightarrow> Some (-1, fmt1, args)
                   | c # fmt2 \<Rightarrow>
                       if is_digit c then (let (p, r) = skip_atoi fmt1 in Some (p, r, args))
                       else if c = CHR ''*'' then
                         (case va_int args of
                            None \<Rightarrow> None
                          | Some (v, args') \<Rightarrow> Some (sint v, fmt2, args'))
                       else Some (-1, fmt1, args)) of
               None \<Rightarrow> None
             | Some (p, r, args') \<Rightarrow> Some (if p < 0 then 0 else p, r, args'))
          else Some (-1, fmt, args))"

definition qualifier :: "string \<Rightarrow> char option \<times> string" where
  "qualifier fmt =
     (case fmt of
        c # fmt' \<Rightarrow> if c \<in> {CHR ''h'', CHR ''l'', CHR ''L'', CHR ''z''} then (Some c, fmt') else (None, fmt)
      | [] \<Rightarrow> (None, fmt))"

definition format_char :: "ulong \<Rightarrow> int \<Rightarrow> ulong \<Rightarrow> string" where
  "format_char v width flags =
     (let (before, w) = (if \<not> has flags LEFT then pad_pre width CHR '' '' else ([], width));
          (after, _) = pad_pre w CHR '' ''
      in before @ [char_of (unat v)] @ after)"

definition format_string :: "string option \<Rightarrow> int \<Rightarrow> int \<Rightarrow> ulong \<Rightarrow> string" where
  "format_string arg width prec flags =
     (let s = (case arg of None \<Rightarrow> ''<NULL>'' | Some s \<Rightarrow> s);
          len = strnlen s (of_int prec);
          (before, w) =
            (if \<not> has flags LEFT then pad_while (int len) width CHR '' '' else ([], width));
          (after, _) = pad_while (int len) w CHR '' ''
      in before @ take len s @ after)"

definition format_pointer :: "ulong \<Rightarrow> int \<Rightarrow> int \<Rightarrow> ulong \<Rightarrow> string option" where
  "format_pointer v width prec flags =
     (if width = -1 then number (ucast v) 16 (2 * 4) prec (flags OR ZEROPAD)
      else number (ucast v) 16 width prec flags)"

text \<open>The value of an integer conversion, extended to \<open>unsigned long long\<close>.\<close>

definition format_value :: "char option \<Rightarrow> ulong \<Rightarrow> va list \<Rightarrow> (64 word \<times> va list) option" where
  "format_value qual flags args =
     (if qual = Some CHR ''L'' then
        (case args of Va_longlong v # args' \<Rightarrow> Some (v, args') | _ \<Rightarrow> None)
      else
        (case va_int args of
           None \<Rightarrow> None
         | Some (v, args') \<Rightarrow>
             Some (if qual = Some CHR ''l'' then (if has flags SIGN then scast v else ucast v)
                   else if qual = Some CHR ''z'' then ucast v
                   else if qual = Some CHR ''h'' then
                     (if has flags SIGN then scast (ucast v :: 16 word) else ucast (ucast v :: 16 word))
                   else (if has flags SIGN then scast v else ucast v), args')))"

text \<open>
  The switch on the conversion character. The result is the text, the stores of \<open>%n\<close> as
  pairs of an address and a value, and the arguments left; \<open>pos\<close> is \<open>str - buf\<close>.
\<close>

definition format_int ::
  "char option \<Rightarrow> int \<Rightarrow> int \<Rightarrow> int \<Rightarrow> ulong \<Rightarrow> va list \<Rightarrow>
   (string \<times> (ulong \<times> nat) list \<times> va list) option" where
  "format_int qual base width prec flags args =
     (case format_value qual flags args of
        None \<Rightarrow> None
      | Some (num, args') \<Rightarrow>
          (case number num base width prec flags of
             None \<Rightarrow> None
           | Some s \<Rightarrow> Some (s, [], args')))"

definition format_conv ::
  "char \<Rightarrow> nat \<Rightarrow> char option \<Rightarrow> int \<Rightarrow> int \<Rightarrow> ulong \<Rightarrow> va list \<Rightarrow>
   (string \<times> (ulong \<times> nat) list \<times> va list) option" where
  "format_conv c pos qual width prec flags args =
     (if c = CHR ''c'' then
        (case va_int args of
           None \<Rightarrow> None
         | Some (v, args') \<Rightarrow> Some (format_char v width flags, [], args'))
      else if c = CHR ''s'' then
        (case args of
           Va_string s # args' \<Rightarrow> Some (format_string s width prec flags, [], args')
         | _ \<Rightarrow> None)
      else if c = CHR ''p'' then
        (case args of
           Va_ptr v # args' \<Rightarrow>
             (case format_pointer v width prec flags of
                None \<Rightarrow> None
              | Some s \<Rightarrow> Some (s, [], args'))
         | _ \<Rightarrow> None)
      else if c = CHR ''n'' then
        (case args of Va_ptr ip # args' \<Rightarrow> Some ([], [(ip, pos)], args') | _ \<Rightarrow> None)
      else if c = CHR ''%'' then Some (''%'', [], args)
      else if c = CHR ''o'' then format_int qual 8 width prec flags args
      else if c = CHR ''X'' then format_int qual 16 width prec (flags OR LARGE) args
      else if c = CHR ''x'' then format_int qual 16 width prec flags args
      else if c = CHR ''d'' \<or> c = CHR ''i'' then format_int qual 10 width prec (flags OR SIGN) args
      else if c = CHR ''u'' then format_int qual 10 width prec flags args
      else Some ([CHR ''%'', c], [], args))"

text \<open>
  One conversion, from the character after the percent sign to the one after the conversion
  character. At the end of the format the percent sign itself is written.
\<close>

definition format_spec ::
  "string \<Rightarrow> nat \<Rightarrow> va list \<Rightarrow> (string \<times> (ulong \<times> nat) list \<times> string \<times> va list) option" where
  "format_spec fmt pos args =
     (let (flags, fmt1) = format_flag_chars fmt 0
      in case field_width fmt1 flags args of
           None \<Rightarrow> None
         | Some (width, flags, fmt2, args1) \<Rightarrow>
             (case precision fmt2 args1 of
                None \<Rightarrow> None
              | Some (prec, fmt3, args2) \<Rightarrow>
                  (let (qual, fmt4) = qualifier fmt3
                   in case fmt4 of
                        [] \<Rightarrow> Some (''%'', [], [], args2)
                      | c # fmt5 \<Rightarrow>
                          (case format_conv c pos qual width prec flags args2 of
                             None \<Rightarrow> None
                           | Some (s, w, args3) \<Rightarrow> Some (s, w, fmt5, args3)))))"

lemma skip_atoi_loop_length: "skip_atoi_loop i s = (v, r) \<Longrightarrow> length r \<le> length s"
  by (induction i s arbitrary: v r rule: skip_atoi_loop.induct) (auto split: if_splits intro: le_SucI)

lemma skip_atoi_length: "skip_atoi s = (v, r) \<Longrightarrow> length r \<le> length s"
  by (simp add: skip_atoi_def skip_atoi_loop_length)

lemma format_flag_chars_length: "format_flag_chars s f = (g, r) \<Longrightarrow> length r \<le> length s"
  by (induction s f arbitrary: g r rule: format_flag_chars.induct)
    (auto split: if_splits intro: le_SucI)

lemma field_width_length: "field_width s f a = Some (w, g, r, b) \<Longrightarrow> length r \<le> length s"
  by (auto simp: field_width_def split: list.splits if_splits option.splits prod.splits
      dest!: skip_atoi_length)

lemma precision_length: "precision s a = Some (p, r, b) \<Longrightarrow> length r \<le> length s"
  by (auto simp: precision_def split: list.splits if_splits option.splits prod.splits
      dest!: skip_atoi_length)

lemma qualifier_length: "qualifier s = (q, r) \<Longrightarrow> length r \<le> length s"
  by (auto simp: qualifier_def split: list.splits if_splits)

lemma format_spec_length: "format_spec s pos a = Some (t, w, r, b) \<Longrightarrow> length r \<le> length s"
  by (auto simp: format_spec_def split: list.splits option.splits prod.splits
      dest!: format_flag_chars_length field_width_length precision_length qualifier_length)

function vsprintf_loop ::
  "string \<Rightarrow> va list \<Rightarrow> string \<Rightarrow> (ulong \<times> nat) list \<Rightarrow> (string \<times> (ulong \<times> nat) list) option" where
  "vsprintf_loop [] args str stores = Some (str, stores)"
| "vsprintf_loop (c # fmt) args str stores =
     (if c \<noteq> CHR ''%'' then vsprintf_loop fmt args (str @ [c]) stores
      else case format_spec fmt (length str) args of
             None \<Rightarrow> None
           | Some (s, w, fmt', args') \<Rightarrow> vsprintf_loop fmt' args' (str @ s) (stores @ w))"
  by pat_completeness auto
termination
  by (relation "measure (\<lambda>(fmt, _). length fmt)") (auto dest: format_spec_length)

text \<open>The text written, the length returned and the stores of \<open>%n\<close>.\<close>

definition vsprintf :: "string \<Rightarrow> va list \<Rightarrow> (string \<times> int \<times> (ulong \<times> nat) list) option" where
  "vsprintf fmt args =
     (case vsprintf_loop fmt args [] [] of
        None \<Rightarrow> None
      | Some (str, stores) \<Rightarrow> Some (str, int (length str), stores))"

definition sprintf :: "string \<Rightarrow> va list \<Rightarrow> (string \<times> int \<times> (ulong \<times> nat) list) option" where
  "sprintf fmt args = vsprintf fmt args"

section \<open>The division is exact\<close>

lemma div_split:
  assumes "0 < (b :: nat)"
  shows "(h * k + l) div b = h div b * k + (h mod b * k + l) div b"
    and "(h * k + l) mod b = (h mod b * k + l) mod b"
proof -
  have "h * k = (b * (h div b) + h mod b) * k" by simp
  then have eq: "h * k + l = (h mod b * k + l) + b * (h div b * k)"
    by (simp only: distrib_right mult.assoc add.assoc add.commute add.left_commute)
  show "(h * k + l) div b = h div b * k + (h mod b * k + l) div b"
    unfolding eq using assms by (subst div_mult_self2) auto
  show "(h * k + l) mod b = (h mod b * k + l) mod b"
    unfolding eq by (rule mod_mult_self2)
qed

lemma divl_fits:
  assumes "u < (b :: nat)" and "l < k"
  shows "(u * k + l) div b < k"
proof -
  have "u * k + l < (u + 1) * k" using assms(2) by simp
  also have "\<dots> \<le> b * k" using assms(1) by (intro mult_le_mono1) simp
  finally show ?thesis using assms by (simp add: less_mult_imp_div_less mult.commute)
qed

lemma unat_eqI: "unat x = unat y \<Longrightarrow> x = (y :: 'a::len word)"
  by (rule unsigned_word_eqI)

lemma unat_ucast_64: "unat (ucast (l :: ulong) :: 64 word) = unat l"
proof -
  have "unat l < 2 ^ 64" using unsigned_less [of l, where 'a = nat] by simp
  then show ?thesis by (simp add: unsigned_ucast_eq take_bit_nat_eq_self)
qed

lemma unat_join:
  "unat ((push_bit 32 (ucast (h :: ulong)) OR ucast (l :: ulong)) :: 64 word) =
     unat h * 2 ^ 32 + unat l"
proof -
  have h: "unat h < 2 ^ 32" and l: "unat l < 2 ^ 32"
    using unsigned_less [of h, where 'a = nat] unsigned_less [of l, where 'a = nat] by simp_all
  have "(push_bit 32 (ucast h) OR ucast l :: 64 word) = push_bit 32 (ucast h) + ucast l"
    by (rule disjunctive_add [symmetric]) (auto simp: bit_simps dest: bit_imp_le_length)
  moreover have "unat (push_bit 32 (ucast h) :: 64 word) = unat h * 2 ^ 32"
    using h by (simp add: push_bit_eq_mult unat_word_ariths unsigned_ucast_eq
        take_bit_nat_eq_self mult.commute)
  moreover have "unat (ucast l :: 64 word) = unat l"
    by (simp add: unat_ucast_64)
  ultimately show ?thesis using h l by (simp add: unat_word_ariths)
qed

lemma do_div_eq:
  assumes "base \<noteq> 0"
  shows "do_div n base = Some (n div ucast base, ucast (n mod ucast base))"
proof -
  define H L b where "H = unat n div 2 ^ 32" and "L = unat n mod 2 ^ 32" and "b = unat base"
  have b: "0 < b" "b < 2 ^ 32"
    using assms unsigned_less [of base, where 'a = nat] by (simp_all add: b_def unat_gt_0)
  have n64: "unat n < 2 ^ 64" using unsigned_less [of n, where 'a = nat] by simp
  have N: "unat n = H * 2 ^ 32 + L" by (simp add: H_def L_def)
  have HL: "H < 2 ^ 32" "L < 2 ^ 32" using n64 by (simp_all add: H_def L_def)
  define low high :: ulong where "low = ucast n" and "high = ucast (drop_bit 32 n)"
  have low: "unat low = L" by (simp add: low_def L_def unsigned_ucast_eq take_bit_eq_mod)
  have high: "unat high = H"
    using HL by (simp add: high_def H_def unsigned_ucast_eq unat_drop_bit take_bit_nat_eq_self)
  define upper high' where "upper = (if high \<noteq> 0 then high mod base else high)"
    and "high' = (if high \<noteq> 0 then high div base else high)"
  have upper: "unat upper = H mod b" and high': "unat high' = H div b"
    using high by (auto simp: upper_def high'_def b_def unat_mod unat_div)
  have fits: "(H mod b * 2 ^ 32 + L) div b < 2 ^ 32"
    using b HL by (intro divl_fits) auto
  have "divl upper low base = Some (of_nat ((H mod b * 2 ^ 32 + L) div b),
      of_nat ((H mod b * 2 ^ 32 + L) mod b))"
    using fits assms unfolding divl_def Let_def upper low b_def [symmetric] by simp
  then have "do_div n base =
      Some (push_bit 32 (ucast high') OR ucast (of_nat ((H mod b * 2 ^ 32 + L) div b) :: ulong),
        of_nat ((H mod b * 2 ^ 32 + L) mod b))"
    using assms unfolding do_div_def Let_def low_def [symmetric] high_def [symmetric]
      upper_def [symmetric] high'_def [symmetric] by simp
  moreover have "push_bit 32 (ucast high') OR ucast (of_nat ((H mod b * 2 ^ 32 + L) div b) :: ulong) =
      n div ucast base"
  proof (rule unat_eqI)
    have "unat (of_nat ((H mod b * 2 ^ 32 + L) div b) :: ulong) = (H mod b * 2 ^ 32 + L) div b"
      using fits by (simp add: unsigned_of_nat take_bit_nat_eq_self)
    then show "unat (push_bit 32 (ucast high') OR
        ucast (of_nat ((H mod b * 2 ^ 32 + L) div b) :: ulong) :: 64 word) = unat (n div ucast base)"
      unfolding unat_join high' unat_div N
      using div_split(1) [OF b(1), of H "2 ^ 32" L] by (simp add: unat_ucast_64 b_def)
  qed
  moreover have "(of_nat ((H mod b * 2 ^ 32 + L) mod b) :: ulong) = ucast (n mod ucast base)"
  proof (rule unat_eqI)
    have m: "unat n mod b < 2 ^ 32" using b by (meson less_trans mod_less_divisor)
    have "unat (ucast (n mod ucast base) :: ulong) = unat n mod b"
      using m by (subst unsigned_ucast_eq) (simp add: unat_mod unat_ucast_64 take_bit_nat_eq_self b_def)
    moreover have "unat n mod b = (H mod b * 2 ^ 32 + L) mod b"
      unfolding N by (rule div_split(2) [OF b(1)])
    ultimately show "unat (of_nat ((H mod b * 2 ^ 32 + L) mod b) :: ulong) =
        unat (ucast (n mod ucast base) :: ulong)"
      using m by (simp add: unsigned_of_nat take_bit_nat_eq_self)
  qed
  ultimately show ?thesis by simp
qed

section \<open>The digits of a number\<close>

text \<open>The digits of a natural number, the least significant first.\<close>

function digits_of :: "nat \<Rightarrow> nat \<Rightarrow> nat list" where
  "digits_of b n = (if n = 0 \<or> b < 2 then [] else n mod b # digits_of b (n div b))"
  by pat_completeness auto
termination by (relation "measure snd") auto

declare digits_of.simps [simp del]

lemma digits_of_trivial: "n = 0 \<or> b < 2 \<Longrightarrow> digits_of b n = []"
  by (subst digits_of.simps) simp

lemma digits_of_0 [simp]: "digits_of b 0 = []"
  by (simp add: digits_of_trivial)

lemma digits_of_pos: "0 < n \<Longrightarrow> 2 \<le> b \<Longrightarrow> digits_of b n = n mod b # digits_of b (n div b)"
  by (subst digits_of.simps) simp

lemma digits_of_less: "d \<in> set (digits_of b n) \<Longrightarrow> d < b"
proof (induction b n rule: digits_of.induct)
  case (1 b n)
  then show ?case by (cases "n = 0 \<or> b < 2") (auto simp: digits_of_pos digits_of_trivial)
qed

lemma digits_of_value: "2 \<le> b \<Longrightarrow> foldr (\<lambda>d r. r * b + d) (digits_of b n) 0 = n"
proof (induction b n rule: digits_of.induct)
  case (1 b n)
  then show ?case by (cases "n = 0") (simp_all add: digits_of_pos)
qed

lemma digits_of_length: "n < 2 ^ k \<Longrightarrow> length (digits_of b n) \<le> k"
proof (induction k arbitrary: n)
  case (Suc k)
  show ?case
  proof (cases "n = 0 \<or> b < 2")
    case False
    then have "n div b \<le> n div 2" by (simp add: div_le_mono2)
    then have "n div b < 2 ^ k" using Suc.prems by simp
    then show ?thesis using Suc.IH False by (simp add: digits_of_pos)
  qed (simp add: digits_of_trivial)
qed simp

lemma digits_of_nonempty: "0 < n \<Longrightarrow> 2 \<le> b \<Longrightarrow> digits_of b n \<noteq> []"
  by (simp add: digits_of_pos)

lemma digit_loop_eq:
  assumes "2 \<le> b" "b \<le> 36" "length digits = 36" "length tmp + length (digits_of b (unat num)) \<le> 66"
  shows "digit_loop digits (of_nat b) num tmp =
    Some (tmp @ map ((!) digits) (digits_of b (unat num)))"
  using assms(4)
proof (induction "unat num" arbitrary: num tmp rule: less_induct)
  case less
  have ub: "unat (of_nat b :: ulong) = b" "unat (of_nat b :: 64 word) = b"
    using assms(2) by (simp_all add: unsigned_of_nat take_bit_nat_eq_self)
  have b0: "(of_nat b :: ulong) \<noteq> 0" using ub assms(1) by (metis not_numeral_le_zero unat_0)
  have uc: "unat (ucast (of_nat b :: ulong) :: 64 word) = b"
    by (simp only: unat_ucast_64 ub)
  show ?case
  proof (cases "num = 0")
    case False
    then have pos: "0 < unat num" by (simp add: unat_gt_0)
    let ?q = "num div ucast (of_nat b :: ulong)" and ?m = "num mod ucast (of_nat b :: ulong)"
    have q: "unat ?q = unat num div b" and m: "unat ?m = unat num mod b"
      by (simp_all only: unat_div unat_mod uc)
    have m36: "unat num mod b < 36" 
      using assms(1,2) mod_less_divisor [of b "unat num"] by linarith
    have m': "unat (ucast ?m :: ulong) = unat num mod b"
      using m m36 by (subst unsigned_ucast_eq) (simp add: take_bit_nat_eq_self)
    have ds: "digits_of b (unat num) = unat num mod b # digits_of b (unat ?q)"
      using digits_of_pos [OF pos assms(1)] q by simp
    have "unat ?q < unat num" using q pos assms(1) by simp
    then have "digit_loop digits (of_nat b) ?q (tmp @ [digits ! (unat num mod b)]) =
        Some ((tmp @ [digits ! (unat num mod b)]) @ map ((!) digits) (digits_of b (unat ?q)))"
      using less.prems ds by (intro less.hyps) auto
    then show ?thesis
      using False m36 m' ds less.prems assms(3)
      by (subst digit_loop.simps) (simp add: do_div_eq [OF b0])
  qed (simp add: digit_loop.simps)
qed

lemma pad_while_eq: "pad_while lo n c = (replicate (nat (n - lo)) c, min lo n - 1)"
proof (induction lo n c rule: pad_while.induct)
  case (1 lo n c)
  show ?case
  proof (cases "lo < n")
    case True
    then have "nat (n - lo) = Suc (nat (n - 1 - lo))" by simp
    then show ?thesis using 1 [OF True] True
      by (subst pad_while.simps) (simp add: min_def)
  qed (simp add: pad_while.simps min_def)
qed

section \<open>What a number looks like\<close>

text \<open>
  The reference layout: sign, radix prefix and digits, with zeros up to the precision, in a
  field that is filled with blanks on the right or the left or with zeros after the prefix.
\<close>

definition layout_sign :: "64 word \<Rightarrow> ulong \<Rightarrow> string" where
  "layout_sign num type =
     (if \<not> has type SIGN then []
      else if sint num < 0 then ''-''
      else if has type PLUS then ''+''
      else if has type SPACE then '' '' else [])"

definition layout_prefix :: "int \<Rightarrow> ulong \<Rightarrow> string" where
  "layout_prefix base type =
     (if \<not> has type SPECIAL then []
      else if base = 8 then ''0''
      else if base = 16 then (if has type LARGE then ''0X'' else ''0x'') else [])"

definition layout_magnitude :: "64 word \<Rightarrow> ulong \<Rightarrow> nat" where
  "layout_magnitude num type = (if has type SIGN then nat \<bar>sint num\<bar> else unat num)"

definition layout_digits :: "int \<Rightarrow> ulong \<Rightarrow> nat \<Rightarrow> string" where
  "layout_digits base type n =
     (if n = 0 then ''0'' else map ((!) (number_digits type)) (rev (digits_of (nat base) n)))"

definition layout :: "64 word \<Rightarrow> int \<Rightarrow> int \<Rightarrow> int \<Rightarrow> ulong \<Rightarrow> string" where
  "layout num base width prec type =
     (let ds = layout_digits base type (layout_magnitude num type);
          body = replicate (nat (prec - int (length ds))) CHR ''0'' @ ds;
          front = layout_sign num type @ layout_prefix base type;
          gap = nat (width - int (length front + length body))
      in if has type LEFT then front @ body @ replicate gap CHR '' ''
         else if has type ZEROPAD then front @ replicate gap CHR ''0'' @ body
         else replicate gap CHR '' '' @ front @ body)"

lemma drop_zeropad:
  "(t AND NOT ZEROPAD) AND SIGN = t AND SIGN" "(t AND NOT ZEROPAD) AND PLUS = t AND PLUS"
  "(t AND NOT ZEROPAD) AND SPACE = t AND SPACE" "(t AND NOT ZEROPAD) AND LEFT = t AND LEFT"
  "(t AND NOT ZEROPAD) AND SPECIAL = t AND SPECIAL" "(t AND NOT ZEROPAD) AND LARGE = t AND LARGE"
  "(t AND NOT ZEROPAD) AND ZEROPAD = 0"
  by (simp_all add: format_flags and.assoc)

lemma has_zeropad_or_left: "has t (ZEROPAD + LEFT) = (has t ZEROPAD \<or> has t LEFT)"
proof -
  have "ZEROPAD + LEFT = ZEROPAD OR LEFT" by (simp add: format_flags)
  then show ?thesis by (simp add: bit.conj_disj_distrib or_eq_0_iff)
qed

lemma length_number_digits: "length (number_digits type) = 36"
  by (simp add: number_digits_def)

lemma number_tmp:
  assumes "2 \<le> base" "base \<le> 36"
  shows "(if num = 0 then Some ''0'' else digit_loop (number_digits type) (of_int base) num []) =
    Some (rev (layout_digits base type (unat num)))"
proof -
  have "unat num < 2 ^ 64" using unsigned_less [of num, where 'a = nat] by simp
  then have "length (digits_of (nat base) (unat num)) \<le> 64" by (rule digits_of_length)
  moreover have "(of_int base :: ulong) = of_nat (nat base)" using assms by simp
  ultimately show ?thesis
    using assms digit_loop_eq [of "nat base" "number_digits type" "[]" num]
    by (simp add: length_number_digits layout_digits_def rev_map unat_eq_0)
qed

lemma unat_of_int_64: "0 \<le> k \<Longrightarrow> k < 2 ^ 64 \<Longrightarrow> unat (of_int k :: 64 word) = nat k"
  by (simp add: unsigned_of_int take_bit_int_eq_self)

lemma sint_64_range: "- (2 ^ 63) \<le> sint (num :: 64 word)" "sint (num :: 64 word) < 2 ^ 63"
  using sint_greater_eq [of num] sint_less [of num] by simp_all

lemma unat_neg_sint: "sint (num :: 64 word) < 0 \<Longrightarrow> unat (- num) = nat \<bar>sint num\<bar>"
  using unat_of_int_64 [of "- sint num"] sint_64_range [of num] by simp

lemma unat_pos_sint: "\<not> sint (num :: 64 word) < 0 \<Longrightarrow> unat num = nat \<bar>sint num\<bar>"
  using unat_of_int_64 [of "sint num"] sint_64_range [of num] by simp

lemma number_sign:
  "(if has type SIGN then
      if num <s 0 then (''-'', - num, width - 1)
      else if has type PLUS then (''+'', num, width - 1)
      else if has type SPACE then ('' '', num, width - 1)
      else ([], num, width)
    else ([], num, width)) =
   (layout_sign num type, if has type SIGN \<and> sint num < 0 then - num else num,
    width - int (length (layout_sign num type)))"
  by (simp add: layout_sign_def word_sless_alt)

lemma number_prefix:
  "(if has type SPECIAL then
      if base = 8 then ''0''
      else if base = 16 then [CHR ''0'', number_digits type ! 33] else []
    else []) = layout_prefix base type"
  by (simp add: layout_prefix_def number_digits_def)

lemma number_prefix_size:
  "(if has type SPECIAL then
      if base = 16 then w - 2 else if base = 8 then w - 1 else w
    else w) = w - int (length (layout_prefix base type))"
  by (simp add: layout_prefix_def)

lemma number_value:
  "unat (if has type SIGN \<and> sint num < 0 then - num else num) = layout_magnitude num type"
  by (simp add: layout_magnitude_def unat_neg_sint unat_pos_sint)

text \<open>The three padding loops of a number fill exactly one of its gaps.\<close>

lemma number_eq:
  assumes "2 \<le> base" "base \<le> 36"
  shows "number num base width prec type = Some (layout num base width prec type)"
proof -
  define type' where "type' = (if has type LEFT then type AND NOT ZEROPAD else type)"
  define n where "n = (if has type SIGN \<and> sint num < 0 then - num else num)"
  define ds where "ds = layout_digits base type (layout_magnitude num type)"
  define sg where "sg = layout_sign num type"
  define pf where "pf = layout_prefix base type"
  have flags: "has type' SIGN = has type SIGN" "has type' PLUS = has type PLUS"
    "has type' SPACE = has type SPACE" "has type' LEFT = has type LEFT"
    "has type' SPECIAL = has type SPECIAL" "has type' ZEROPAD = (has type ZEROPAD \<and> \<not> has type LEFT)"
    by (simp_all add: type'_def drop_zeropad)
  have same: "layout_sign num type' = sg" "layout_prefix base type' = pf"
    by (simp_all add: type'_def sg_def pf_def layout_sign_def layout_prefix_def drop_zeropad)
  have tmp: "(if n = 0 then Some ''0'' else digit_loop (number_digits type) (of_int base) n []) =
      Some (rev ds)"
    using number_tmp [OF assms, of n type] number_value [of type num] by (simp add: n_def ds_def)
  have "number num base width prec type =
    (let i = int (length ds); prec1 = (if i > prec then i else prec);
         size3 = width - int (length sg) - int (length pf) - prec1;
         (blanks, size4) = (if \<not> has type' (ZEROPAD + LEFT) then pad_while 0 size3 CHR '' '' else ([], size3));
         (fill, size5) = (if \<not> has type' LEFT then pad_while 0 size4 (if has type' ZEROPAD then CHR ''0'' else CHR '' '') else ([], size4));
         (zeros, _) = pad_while i prec1 CHR ''0'';
         (trail, _) = pad_while 0 size5 CHR '' ''
     in Some (blanks @ sg @ pf @ fill @ zeros @ ds @ trail))"
    using assms
    unfolding number_def Let_def type'_def [symmetric] flags number_sign number_prefix
      number_prefix_size prod.case n_def [symmetric] tmp same sg_def [symmetric] pf_def [symmetric]
    by simp
  also have "\<dots> = Some (layout num base width prec type)"
    by (auto simp: Let_def pad_while_eq flags has_zeropad_or_left layout_def ds_def [symmetric]
        sg_def [symmetric] pf_def [symmetric] split: if_splits)
  finally show ?thesis .
qed

section \<open>Reading a number back\<close>

lemma digit_chars_table:
  "list_all (\<lambda>d. isxdigit (''0123456789ABCDEFGHIJKLMNOPQRSTUVWXYZ'' ! d) \<and>
     digit_value (''0123456789ABCDEFGHIJKLMNOPQRSTUVWXYZ'' ! d) = d) [0..<16]"
  "list_all (\<lambda>d. isxdigit (''0123456789abcdefghijklmnopqrstuvwxyz'' ! d) \<and>
     digit_value (''0123456789abcdefghijklmnopqrstuvwxyz'' ! d) = d) [0..<16]"
  by code_simp+

lemma number_digit:
  assumes "d < 16"
  shows "isxdigit (number_digits type ! d)" "digit_value (number_digits type ! d) = d"
  using assms digit_chars_table by (auto simp: number_digits_def list_all_iff)

lemma not_xdigit: "\<not> isxdigit CHR '' ''" "\<not> isxdigit CHR ''-''"
  by code_simp+

lemma zero_digit: "isxdigit CHR ''0''" "digit_value CHR ''0'' = 0"
  by code_simp+

lemma strtoul_digits:
  assumes "\<forall>d\<in>set ds. d < b" "b \<le> 16"
  shows "strtoul_loop b r (map ((!) (number_digits type)) ds @ rest) =
    strtoul_loop b (foldl (\<lambda>r d. r * of_nat b + of_nat d) r ds) rest"
  using assms(1)
proof (induction ds arbitrary: r)
  case (Cons d ds)
  then have "d < 16" using assms(2) by simp
  then show ?case using Cons by (simp add: number_digit)
qed simp

lemma strtoul_zeros:
  "0 < b \<Longrightarrow> strtoul_loop b 0 (replicate k CHR ''0'' @ rest) = strtoul_loop b 0 rest"
  by (induction k) (simp_all add: zero_digit)

lemma of_nat_digits:
  "(of_nat (foldr (\<lambda>d r. r * b + d) ds 0) :: ulong) =
    foldl (\<lambda>r d. r * of_nat b + of_nat d) 0 (rev ds)"
  by (induction ds) simp_all

lemma strtoul_layout_digits:
  assumes "2 \<le> base" "base \<le> 16"
  shows "strtoul_loop (nat base) 0 (layout_digits base type n @ rest) =
    strtoul_loop (nat base) (of_nat n) rest"
proof (cases "n = 0")
  case True
  then show ?thesis using assms by (simp add: layout_digits_def zero_digit)
next
  case False
  have "\<forall>d\<in>set (rev (digits_of (nat base) n)). d < nat base"
    by (auto dest: digits_of_less)
  then have "strtoul_loop (nat base) 0 (layout_digits base type n @ rest) =
      strtoul_loop (nat base)
        (of_nat (foldr (\<lambda>d r. r * nat base + d) (digits_of (nat base) n) 0)) rest"
    using False assms by (simp add: layout_digits_def strtoul_digits of_nat_digits)
  then show ?thesis using assms by (simp add: digits_of_value)
qed

lemma strtoul_blanks: "strtoul_loop b r (replicate k CHR '' '') = (r, replicate k CHR '' '')"
  by (cases k) (simp_all add: not_xdigit)

lemma layout_digits_front:
  assumes "2 \<le> base" "base \<le> 16"
  obtains c s where "layout_digits base type n = c # s" "isxdigit c"
proof (cases "n = 0")
  case True
  then show ?thesis using that by (simp add: layout_digits_def zero_digit)
next
  case False
  let ?ds = "rev (digits_of (nat base) n)"
  have "?ds \<noteq> []" using False assms by (simp add: digits_of_nonempty)
  then obtain d ds where ds: "?ds = d # ds" by (cases ?ds) auto
  then have "d \<in> set (digits_of (nat base) n)" by (metis list.set_intros(1) set_rev)
  then have "d < 16" using assms digits_of_less [of d "nat base" n] by linarith
  then show ?thesis using that ds False by (simp add: layout_digits_def number_digit)
qed

lemma layout_unsigned:
  assumes "\<not> has type SIGN" "\<not> has type SPECIAL"
  shows "layout num base width prec type =
    (let ds = layout_digits base type (unat num);
         body = replicate (nat (prec - int (length ds))) CHR ''0'' @ ds;
         gap = nat (width - int (length body))
     in if has type LEFT then body @ replicate gap CHR '' ''
        else if has type ZEROPAD then replicate gap CHR ''0'' @ body
        else replicate gap CHR '' '' @ body)"
  using assms by (simp add: layout_def layout_sign_def layout_prefix_def layout_magnitude_def Let_def)

lemma layout_unsigned_form:
  assumes "2 \<le> base" "base \<le> 16" "\<not> has type SIGN" "\<not> has type SPECIAL"
    "has type ZEROPAD \<or> has type LEFT \<or> width \<le> 1"
  shows "\<exists>z k. layout num base width prec type =
    replicate z CHR ''0'' @ layout_digits base type (unat num) @ replicate k CHR '' ''"
proof -
  let ?ds = "layout_digits base type (unat num)"
  obtain c s where "?ds = c # s" by (rule layout_digits_front [OF assms(1,2), of type "unat num"])
  then have len: "1 \<le> int (length ?ds)" by simp
  let ?z = "nat (prec - int (length ?ds))"
  let ?gap = "nat (width - int (length (replicate ?z CHR ''0'' @ ?ds)))"
  have lay: "layout num base width prec type =
      (if has type LEFT then replicate ?z CHR ''0'' @ ?ds @ replicate ?gap CHR '' ''
       else if has type ZEROPAD then replicate (?gap + ?z) CHR ''0'' @ ?ds
       else replicate ?gap CHR '' '' @ replicate ?z CHR ''0'' @ ?ds)"
    unfolding layout_unsigned [OF assms(3,4)] Let_def by (simp add: replicate_add)
  consider "has type LEFT" | "\<not> has type LEFT" "has type ZEROPAD"
    | "\<not> has type LEFT" "\<not> has type ZEROPAD" by blast
  then show ?thesis
  proof cases
    case 1
    then show ?thesis unfolding lay if_P [OF 1] by blast
  next
    case 2
    then have "layout num base width prec type =
        replicate (?gap + ?z) CHR ''0'' @ ?ds @ replicate 0 CHR '' ''"
      unfolding lay by simp
    then show ?thesis by blast
  next
    case 3
    then have "?gap = 0" using assms(5) len by simp
    then have "layout num base width prec type =
        replicate ?z CHR ''0'' @ ?ds @ replicate 0 CHR '' ''"
      unfolding lay using 3 by simp
    then show ?thesis by blast
  qed
qed

lemma ucast_unat_64: "(of_nat (unat (num :: 64 word)) :: ulong) = ucast num"
  by (simp add: word_of_nat_eq_iff unsigned_ucast_eq)

lemma vsprintf_d:
  "vsprintf ''%d'' [Va_int v] =
     (let s = layout (scast v) 10 (-1) (-1) SIGN in Some (s, int (length s), []))"
  by (simp add: vsprintf_def format_spec_def field_width_def precision_def qualifier_def
      format_conv_def format_int_def format_value_def number_eq is_digit_def Let_def SIGN_def)

lemma sint_scast_64: "sint (scast (v :: ulong) :: 64 word) = sint v"
proof -
  have "- (2 ^ 31) \<le> sint v" "sint v < 2 ^ 31"
    using sint_greater_eq [of v] sint_less [of v] by simp_all
  then have "- (2 ^ 63) \<le> sint v" "sint v < 2 ^ 63" by simp_all
  then show ?thesis by (simp add: signed_scast_eq signed_take_bit_int_eq_self)
qed

section \<open>Properties\<close>

text \<open>
  \<open>do_div\<close> is exact: for every 64-bit dividend and every divisor other than zero the two
  32-bit divisions it is made of do not trap, leave the quotient in the variable and return
  the remainder.
\<close>

theorem do_div_exact:
  "base \<noteq> 0 \<Longrightarrow> do_div n base = Some (n div ucast base, ucast (n mod ucast base))"
  by (rule do_div_eq)

theorem do_div_exact_witness:
  "(7 :: ulong) \<noteq> 0 \<and> do_div 0x500000003 7 = Some (0x500000003 div ucast (7 :: ulong), ucast (0x500000003 mod ucast (7 :: ulong) :: 64 word))"
  using do_div_exact [of 7 "0x500000003"] by simp

text \<open>
  C16: \<open>number\<close> produces the documented layout. In every radix from 2 to 36 it never overruns
  its array of digits and writes the sign, the radix prefix and the digits, with zeros up to
  the precision, in a field of the given width that is padded on the side the flags select.
\<close>

theorem number_layout:
  "2 \<le> base \<Longrightarrow> base \<le> 36 \<Longrightarrow>
     number num base width prec type = Some (layout num base width prec type)"
  by (rule number_eq)

theorem number_layout_witness:
  "number 255 16 8 (-1) (SPECIAL OR ZEROPAD) = Some ''0x0000ff''"
proof -
  have "layout 255 16 8 (-1) (SPECIAL OR ZEROPAD) = ''0x0000ff''" by code_simp
  then show ?thesis using number_layout [of 16 255 8 "-1" "SPECIAL OR ZEROPAD"] by simp
qed

text \<open>
  The output of \<open>number\<close> fills the field and exceeds it only when the number itself is
  wider: it has at least the field width and at most the larger of the width and of three
  characters (sign and radix prefix) more than the precision or 64 digits.
\<close>

theorem number_bounded:
  assumes "2 \<le> base" "base \<le> 36"
  shows "\<exists>s. number num base width prec type = Some s \<and> width \<le> int (length s) \<and>
    int (length s) \<le> max width (3 + max prec 64)"
proof -
  have n: "layout_magnitude num type < 2 ^ 64"
    using unsigned_less [of num, where 'a = nat] sint_64_range [of num]
    by (auto simp: layout_magnitude_def nat_less_iff)
  have "length (layout_digits base type (layout_magnitude num type)) \<le> 64"
    using digits_of_length [OF n] by (simp add: layout_digits_def)
  moreover have "length (layout_sign num type) \<le> 1" by (simp add: layout_sign_def)
  moreover have "length (layout_prefix base type) \<le> 2" by (simp add: layout_prefix_def)
  ultimately show ?thesis
    using assms by (auto simp: number_eq layout_def Let_def)
qed

theorem number_bounded_witness:
  "\<exists>s. number 255 16 8 2 0 = Some s \<and> 8 \<le> int (length s) \<and> int (length s) \<le> max 8 (3 + max 2 64)"
  using number_bounded [of 16 255 8 2 0] by simp

text \<open>
  Reading back what was printed: in every radix up to 16, for both letter cases and every
  precision, \<open>simple_strtoul\<close> on the output of \<open>number\<close> for an unsigned number without radix
  prefix that does not start with blanks gives the number, modulo the 32 bits of the result.
\<close>

theorem number_read_back:
  assumes "2 \<le> base" "base \<le> 16" "\<not> has type SIGN" "\<not> has type SPECIAL"
    "has type ZEROPAD \<or> has type LEFT \<or> width \<le> 1"
  shows "\<exists>s. number num base width prec type = Some s \<and>
    fst (simple_strtoul s (nat base)) = ucast num"
proof -
  obtain z k where "layout num base width prec type =
      replicate z CHR ''0'' @ layout_digits base type (unat num) @ replicate k CHR '' ''"
    using layout_unsigned_form [OF assms] by blast
  then show ?thesis
    using assms(1,2)
    by (auto simp: number_eq simple_strtoul_def strtoul_zeros strtoul_layout_digits
        strtoul_blanks ucast_unat_64)
qed

theorem number_read_back_witness:
  "\<exists>s. number 0xbeef 16 8 (-1) ZEROPAD = Some s \<and> fst (simple_strtoul s (nat 16)) = ucast (0xbeef :: 64 word)"
  using number_read_back [of 16 ZEROPAD 8 "0xbeef" "-1"] by (simp add: format_flags)

text \<open>
  C30: \<open>sprintf\<close> and \<open>simple_strtol\<close> are inverse on \<open>int\<close>: for every 32-bit value the text
  \<open>vsprintf\<close> writes for \<open>%d\<close> is read back in full as that value, the smallest integer included.
\<close>

theorem vsprintf_decimal_roundtrip:
  "\<exists>s. vsprintf ''%d'' [Va_int v] = Some (s, int (length s), []) \<and> simple_strtol s 10 = (v, [])"
proof -
  define n where "n = nat \<bar>sint v\<bar>"
  have n: "(of_nat n :: ulong) = (if sint v < 0 then - v else v)"
    by (simp add: n_def)
  have lay: "layout (scast v) 10 (-1) (-1) SIGN =
      (if sint v < 0 then ''-'' else []) @ layout_digits 10 SIGN n"
    by (simp add: layout_def layout_sign_def layout_prefix_def layout_magnitude_def Let_def
        sint_scast_64 n_def format_flags)
  obtain c s where ds: "layout_digits 10 SIGN n = c # s" "isxdigit c"
    by (rule layout_digits_front [of 10 SIGN n]) auto
  have c: "c \<noteq> CHR ''-''" using ds(2) not_xdigit by auto
  have "strtoul_loop 10 0 (c # s) = (of_nat n, [])"
    using strtoul_layout_digits [of 10 SIGN n "[]"] ds(1) by simp
  then have "simple_strtol ((if sint v < 0 then ''-'' else []) @ c # s) 10 = (v, [])"
    using c n by (auto simp: simple_strtol_def simple_strtoul_def simp del: strtoul_loop.simps)
  then show ?thesis unfolding vsprintf_d lay ds Let_def by blast
qed

end
