(* ===== verification/Ipc_Sem_Calls.thy ===== *)
theory Ipc_Sem_Calls
  imports Ipc_Sem Format
begin

text \<open>
  The system calls \<open>semctl\<close> and \<open>semop\<close>, process exit and the \<open>/proc/sysvipc/sem\<close> file of
  \<open>ipc/sem.c\<close>. \<open>semop\<close> is cut where the process sleeps: \<open>semop_start\<close> runs up to the first
  \<open>schedule\<close>, \<open>semop_wake\<close> from a wake-up to the return or the next \<open>schedule\<close>.
\<close>

section \<open>Control operations\<close>

datatype sem_cmd =
    IPC_RMID | IPC_SET | IPC_STAT | IPC_INFO
  | GETPID | GETVAL | GETALL | GETNCNT | GETZCNT | SETVAL | SETALL | SEM_STAT | SEM_INFO
  | Other_cmd int

record seminfo =
  semmap :: int
  semmni :: int
  semmns :: int
  semmnu :: int
  semmsl :: int
  semopm :: int
  semume :: int
  semusz :: int
  semvmx :: int
  semaem :: int

text \<open>
  The argument: its integer value, the contents of the user's array and of the permissions in
  the user's buffer, when they can be read, and whether the user's buffer can be written.
\<close>

record semun =
  arg_val :: int
  arg_array :: "(nat \<Rightarrow> 16 word) option"
  arg_buf :: "ipc_perm option"
  arg_writable :: bool

text \<open>What a call copies to the user's buffer.\<close>

datatype sem_out =
    Out_none
  | Out_info seminfo
  | Out_ds ipc_perm int int "16 word"
  | Out_array "16 word list"

type_synonym sem_reply = "(sem_state \<times> (errno + int) \<times> sem_out) outcome"

definition copy_out :: "semun \<Rightarrow> sem_state \<Rightarrow> int \<Rightarrow> sem_out \<Rightarrow> sem_reply" where
  "copy_out arg s r out =
     (if arg_writable arg then Done (s, Inr r, out) else Done (s, Inl EFAULT, Out_none))"

definition stat_of :: "semid_ds \<Rightarrow> sem_out" where
  "stat_of d = Out_ds (sem_perm d) (sem_otime d) (sem_ctime d) (sem_nsems d)"

definition sem_info :: "sem_state \<Rightarrow> sem_cmd \<Rightarrow> seminfo" where
  "sem_info s cmd =
     \<lparr>semmap = SEMMNS, semmni = sc_semmni (sem_ctls s), semmns = sc_semmns (sem_ctls s),
      semmnu = SEMMNS, semmsl = sc_semmsl (sem_ctls s), semopm = int (sc_semopm (sem_ctls s)),
      semume = int SEMOPM,
      semusz = (if cmd = SEM_INFO then in_use (sem_ids s) else 20),
      semvmx = SEMVMX,
      semaem = (if cmd = SEM_INFO then used_sems s else drop_bit 1 SEMVMX)\<rparr>"

definition semctl_nolock :: "sem_state \<Rightarrow> nat \<Rightarrow> int \<Rightarrow> sem_cmd \<Rightarrow> semun \<Rightarrow> sem_reply" where
  "semctl_nolock s t semid cmd arg =
     (if cmd = IPC_INFO \<or> cmd = SEM_INFO then
        (let m = max_id (sem_ids s)
         in copy_out arg s (if m < 0 then 0 else m) (Out_info (sem_info s cmd)))
      else if cmd = SEM_STAT then
        (if semid > ids_size (sem_ids s) then Done (s, Inl EINVAL, Out_none)
         else
           bind_outcome (sem_lock s semid) (\<lambda>(s, sma).
             case sma of
               None \<Rightarrow> Done (s, Inl EINVAL, Out_none)
             | Some sma \<Rightarrow>
                 if sem_perms_denied s t sma S_IRUGO then Done (sem_unlock s, Inl EACCES, Out_none)
                 else
                   let d = sets s sma
                   in copy_out arg (sem_unlock s) (ipc_buildid semid (seq (sem_perm d))) (stat_of d)))
      else Done (s, Inl EINVAL, Out_none))"

definition getall :: "sem_state \<Rightarrow> addr \<Rightarrow> semun \<Rightarrow> sem_reply" where
  "getall s sma arg =
     copy_out arg (sem_unlock s) 0 (Out_array (map (\<lambda>x. of_int (semval x)) (sem_base (sets s sma))))"

definition clear_adj :: "nat list \<Rightarrow> addr \<Rightarrow> sem_state \<Rightarrow> sem_state" where
  "clear_adj is u s = undo_at u (\<lambda>x. x\<lparr>semadj := fold (\<lambda>i a. a[i := 0]) is (semadj x)\<rparr>) s"

definition setall ::
  "sem_state \<Rightarrow> nat \<Rightarrow> int \<Rightarrow> addr \<Rightarrow> 16 word \<Rightarrow> 16 word list \<Rightarrow> sem_reply" where
  "setall s t semid sma nsems sem_io =
     bind_outcome (sem_revalidate s t semid sma nsems S_IWUGO) (\<lambda>(s, err).
       case err of
         Some e \<Rightarrow> Done (s, Inl e, Out_none)
       | None \<Rightarrow>
           let s = set_at sma (\<lambda>d. d\<lparr>sem_base :=
                 map2 (\<lambda>x v. x\<lparr>semval := uint v\<rparr>) (sem_base d) sem_io\<rparr>) s;
               s = fold (clear_adj [0..<unat nsems]) (sma_undo (sets s sma)) s;
               s = set_at sma (\<lambda>d. d\<lparr>sem_ctime := now s\<rparr>) s
           in bind_outcome (update_queue sma s) (\<lambda>s. Done (sem_unlock s, Inr 0, Out_none)))"

definition setval :: "sem_state \<Rightarrow> addr \<Rightarrow> nat \<Rightarrow> int \<Rightarrow> sem_reply" where
  "setval s sma semnum val =
     (if val > SEMVMX \<or> val < 0 then Done (sem_unlock s, Inl ERANGE, Out_none)
      else
        let s = fold (clear_adj [semnum]) (sma_undo (sets s sma)) s;
            s = set_at sma (\<lambda>d. d\<lparr>sem_base :=
                  (sem_base d)[semnum := (sem_base d ! semnum)\<lparr>semval := val\<rparr>]\<rparr>) s;
            s = set_at sma (\<lambda>d. d\<lparr>sem_ctime := now s\<rparr>) s
        in bind_outcome (update_queue sma s) (\<lambda>s. Done (sem_unlock s, Inr 0, Out_none)))"

text \<open>
  \<open>mem_ok\<close> tells whether a large buffer can be allocated, \<open>env\<close> what happens while the lock is
  released for the allocation and the copy from user memory.
\<close>

definition semctl_main ::
  "(sem_state \<Rightarrow> sem_state) \<Rightarrow> bool \<Rightarrow> sem_state \<Rightarrow> nat \<Rightarrow> int \<Rightarrow> int \<Rightarrow> sem_cmd \<Rightarrow> semun \<Rightarrow> sem_reply" where
  "semctl_main env mem_ok s t semid semnum cmd arg =
     bind_outcome (sem_lock s semid) (\<lambda>(s, sma).
       case sma of
         None \<Rightarrow> Done (s, Inl EINVAL, Out_none)
       | Some sma \<Rightarrow>
           let nsems = sem_nsems (sets s sma)
           in if sem_checkid s sma semid then Done (sem_unlock s, Inl EIDRM, Out_none)
              else if sem_perms_denied s t sma (if cmd = SETVAL \<or> cmd = SETALL then S_IWUGO else S_IRUGO)
              then Done (sem_unlock s, Inl EACCES, Out_none)
              else if cmd = GETALL then
                (if unat nsems > SEMMSL_FAST then
                   let s = env (sem_unlock s)
                   in if \<not> mem_ok then Done (s, Inl ENOMEM, Out_none)
                      else
                        bind_outcome (sem_revalidate s t semid sma nsems S_IRUGO) (\<lambda>(s, err).
                          case err of
                            Some e \<Rightarrow> Done (s, Inl e, Out_none)
                          | None \<Rightarrow> getall s sma arg)
                 else getall s sma arg)
              else if cmd = SETALL then
                (let s = env (sem_unlock s)
                 in if unat nsems > SEMMSL_FAST \<and> \<not> mem_ok then Done (s, Inl ENOMEM, Out_none)
                    else
                      case arg_array arg of
                        None \<Rightarrow> Done (s, Inl EFAULT, Out_none)
                      | Some f \<Rightarrow>
                          let sem_io = map f [0..<unat nsems]
                          in if \<exists>v\<in>set sem_io. uint v > SEMVMX then Done (s, Inl ERANGE, Out_none)
                             else setall s t semid sma nsems sem_io)
              else if cmd = IPC_STAT then copy_out arg (sem_unlock s) 0 (stat_of (sets s sma))
              else if semnum < 0 \<or> semnum \<ge> uint nsems then Done (sem_unlock s, Inl EINVAL, Out_none)
              else
                let curr = sem_base (sets s sma) ! nat semnum
                in if cmd = GETVAL then Done (sem_unlock s, Inr (semval curr), Out_none)
                   else if cmd = GETPID
                   then Done (sem_unlock s, Inr (uint (sempid curr AND 0xffff)), Out_none)
                   else if cmd = GETNCNT
                   then Done (sem_unlock s, Inr (int (count_semncnt s sma (of_int semnum))), Out_none)
                   else if cmd = GETZCNT
                   then Done (sem_unlock s, Inr (int (count_semzcnt s sma (of_int semnum))), Out_none)
                   else if cmd = SETVAL then setval s sma (nat semnum) (arg_val arg)
                   else Done (sem_unlock s, Inl EINVAL, Out_none))"

definition semctl_down :: "sem_state \<Rightarrow> nat \<Rightarrow> int \<Rightarrow> sem_cmd \<Rightarrow> semun \<Rightarrow> sem_reply" where
  "semctl_down s t semid cmd arg =
     (if cmd = IPC_SET \<and> arg_buf arg = None then Done (s, Inl EFAULT, Out_none)
      else
        bind_outcome (sem_lock s semid) (\<lambda>(s, sma).
          case sma of
            None \<Rightarrow> Done (s, Inl EINVAL, Out_none)
          | Some sma \<Rightarrow>
              let ipcp = sem_perm (sets s sma)
              in if sem_checkid s sma semid then Done (sem_unlock s, Inl EIDRM, Out_none)
                 else if euid (tasks s t) \<noteq> cuid ipcp \<and> euid (tasks s t) \<noteq> uid ipcp \<and>
                   \<not> capable (cap_bset s) (cred_of s t) CAP_SYS_ADMIN
                 then Done (sem_unlock s, Inl EPERM, Out_none)
                 else if cmd = IPC_RMID then
                   bind_outcome (freeary semid s) (\<lambda>s. Done (s, Inr 0, Out_none))
                 else if cmd = IPC_SET then
                   (let tbuf = the (arg_buf arg);
                        ipcp = ipcp\<lparr>uid := uid tbuf, gid := gid tbuf,
                          mode := (mode ipcp AND NOT S_IRWXUGO) OR (mode tbuf AND S_IRWXUGO)\<rparr>;
                        s = set_at sma (\<lambda>d. d\<lparr>sem_perm := ipcp, sem_ctime := now s\<rparr>) s
                    in Done (sem_unlock s, Inr 0, Out_none))
                 else Done (sem_unlock s, Inl EINVAL, Out_none)))"

definition sys_semctl ::
  "(sem_state \<Rightarrow> sem_state) \<Rightarrow> bool \<Rightarrow> sem_state \<Rightarrow> nat \<Rightarrow> int \<Rightarrow> int \<Rightarrow> sem_cmd \<Rightarrow> semun \<Rightarrow> sem_reply" where
  "sys_semctl env mem_ok s t semid semnum cmd arg =
     (if semid < 0 then Done (s, Inl EINVAL, Out_none)
      else if cmd \<in> {IPC_INFO, SEM_INFO, SEM_STAT} then semctl_nolock s t semid cmd arg
      else if cmd \<in> {GETALL, GETVAL, GETPID, GETNCNT, GETZCNT, IPC_STAT, SETVAL, SETALL}
      then semctl_main env mem_ok s t semid semnum cmd arg
      else if cmd \<in> {IPC_RMID, IPC_SET} then semctl_down s t semid cmd arg
      else Done (s, Inl EINVAL, Out_none))"

section \<open>Undo structures\<close>

definition freeundos :: "nat \<Rightarrow> addr \<Rightarrow> sem_state \<Rightarrow> sem_state" where
  "freeundos t un s = task_at t (\<lambda>k. k\<lparr>semundo := remove1 un (semundo k)\<rparr>) s"

text \<open>The search for the undo structure of the set, over the list at the start of the loop.\<close>

fun find_undo :: "nat \<Rightarrow> int \<Rightarrow> addr list \<Rightarrow> sem_state \<Rightarrow> sem_state \<times> addr option" where
  "find_undo t semid [] s = (s, None)"
| "find_undo t semid (un # uns) s =
     (if un_semid (undos s un) = semid then (s, Some un)
      else if un_semid (undos s un) = -1 then find_undo t semid uns (freeundos t un s)
      else find_undo t semid uns s)"

definition alloc_undo ::
  "(sem_state \<Rightarrow> sem_state) \<Rightarrow> sem_state \<Rightarrow> nat \<Rightarrow> addr \<Rightarrow> int \<Rightarrow> bool \<Rightarrow> addr option \<Rightarrow>
   (sem_state \<times> (errno + addr)) outcome" where
  "alloc_undo env s t sma semid alter p =
     (let nsems = sem_nsems (sets s sma);
          s = env (sem_unlock s)
      in case p of
           None \<Rightarrow> Done (s, Inl ENOMEM)
         | Some un \<Rightarrow>
             bind_outcome
               (sem_revalidate s t semid sma nsems (if alter then S_IWUGO else S_IRUGO)) (\<lambda>(s, err).
                 case err of
                   Some e \<Rightarrow> Done (s, Inl e)
                 | None \<Rightarrow>
                     let s = undo_at un (\<lambda>_. \<lparr>un_semid = semid, semadj = replicate (unat nsems) 0\<rparr>) s;
                         s = task_at t (\<lambda>k. k\<lparr>semundo := un # semundo k\<rparr>) s;
                         s = set_at sma (\<lambda>d. d\<lparr>sma_undo := un # sma_undo d\<rparr>) s
                     in Done (s, Inr un)))"

section \<open>Semaphore operations\<close>

datatype semop_reply = Returns "errno + int" | Sleeps

definition semop_code :: "semres \<Rightarrow> errno + int" where
  "semop_code r = (case r of Sem_ok \<Rightarrow> Inr 0 | Sem_block \<Rightarrow> Inr 1 | Sem_err e \<Rightarrow> Inl e)"

definition decreases :: "sembuf list \<Rightarrow> bool" where
  "decreases sops = list_ex (\<lambda>sop. sint (sem_op sop) < 0) sops"

definition alters :: "sembuf list \<Rightarrow> bool" where
  "alters sops = (list_ex (\<lambda>sop. sint (sem_op sop) > 0) sops \<or> decreases sops)"

definition semop_finish ::
  "sem_state \<Rightarrow> addr \<Rightarrow> bool \<Rightarrow> semres \<Rightarrow> (sem_state \<times> semop_reply) outcome" where
  "semop_finish s sma alter err =
     (if alter
      then bind_outcome (update_queue sma s) (\<lambda>s. Done (sem_unlock s, Returns (semop_code err)))
      else Done (sem_unlock s, Returns (semop_code err)))"

definition semop_sleep ::
  "sem_state \<Rightarrow> nat \<Rightarrow> (sem_state \<times> semop_reply) outcome" where
  "semop_sleep s t =
     Done (sem_unlock (queue_at t (\<lambda>q. q\<lparr>q_status := Sem_err EINTR\<rparr>) s), Sleeps)"

text \<open>From the undo structure on: the lock is held and \<open>un\<close> is the undo structure, if any.\<close>

definition semop_try ::
  "sem_state \<Rightarrow> nat \<Rightarrow> addr \<Rightarrow> int \<Rightarrow> sembuf list \<Rightarrow> addr option \<Rightarrow> (sem_state \<times> semop_reply) outcome" where
  "semop_try s t sma semid sops un =
     bind_outcome (semop_on sma sops un (pid (tasks s t)) False s) (\<lambda>(s, err).
       if err \<noteq> Sem_block then semop_finish s sma (alters sops) err
       else
         let s = queue_at t (\<lambda>q. q\<lparr>q_sma := sma, q_sops := sops, q_undo := un,
                   q_pid := pid (tasks s t), q_alter := decreases sops, q_id := semid\<rparr>) s;
             s = (if alters sops then append_to_queue sma t s else prepend_to_queue sma t s);
             s = task_at t (\<lambda>k. k\<lparr>semsleeping := True\<rparr>) s
         in semop_sleep s t)"

text \<open>
  \<open>tsops\<close> is the user's array, when it can be read, \<open>mem_ok\<close> and \<open>p\<close> the results of the two
  allocations.
\<close>

definition semop_start ::
  "(sem_state \<Rightarrow> sem_state) \<Rightarrow> bool \<Rightarrow> addr option \<Rightarrow> sem_state \<Rightarrow> nat \<Rightarrow> int \<Rightarrow>
   (nat \<Rightarrow> sembuf) option \<Rightarrow> nat \<Rightarrow> (sem_state \<times> semop_reply) outcome" where
  "semop_start env mem_ok p s t semid tsops nsops =
     (if nsops < 1 \<or> semid < 0 then Done (s, Returns (Inl EINVAL))
      else if nsops > sc_semopm (sem_ctls s) then Done (s, Returns (Inl E2BIG))
      else if nsops > SEMOPM_FAST \<and> \<not> mem_ok then Done (s, Returns (Inl ENOMEM))
      else case tsops of
        None \<Rightarrow> Done (s, Returns (Inl EFAULT))
      | Some f \<Rightarrow>
          let sops = map f [0..<nsops]
          in bind_outcome (sem_lock s semid) (\<lambda>(s, sma).
               case sma of
                 None \<Rightarrow> Done (s, Returns (Inl EINVAL))
               | Some sma \<Rightarrow>
                   if sem_checkid s sma semid then Done (sem_unlock s, Returns (Inl EIDRM))
                   else if list_ex (\<lambda>sop. sem_num sop \<ge> sem_nsems (sets s sma)) sops
                   then Done (sem_unlock s, Returns (Inl EFBIG))
                   else if sem_perms_denied s t sma (if alters sops then S_IWUGO else S_IRUGO)
                   then Done (sem_unlock s, Returns (Inl EACCES))
                   else if list_ex (\<lambda>sop. sem_flg sop AND SEM_UNDO \<noteq> 0) sops then
                     (let (s, un) = find_undo t semid (semundo (tasks s t)) s
                      in case un of
                           Some un \<Rightarrow> semop_try s t sma semid sops (Some un)
                         | None \<Rightarrow>
                             bind_outcome (alloc_undo env s t sma semid (alters sops) p) (\<lambda>(s, r).
                               case r of
                                 Inl e \<Rightarrow> Done (s, Returns (Inl e))
                               | Inr un \<Rightarrow> semop_try s t sma semid sops (Some un)))
                   else semop_try s t sma semid sops None))"

definition semop_wake :: "sem_state \<Rightarrow> nat \<Rightarrow> (sem_state \<times> semop_reply) outcome" where
  "semop_wake s t =
     (let q = queues s t;
          awake = task_at t (\<lambda>k. k\<lparr>semsleeping := False\<rparr>)
      in bind_outcome (sem_lock s (q_id q)) (\<lambda>(s, tmp).
           case tmp of
             None \<Rightarrow>
               if q_status q \<noteq> Sem_err EIDRM then Bug
               else Done (awake s, Returns (Inl EIDRM))
           | Some _ \<Rightarrow>
               if q_status q = Sem_block then
                 bind_outcome (semop_on (q_sma q) (q_sops q) (q_undo q) (pid (tasks s t)) False s)
                   (\<lambda>(s, err).
                      if err = Sem_block then semop_sleep s t
                      else semop_finish (remove_from_queue (q_sma q) t (awake s)) (q_sma q)
                             (alters (q_sops q)) err)
               else if q_prev q then
                 semop_finish (remove_from_queue (q_sma q) t (awake s)) (q_sma q)
                   (alters (q_sops q)) (q_status q)
               else Done (sem_unlock (awake s), Returns (semop_code (q_status q)))))"

section \<open>Process exit\<close>

definition apply_adj :: "ulong \<Rightarrow> 16 word list \<Rightarrow> sem list \<Rightarrow> sem list" where
  "apply_adj who adj sems =
     map2 (\<lambda>x a. x\<lparr>semval := max 0 (semval x + sint a), sempid := who\<rparr>) sems adj"

fun sem_exit_loop :: "nat \<Rightarrow> addr list \<Rightarrow> sem_state \<Rightarrow> sem_state outcome" where
  "sem_exit_loop t [] s = Done s"
| "sem_exit_loop t (u # us) s =
     (let semid = un_semid (undos s u);
          free = task_at t (\<lambda>k. k\<lparr>semundo := remove1 u (semundo k)\<rparr>)
      in if semid = -1 then sem_exit_loop t us (free s)
         else
           bind_outcome (sem_lock s semid) (\<lambda>(s, sma).
             case sma of
               None \<Rightarrow> sem_exit_loop t us (free s)
             | Some sma \<Rightarrow>
                 if un_semid (undos s u) = -1 then sem_exit_loop t us (free (sem_unlock s))
                 else if sem_checkid s sma (un_semid (undos s u))
                 then sem_exit_loop t us (free (sem_unlock s))
                 else if u \<notin> set (sma_undo (sets s sma)) then sem_exit_loop t us (free (sem_unlock s))
                 else
                   let s = set_at sma (\<lambda>d. d\<lparr>sma_undo := remove1 u (sma_undo d),
                         sem_base := apply_adj (pid (tasks s t)) (semadj (undos s u)) (sem_base d),
                         sem_otime := now s\<rparr>) s
                   in bind_outcome (update_queue sma s) (\<lambda>s. sem_exit_loop t us (free (sem_unlock s)))))"

definition sem_exit :: "nat \<Rightarrow> sem_state \<Rightarrow> sem_state outcome" where
  "sem_exit t s =
     (let q = queues s t;
          asleep =
            (if semsleeping (tasks s t) then
               bind_outcome (sem_lock s (q_id q)) (\<lambda>(s, sma).
                 let s = task_at t (\<lambda>k. k\<lparr>semsleeping := False\<rparr>) s
                 in if q_prev q \<and> sma = None then Bug
                    else
                      let s = (if q_prev q then remove_from_queue (q_sma q) t s else s)
                      in Done (if sma \<noteq> None then sem_unlock s else s))
             else Done s)
      in bind_outcome asleep (\<lambda>s.
         bind_outcome (sem_exit_loop t (semundo (tasks s t)) s) (\<lambda>s.
           Done (task_at t (\<lambda>k. k\<lparr>semundo := []\<rparr>) s))))"

section \<open>The file in /proc\<close>

definition proc_header :: string where
  "proc_header =
     ''       key      semid perms nsems   uid   gid  cuid  cgid      otime      ctime'' @ [CHR 0x0A]"

definition proc_format :: string where
  "proc_format = ''%10d %10d  %4o %5u %5u %5u %5u %5u %10lu %10lu'' @ [CHR 0x0A]"

definition proc_line :: "int \<Rightarrow> semid_ds \<Rightarrow> string option" where
  "proc_line i d =
     (let p = sem_perm d
      in map_option fst (sprintf proc_format
           [Va_int (of_int (key p)), Va_int (of_int (ipc_buildid i (seq p))), Va_int (ucast (mode p)),
            Va_int (ucast (sem_nsems d)), Va_int (ucast (uid p)), Va_int (ucast (gid p)),
            Va_int (ucast (cuid p)), Va_int (ucast (cgid p)),
            Va_int (of_int (sem_otime d)), Va_int (of_int (sem_ctime d))]))"

text \<open>
  The loop over the slots, which cannot change while \<open>sem_ids.sem\<close> is held. \<open>buf\<close> holds the
  characters from the start of the buffer to \<open>len\<close>; the last component of the result tells
  whether the loop reached the end. As in the source, the length of everything in the buffer
  is added to \<open>pos\<close> for every set.
\<close>

fun proc_loop ::
  "int \<Rightarrow> int \<Rightarrow> int list \<Rightarrow> string \<Rightarrow> int \<Rightarrow> int \<Rightarrow> sem_state \<Rightarrow>
   (sem_state \<times> string \<times> int \<times> bool) outcome" where
  "proc_loop offset n [] buf pos start s = Done (s, buf, start, True)"
| "proc_loop offset n (i # is) buf pos start s =
     bind_outcome (sem_lock s i) (\<lambda>(s, sma).
       case sma of
         None \<Rightarrow> proc_loop offset n is buf pos start s
       | Some sma \<Rightarrow>
           (case proc_line i (sets s sma) of
              None \<Rightarrow> Bug
            | Some line \<Rightarrow>
                let buf = buf @ line;
                    s = sem_unlock s;
                    pos = pos + int (length buf);
                    (buf, start) = (if pos < offset then ([], pos) else (buf, start))
                in if pos > offset + n then Done (s, buf, start, False)
                   else proc_loop offset n is buf pos start s))"

text \<open>The characters handed to the reader and the end-of-file flag.\<close>

definition sysvipc_sem_read_proc ::
  "int \<Rightarrow> int \<Rightarrow> sem_state \<Rightarrow> (sem_state \<times> string \<times> bool) outcome" where
  "sysvipc_sem_read_proc offset n s =
     bind_outcome (proc_loop offset n [0..max_id (sem_ids s)] proc_header 0 0 s) (\<lambda>(s, buf, start, eof).
       let len = int (length buf) - (offset - start);
           len = (if len > n then n else len);
           len = (if len < 0 then 0 else len)
       in Done (s, take (nat len) (drop (nat (offset - start)) buf), eof))"

end
