(* ===== verification/Ipc_Sem_Inv.thy ===== *)
theory Ipc_Sem_Inv
  imports Ipc_Sem_Calls
begin

text \<open>
  Looking up, creating, removing and controlling semaphore sets keeps the invariant of
  \<open>Ipc_Sem\<close> and returns with the spinlock released, whatever the other processes do while a
  call sleeps, as long as they keep the invariant too.
\<close>

section \<open>Locking a set\<close>

text \<open>
  An identifier can be looked up when its slot is not the one just past the end of the array,
  which \<open>ipc_lock\<close> would read.
\<close>

definition good_id :: "sem_state \<Rightarrow> int \<Rightarrow> bool" where
  "good_id s semid \<longleftrightarrow> 0 \<le> semid \<and> semid mod SEQ_MULTIPLIER \<noteq> ids_size (sem_ids s)"

lemma good_id_table: "good_id s semid = id_ok (sem_ids s) semid"
  by (simp add: good_id_def id_ok_def)

abbreviation locked :: "sem_state \<Rightarrow> sem_state" where
  "locked s \<equiv> s\<lparr>sem_ids := (sem_ids s)\<lparr>ary := True\<rparr>\<rparr>"

lemma sem_lock_cases:
  assumes "sem_inv s" "unlocked s" "good_id s semid"
  obtains (absent) "sem_lock s semid = Done (s, None)" "\<And>p. \<not> live s (slot_of semid) p"
  | (found) p where "sem_lock s semid = Done (locked s, Some p)" "live s (slot_of semid) p"
  by (rule sem_table.lock_cases [OF sem_inv_ids(1) [OF assms(1)] assms(2), of semid])
    (use assms(3) that in \<open>auto simp: good_id_table live_holds\<close>)

lemma locked_frame [simp]: "sem_frame s (locked s)"
  by (rule sem_frame_lock)

lemma locked_inv: "sem_inv s \<Longrightarrow> sem_inv (locked s)"
  using sem_frame_inv [OF locked_frame] .

lemma unlock_inv: "sem_inv s \<Longrightarrow> sem_inv (sem_unlock s)"
  using sem_frame_inv [OF sem_frame_unlock] .

lemma live_locked [simp]: "live (locked s) i p = live s i p"
  by (simp add: live_def)

lemma live_unlock [simp]: "live (sem_unlock s) i p = live s i p"
  by (simp add: sem_frame_live [OF sem_frame_unlock])

lemma checkid_set_id:
  assumes "sem_inv s" "live s (slot_of semid) p" "0 \<le> semid" "\<not> sem_checkid s p semid"
  shows "set_id s (slot_of semid) p = semid"
proof -
  have "semid div SEQ_MULTIPLIER = uint (seq (sem_perm (sets s p)))"
    using assms(4) by (simp add: sem_checkid_def ipc_checkid_def)
  moreover have "int (slot_of semid) = semid mod SEQ_MULTIPLIER"
    using assms(3) by (simp add: slot_of_def ipc_limits)
  ultimately show ?thesis by (metis set_id_def ipc_buildid_def mult_div_mod_eq)
qed

text \<open>What a call returns: a state that satisfies the invariant with the lock released.\<close>

definition sem_ok :: "sem_state \<Rightarrow> bool" where
  "sem_ok s \<longleftrightarrow> sem_inv s \<and> unlocked s"

lemma sem_okI: "sem_inv s \<Longrightarrow> sem_ok (sem_unlock s)"
  by (simp add: sem_ok_def unlock_inv)

lemma revalidate_cases:
  assumes "sem_ok s" "good_id s semid"
  obtains (failed) e s' where "sem_revalidate s t semid sma n access = Done (s', Some e)" "sem_ok s'"
  | (valid) "sem_revalidate s t semid sma n access = Done (locked s, None)"
      "live s (slot_of semid) sma" "\<not> sem_checkid s sma semid" "sem_nsems (sets s sma) = n"
proof -
  have inv: "sem_inv s" "unlocked s" using assms(1) by (simp_all add: sem_ok_def)
  show thesis
  proof (cases rule: sem_lock_cases [OF inv assms(2)])
    case 1
    then show thesis using assms(1) by (intro failed) (auto simp: sem_revalidate_def)
  next
    case (2 p)
    have u: "sem_ok (sem_unlock (locked s))" using inv by (intro sem_okI locked_inv)
    show thesis
    proof (cases "p = sma \<and> \<not> sem_checkid (locked s) sma semid \<and> sem_nsems (sets s sma) = n \<and>
        \<not> sem_perms_denied (locked s) t sma access")
      case True
      then show thesis using 2 by (intro valid) (auto simp: sem_revalidate_def sem_checkid_def)
    next
      case False
      then have "\<exists>e. sem_revalidate s t semid sma n access = Done (sem_unlock (locked s), Some e)"
        using 2(1) by (auto simp: sem_revalidate_def)
      then show thesis using failed u by blast
    qed
  qed
qed

section \<open>The invariant of a process\<close>

lemma task_wfI:
  assumes "distinct (semundo (tasks s t))"
    "\<And>u. u \<in> set (semundo (tasks s t)) \<Longrightarrow> un_semid (undos s u) \<noteq> -1 \<Longrightarrow>
       \<exists>i p. live s i p \<and> u \<in> set (sma_undo (sets s p))"
    "\<And>t' u. t' \<noteq> t \<Longrightarrow> u \<in> set (semundo (tasks s t)) \<Longrightarrow> u \<notin> set (semundo (tasks s t'))"
    "semsleeping (tasks s t) \<Longrightarrow> q_prev (queues s t) \<Longrightarrow>
       \<exists>i p. live s i p \<and> t \<in> set (sem_pending (sets s p))"
    "semsleeping (tasks s t) \<Longrightarrow> q_status (queues s t) = Sem_block \<Longrightarrow> q_prev (queues s t)"
    "semsleeping (tasks s t) \<Longrightarrow> 0 \<le> q_id (queues s t)"
  shows "task_wf s t"
  using assms unfolding task_wf_def by blast

lemma task_wfD:
  assumes "task_wf s t"
  shows "distinct (semundo (tasks s t))"
    "u \<in> set (semundo (tasks s t)) \<Longrightarrow> un_semid (undos s u) \<noteq> -1 \<Longrightarrow>
       \<exists>i p. live s i p \<and> u \<in> set (sma_undo (sets s p))"
    "t' \<noteq> t \<Longrightarrow> u \<in> set (semundo (tasks s t)) \<Longrightarrow> u \<notin> set (semundo (tasks s t'))"
    "semsleeping (tasks s t) \<Longrightarrow> q_prev (queues s t) \<Longrightarrow>
       \<exists>i p. live s i p \<and> t \<in> set (sem_pending (sets s p))"
    "semsleeping (tasks s t) \<Longrightarrow> q_status (queues s t) = Sem_block \<Longrightarrow> q_prev (queues s t)"
    "semsleeping (tasks s t) \<Longrightarrow> 0 \<le> q_id (queues s t)"
  using assms unfolding task_wf_def by blast+

section \<open>Creating a set\<close>

lemma grown_inv:
  assumes "sem_inv s" "ids_wf ids" "entries ids = entries (sem_ids s) @ replicate k None"
  shows "sem_inv (s\<lparr>sem_ids := ids\<rparr>)" (is "sem_inv ?s'")
proof -
  have lv: "live ?s' i p = live s i p" for i p
    using assms(3) by (auto simp: live_def nth_append)
  have tot: "total_sems ?s' = total_sems s"
    using assms(3) by (simp add: total_sems_def table_sum_append_None)
  have "set_wf ?s' p = set_wf s p" "queued_wf ?s' i p t = queued_wf s i p t"
    "undo_wf ?s' i p u = undo_wf s i p u" "task_wf ?s' t = task_wf s t" for i p t u
    by (simp_all add: set_wf_def queued_wf_def undo_wf_def task_wf_def lv set_id_def)
  then show ?thesis
    using sem_inv_ids [OF assms(1)] sem_inv_slot [OF assms(1)] sem_invD [OF assms(1)]
      sem_inv_task [OF assms(1)] assms(2)
    by (intro sem_invI) (auto simp: lv tot)
qed

definition unused :: "sem_state \<Rightarrow> addr \<Rightarrow> bool" where
  "unused s p \<longleftrightarrow> Some p \<notin> set (entries (sem_ids s))"

text \<open>A new set at an unused address, in a free slot.\<close>

lemma newset_inv:
  assumes "sem_inv s" "ids_wf ids" "unused s p"
    and slot: "i < length (entries (sem_ids s) @ replicate k None)"
      "(entries (sem_ids s) @ replicate k None) ! i = None"
      "entries ids = (entries (sem_ids s) @ replicate k None)[i := Some p]"
    and d: "sem_base d = replicate (unat (sem_nsems d)) \<lparr>semval = 0, sempid = 0\<rparr>"
      "sem_pending d = []" "sma_undo d = []"
  shows "sem_inv (s\<lparr>sem_ids := ids, used_sems := used_sems s + uint (sem_nsems d), sets := (sets s)(p := d)\<rparr>)"
    (is "sem_inv ?s'")
proof -
  let ?es = "entries (sem_ids s) @ replicate k None"
  have dead: "\<not> live s j p" for j using assms(3) by (auto simp: unused_def live_def in_set_conv_nth)
  have ext: "live s j q \<longleftrightarrow> j < length ?es \<and> ?es ! j = Some q" for j q
    by (auto simp: live_def nth_append)
  have lv: "live ?s' j q \<longleftrightarrow> j = i \<and> q = p \<or> live s j q" for j q
    using slot unfolding ext by (auto simp: live_def nth_list_update)
  have old: "live s j q \<Longrightarrow> sets ?s' q = sets s q" for j q using dead by auto
  have fu: "(\<lambda>q. uint (sem_nsems (((sets s)(p := d)) q))) =
      (\<lambda>q. uint (sem_nsems (sets s q)))(p := uint (sem_nsems d))" by auto
  have tot: "used_sems ?s' = total_sems ?s'"
    using table_sum_insert [OF slot(1,2), of p "\<lambda>q. uint (sem_nsems (sets s q))" "uint (sem_nsems d)"]
      sem_inv_ids(2) [OF assms(1)] assms(3) slot(3)
    by (simp add: total_sems_def unused_def fu table_sum_append_None del: fun_upd_apply)
  have new: "set_wf ?s' p" by (simp add: set_wf_def d all_vals_def)
  have sid: "live s j q \<Longrightarrow> set_id ?s' j q = set_id s j q" for j q using old by (simp add: set_id_def)
  have wf: "set_wf ?s' q" if "live s j q" for j q
    using sem_invD(1) [OF assms(1) that] old [OF that] by (simp add: set_wf_def)
  have qw: "queued_wf ?s' j q t" if "live s j q" "t \<in> set (sem_pending (sets s q))" for j q t
    using sem_invD(2) [OF assms(1) that] old [OF that(1)] sid [OF that(1)] by (simp add: queued_wf_def)
  have uw: "undo_wf ?s' j q u" if "live s j q" "u \<in> set (sma_undo (sets s q))" for j q u
    using sem_invD(3) [OF assms(1) that] old [OF that(1)] sid [OF that(1)] by (simp add: undo_wf_def)
  have tw: "task_wf ?s' t" for t
  proof -
    have ex: "(\<exists>j q. live s j q \<and> x \<in> A (sets s q)) \<Longrightarrow> (\<exists>j q. live ?s' j q \<and> x \<in> A (sets ?s' q))" for x :: nat and A
      using lv old by metis
    note w = task_wfD [OF sem_inv_task [OF assms(1), of t]]
    show ?thesis
    proof (rule task_wfI)
      show "\<exists>j q. live ?s' j q \<and> u \<in> set (sma_undo (sets ?s' q))"
        if "u \<in> set (semundo (tasks ?s' t))" "un_semid (undos ?s' u) \<noteq> -1" for u
        using that w(2) [of u] by (intro ex) simp
      show "\<exists>j q. live ?s' j q \<and> t \<in> set (sem_pending (sets ?s' q))"
        if "semsleeping (tasks ?s' t)" "q_prev (queues ?s' t)"
        using that w(4) by (intro ex) simp
    qed (use w in auto)
  qed
  show ?thesis
  proof (rule sem_invI)
    show "set_wf ?s' q" if "live ?s' j q" for j q using that unfolding lv using new wf by auto
    show "queued_wf ?s' j q t" if "live ?s' j q" "t \<in> set (sem_pending (sets ?s' q))" for j q t
      using that lv [of j q] qw [of j q t] old [of j q] d by auto
    show "undo_wf ?s' j q u" if "live ?s' j q" "u \<in> set (sma_undo (sets ?s' q))" for j q u
      using that lv [of j q] uw [of j q u] old [of j q] d by auto
    show "j = j'" if "live ?s' j q" "live ?s' j' q" for j j' q
      using that lv dead sem_inv_slot [OF assms(1)] by metis
  qed (use sem_inv_ids [OF assms(1)] assms(2) tot tw in simp_all)
qed

lemma newary_ok:
  assumes "sem_ok s" "0 \<le> nsems" "nsems \<le> sc_semmsl (sem_ctls s)" "\<And>a. p = Some a \<Longrightarrow> unused s a"
  shows "\<exists>s' r. newary s t k nsems semflg p mem_ok = Done (s', r) \<and> sem_ok s' \<and>
    (\<forall>x. r = Inr x \<longrightarrow> (\<exists>i a. p = Some a \<and> live s' i a \<and> x = set_id s' i a \<and> vals s' a = replicate (nat nsems) 0 \<and>
       key (sem_perm (sets s' a)) = k \<and> sem_nsems (sets s' a) = of_int nsems))"
proof (cases "nsems = 0 \<or> used_sems s + nsems > sc_semmns (sem_ctls s) \<or> p = None")
  case True
  then show ?thesis using assms(1) by (auto simp: newary_def)
next
  case False
  then obtain a where a: "p = Some a" "unused s a" using assms(4) by auto
  have inv: "sem_inv s" "unlocked s" using assms(1) by (simp_all add: sem_ok_def)
  have n: "0 < nsems" "nsems < 2 ^ 16" using False assms(2,3) sem_inv_ids(3) [OF inv(1)] by auto
  then have un: "uint (of_int nsems :: 16 word) = nsems" "unat (of_int nsems :: 16 word) = nat nsems"
    by (simp_all add: unsigned_of_int take_bit_int_eq_self)
  let ?perm0 = "\<lparr>key = 0, uid = 0, gid = 0, cuid = 0, cgid = 0, mode = 0, seq = 0\<rparr>"
  note add = ipc_addid_spec [OF sem_inv_ids(1) [OF inv(1)] inv(2) sem_inv_ids(4) [OF inv(1)],
    of "cred_of s t" a ?perm0 mem_ok]
  show ?thesis
  proof (cases rule: add)
    case (1 ids)
    then obtain j where "entries ids = entries (sem_ids s) @ replicate j None" by blast
    then have "sem_ok (s\<lparr>sem_ids := ids\<rparr>)" using grown_inv [OF inv(1)] 1 by (simp add: sem_ok_def)
    then show ?thesis using 1 False a by (simp add: newary_def)
  next
    case (2 ids i)
    then obtain j where j: "nat i < length (entries (sem_ids s) @ replicate j None)"
      "(entries (sem_ids s) @ replicate j None) ! nat i = None"
      "entries ids = (entries (sem_ids s) @ replicate j None)[nat i := Some a]" by blast
    let ?perm = "?perm0\<lparr>cuid := euid (cred_of s t), uid := euid (cred_of s t), gid := egid (cred_of s t),
      cgid := egid (cred_of s t), seq := ids_seq (sem_ids s)\<rparr>"
    let ?d = "\<lparr>sem_perm = ?perm\<lparr>mode := ucast semflg AND S_IRWXUGO, key := k\<rparr>, sem_otime = 0,
      sem_ctime = now s, sem_base = replicate (nat nsems) \<lparr>semval = 0, sempid = 0\<rparr>,
      sem_pending = [], sma_undo = [], sem_nsems = of_int nsems\<rparr>"
    let ?s1 = "s\<lparr>sem_ids := ids, used_sems := used_sems s + nsems, sets := (sets s)(a := ?d)\<rparr>"
    have "sem_inv ?s1"
      using newset_inv [OF inv(1) 2(2) a(2) j, of ?d] un by simp
    then have ok: "sem_ok (sem_unlock ?s1)" by (rule sem_okI)
    have lv: "live (sem_unlock ?s1) (nat i) a"
      using j unfolding live_unlock by (simp add: live_def)
    have "newary s t k nsems semflg p mem_ok = Done (sem_unlock ?s1, Inr (ipc_buildid i (ids_seq (sem_ids s))))"
      using 2 False a by (simp add: newary_def Let_def set_at_def)
    moreover have "set_id (sem_unlock ?s1) (nat i) a = ipc_buildid i (ids_seq (sem_ids s))"
      using 2(4) by (simp add: set_id_def sem_unlock_def)
    moreover have "vals (sem_unlock ?s1) a = replicate (nat nsems) 0" "sets (sem_unlock ?s1) a = ?d"
      by (simp_all add: vals_def sem_unlock_def)
    ultimately show ?thesis using ok lv a(1) by fastforce
  qed
qed

lemma semget_ok:
  assumes "sem_ok s" "\<And>a. p = Some a \<Longrightarrow> unused s a"
  shows "\<exists>s' r. sys_semget s t k nsems semflg p mem_ok = Done (s', r) \<and> sem_ok s'"
proof (cases "nsems < 0 \<or> nsems > sc_semmsl (sem_ctls s)")
  case True
  then show ?thesis using assms(1) by (simp add: sys_semget_def)
next
  case False
  have inv: "sem_inv s" "unlocked s" using assms(1) by (simp_all add: sem_ok_def)
  have new: "\<exists>s' r. newary s t k nsems semflg p mem_ok = Done (s', r) \<and> sem_ok s'"
    using newary_ok [OF assms(1), where p = p and nsems = nsems and t = t and k = k and
        semflg = semflg and mem_ok = mem_ok] assms(2) False by force
  obtain i where i: "ipc_findkey (\<lambda>p. sem_perm (sets s p)) (sem_ids s) k = Done i"
    "i \<noteq> -1 \<Longrightarrow> 0 \<le> i \<and> i < ids_size (sem_ids s) \<and> (\<exists>a. entries (sem_ids s) ! nat i = Some a)"
    using ipc_findkey_spec [OF sem_inv_ids(1) [OF inv(1)], of "\<lambda>p. sem_perm (sets s p)" k] by force
  show ?thesis
  proof (cases "k = IPC_PRIVATE \<or> i = -1")
    case True
    then show ?thesis using new i(1) False assms(1) by (auto simp: sys_semget_def)
  next
    case old: False
    then have b: "0 \<le> i" "i < ids_size (sem_ids s)" using i(2) by auto
    then have sl: "i mod SEQ_MULTIPLIER = i"
      using ids_wf_size [OF sem_inv_ids(1) [OF inv(1)]] by (simp add: ipc_limits)
    then have g: "good_id s i" using b by (simp add: good_id_def)
    obtain a where a: "entries (sem_ids s) ! nat i = Some a" using i(2) old by auto
    have "live s (slot_of i) a"
      using a b sl ids_wf_size [OF sem_inv_ids(1) [OF inv(1)]] by (simp add: live_def slot_of_def nat_less_iff)
    then obtain q where q: "sem_lock s i = Done (locked s, Some q)"
      using sem_lock_cases [OF inv g] by blast
    have "sem_ok (sem_unlock (locked s))" using inv by (intro sem_okI locked_inv)
    then show ?thesis using q i(1) old False assms(1) by (simp add: sys_semget_def Let_def)
  qed
qed

section \<open>Removing a set\<close>

lemma fold_undo_at:
  "fold (\<lambda>u. undo_at u (\<lambda>x. x\<lparr>un_semid := -1\<rparr>)) us s =
     s\<lparr>undos := (\<lambda>u. if u \<in> set us then (undos s u)\<lparr>un_semid := -1\<rparr> else undos s u)\<rparr>"
  by (induction us arbitrary: s) (auto simp: undo_at_def fun_eq_iff)

lemma fold_queue_at:
  "fold (\<lambda>t s. wake_up_process t
     (queue_at t (\<lambda>q. q\<lparr>q_status := Sem_err EIDRM, q_prev := False\<rparr>) s)) ts s =
   s\<lparr>queues := (\<lambda>t. if t \<in> set ts then (queues s t)\<lparr>q_status := Sem_err EIDRM, q_prev := False\<rparr> else queues s t),
     woken := woken s @ ts\<rparr>"
  by (induction ts arbitrary: s) (auto simp: queue_at_def wake_up_process_def fun_eq_iff)

lemma undo_owner:
  assumes "sem_inv s" "live s i p" "u \<in> set (sma_undo (sets s p))" "live s j q" "u \<in> set (sma_undo (sets s q))"
  shows "i = j" "p = q"
proof -
  have "set_id s i p = set_id s j q"
    using sem_invD(3) [OF assms(1,2,3)] sem_invD(3) [OF assms(1,4,5)] by (simp add: undo_wf_def)
  then have "int i = int j" using set_id_slot(1) [OF assms(1,2)] set_id_slot(1) [OF assms(1,4)] by simp
  then show "i = j" by simp
  then show "p = q" using live_fun assms(2,4) by blast
qed

lemma freeary_ok:
  assumes "sem_inv s" "live s (slot_of semid) sma" "0 \<le> semid"
  shows "\<exists>s'. freeary semid s = Done s' \<and> sem_ok s' \<and> (\<forall>j q. live s' j q \<longleftrightarrow> live s j q \<and> j \<noteq> slot_of semid)"
proof -
  let ?i = "slot_of semid" and ?d = "sets s sma"
  have i: "0 \<le> semid mod SEQ_MULTIPLIER" "int ?i = semid mod SEQ_MULTIPLIER"
    using assms(3) by (simp_all add: slot_of_def ipc_limits)
  have sz: "?i < length (entries (sem_ids s))" "entries (sem_ids s) ! ?i = Some sma"
    using assms(2) by (simp_all add: live_def)
  obtain ids where ids: "ipc_rmid (sem_ids s) semid = Done (ids, sma)" "ids_wf ids"
    "entries ids = (entries (sem_ids s))[?i := None]"
    using ipc_rmid_spec [OF sem_inv_ids(1) [OF assms(1)], of "semid mod SEQ_MULTIPLIER" sma semid] i sz
      ids_wf_size [OF sem_inv_ids(1) [OF assms(1)]] by (auto simp: slot_of_def)
  define s' where "s' = s\<lparr>sem_ids := ids\<lparr>ary := False\<rparr>,
    undos := (\<lambda>u. if u \<in> set (sma_undo ?d) then (undos s u)\<lparr>un_semid := -1\<rparr> else undos s u),
    queues := (\<lambda>t. if t \<in> set (sem_pending ?d) then (queues s t)\<lparr>q_status := Sem_err EIDRM, q_prev := False\<rparr> else queues s t),
    woken := woken s @ sem_pending ?d, used_sems := used_sems s - uint (sem_nsems ?d)\<rparr>"
  have run: "freeary semid s = Done s'"
    by (simp add: freeary_def ids(1) Let_def fold_undo_at fold_queue_at sem_unlock_def ipc_unlock_def
        spin_unlock_def s'_def cong: if_cong)
  have eqs: "sets s' = sets s" "tasks s' = tasks s" "sem_ctls s' = sem_ctls s"
    "entries (sem_ids s') = (entries (sem_ids s))[?i := None]" by (simp_all add: s'_def ids(3))
  have lv: "live s' j q \<longleftrightarrow> live s j q \<and> j \<noteq> ?i" for j q
    using sz(1) by (cases "j = ?i") (auto simp: live_def eqs)
  have other: "q \<noteq> sma" if "live s' j q" for j q
    using that lv sem_inv_slot [OF assms(1,2)] by blast
  have sid: "set_id s' = set_id s" by (simp add: set_id_def eqs fun_eq_iff)
  have un: "undos s' u = undos s u" if "live s' j q" "u \<in> set (sma_undo (sets s q))" for j q u
    using undo_owner [OF assms(1,2) _ _ that(2)] that(1) lv by (auto simp: s'_def)
  have qu: "queues s' t = queues s t" if "live s' j q" "t \<in> set (sem_pending (sets s q))" for j q t
    using pending_owner [OF assms(1,2) _ _ that(2)] other [OF that(1)] that(1) lv by (auto simp: s'_def)
  have tw: "task_wf s' t" for t
  proof -
    note w = task_wfD [OF sem_inv_task [OF assms(1), of t]]
    show ?thesis
    proof (rule task_wfI)
      show "\<exists>j q. live s' j q \<and> u \<in> set (sma_undo (sets s' q))"
        if "u \<in> set (semundo (tasks s' t))" "un_semid (undos s' u) \<noteq> -1" for u
      proof -
        have u: "u \<notin> set (sma_undo ?d)" "un_semid (undos s u) \<noteq> -1" "u \<in> set (semundo (tasks s t))"
          using that by (auto simp: s'_def split: if_splits)
        then obtain j q where "live s j q" "u \<in> set (sma_undo (sets s q))" using w(2) by blast
        then show ?thesis using u(1) lv eqs(1) assms(2) live_fun by metis
      qed
      show "\<exists>j q. live s' j q \<and> t \<in> set (sem_pending (sets s' q))"
        if "semsleeping (tasks s' t)" "q_prev (queues s' t)"
      proof -
        have u: "t \<notin> set (sem_pending ?d)" "q_prev (queues s t)" "semsleeping (tasks s t)"
          using that by (auto simp: s'_def split: if_splits)
        then obtain j q where "live s j q" "t \<in> set (sem_pending (sets s q))" using w(4) by blast
        then show ?thesis using u(1) lv eqs(1) assms(2) live_fun by metis
      qed
    qed (use w in \<open>auto simp: eqs(2) s'_def split: if_splits\<close>)
  qed
  have "used_sems s' = total_sems s'"
    using sem_inv_ids(2) [OF assms(1)] table_sum_clear [OF sz, of "\<lambda>p. uint (sem_nsems (sets s p))"]
    by (simp add: total_sems_def eqs(4)) (simp add: s'_def)
  moreover have "ids_wf (sem_ids s')"
    using ids(2) by (subst ids_wf_cong [where ids = ids]) (simp_all add: s'_def)
  moreover have "set_wf s' q" if "live s' j q" for j q
    using sem_invD(1) [OF assms(1), of j q] that lv by (simp add: set_wf_def eqs)
  moreover have "queued_wf s' j q t" if "live s' j q" "t \<in> set (sem_pending (sets s' q))" for j q t
    using sem_invD(2) [OF assms(1), of j q t] that lv qu [of j q t] by (simp add: queued_wf_def eqs sid)
  moreover have "undo_wf s' j q u" if "live s' j q" "u \<in> set (sma_undo (sets s' q))" for j q u
    using sem_invD(3) [OF assms(1), of j q u] that lv un [of j q u] by (simp add: undo_wf_def eqs sid)
  moreover have "j = j'" if "live s' j q" "live s' j' q" for j j' q
    using that lv sem_inv_slot [OF assms(1)] by blast
  ultimately have "sem_inv s'"
    using sem_inv_ids(3,4) [OF assms(1)] tw by (intro sem_invI) (simp_all add: eqs(3))
  then show ?thesis using run lv by (auto simp: sem_ok_def s'_def)
qed

section \<open>Control operations\<close>

text \<open>
  What other processes may do while a call sleeps: they keep the invariant and release the
  lock, do not touch the undo list and queue entry of the sleeping process, and do not let the
  array grow, which only happens after the limit was raised.
\<close>

definition interference :: "(sem_state \<Rightarrow> sem_state) \<Rightarrow> nat \<Rightarrow> bool" where
  "interference env t \<longleftrightarrow> (\<forall>s. sem_ok s \<longrightarrow> sem_ok (env s) \<and> tasks (env s) t = tasks s t \<and>
     ids_size (sem_ids (env s)) = ids_size (sem_ids s))"

lemma sem_frame_set_at:
  assumes "sem_nsems (f (sets s p)) = sem_nsems (sets s p)"
    "seq (sem_perm (f (sets s p))) = seq (sem_perm (sets s p))"
    "sem_pending (f (sets s p)) = sem_pending (sets s p)" "sma_undo (f (sets s p)) = sma_undo (sets s p)"
    "length (sem_base (f (sets s p))) = length (sem_base (sets s p))"
    "all_vals (\<lambda>v. 0 \<le> v) (sem_base (sets s p)) \<Longrightarrow> all_vals (\<lambda>v. 0 \<le> v) (sem_base (f (sets s p)))"
  shows "sem_frame s (set_at p f s)"
  using assms by (auto simp: sem_frame_def set_at_def)

lemma length_clear: "length (fold (\<lambda>i a. a[i := 0]) is a) = length a"
  by (induction "is" arbitrary: a) simp_all

lemma sem_frame_clear: "sem_frame s (clear_adj is u s)"
  by (auto simp: sem_frame_def clear_adj_def undo_at_def length_clear)

lemma sem_frame_fold_clear: "sem_frame s (fold (clear_adj is) us s)"
proof (induction us arbitrary: s)
  case (Cons u us)
  show ?case using sem_frame_trans [OF sem_frame_clear Cons.IH] by simp
qed simp

lemma fold_clear_sets: "sets (fold (clear_adj is) us s) = sets s" "now (fold (clear_adj is) us s) = now s"
  by (induction us arbitrary: s) (simp_all add: clear_adj_def undo_at_def)

lemma good_id_frame: "sem_frame s s' \<Longrightarrow> good_id s' semid = good_id s semid"
  by (simp add: good_id_def sem_frameD(3))

lemma good_id_locked [simp]: "good_id (locked s) semid = good_id s semid"
  by (simp add: good_id_def)

lemma interference_step:
  assumes "interference env t" "sem_inv s" "good_id s semid"
  shows "sem_ok (env (sem_unlock s))" "good_id (env (sem_unlock s)) semid"
    "tasks (env (sem_unlock s)) t = tasks s t"
  using assms(1,3) sem_okI [OF assms(2)] unfolding interference_def good_id_def
  by (auto simp: sem_frameD(3,7) [OF sem_frame_unlock])

lemma update_then_unlock:
  assumes "sem_inv s" "live s i sma"
  shows "\<exists>s'. bind_outcome (update_queue sma s) (\<lambda>s. Done (sem_unlock s, r)) = Done (s', r) \<and> sem_ok s'"
  using update_queue_inv [OF assms] sem_okI by force

lemma setall_ok:
  assumes "sem_ok s" "good_id s semid" "length sem_io = unat n"
  shows "\<exists>s' r. setall s t semid sma n sem_io = Done (s', r, Out_none) \<and> sem_ok s'"
proof (cases rule: revalidate_cases [OF assms(1,2), of t sma n S_IWUGO])
  case (1 e s')
  then show ?thesis by (simp add: setall_def)
next
  case 2
  let ?s1 = "set_at sma (\<lambda>d. d\<lparr>sem_base := map2 (\<lambda>x v. x\<lparr>semval := uint v\<rparr>) (sem_base d) sem_io\<rparr>) (locked s)"
  let ?s2 = "fold (clear_adj [0..<unat n]) (sma_undo (sets ?s1 sma)) ?s1"
  let ?s3 = "set_at sma (\<lambda>d. d\<lparr>sem_ctime := now ?s2\<rparr>) ?s2"
  have inv: "sem_inv (locked s)" using assms(1) by (simp add: sem_ok_def locked_inv)
  have len: "length (sem_base (sets s sma)) = unat n"
    using sem_invD(1) [OF _ 2(2)] assms(1) 2(4) by (auto simp: sem_ok_def set_wf_def)
  have "sem_frame (locked s) ?s1"
    using len assms(3)
    by (intro sem_frame_set_at) (auto simp: all_vals_def dest!: set_zip_leftD)
  then have f: "sem_frame (locked s) ?s3"
    using sem_frame_trans [OF sem_frame_trans [OF _ sem_frame_fold_clear] sem_frame_set_at] by auto
  have "sem_inv ?s3" "live ?s3 (slot_of semid) sma"
    using sem_frame_inv [OF f inv] sem_frame_live [OF f] 2(2) by simp_all
  from update_then_unlock [OF this, of "(Inr 0, Out_none)"] show ?thesis
    using 2(1) by (simp add: setall_def Let_def)
qed

lemma setval_ok:
  assumes "sem_inv s" "live s i sma" "k < unat (sem_nsems (sets s sma))"
  shows "\<exists>s' r. setval s sma k v = Done (s', r, Out_none) \<and> sem_ok s'"
proof (cases "v > SEMVMX \<or> v < 0")
  case True
  then show ?thesis using sem_okI [OF assms(1)] by (simp add: setval_def)
next
  case False
  let ?s1 = "fold (clear_adj [k]) (sma_undo (sets s sma)) s"
  let ?s2 = "set_at sma (\<lambda>d. d\<lparr>sem_base := (sem_base d)[k := (sem_base d ! k)\<lparr>semval := v\<rparr>]\<rparr>) ?s1"
  let ?s3 = "set_at sma (\<lambda>d. d\<lparr>sem_ctime := now ?s2\<rparr>) ?s2"
  have "sem_frame ?s1 ?s2" using False
    by (intro sem_frame_set_at) (auto simp: all_vals_def dest!: set_update_subset_insert [THEN subsetD])
  then have f: "sem_frame s ?s3"
    using sem_frame_trans [OF sem_frame_trans [OF sem_frame_fold_clear] sem_frame_set_at] by auto
  have "sem_inv ?s3" "live ?s3 i sma"
    using sem_frame_inv [OF f assms(1)] sem_frame_live [OF f] assms(2) by simp_all
  from update_then_unlock [OF this, of "(Inr 0, Out_none)"] show ?thesis
    using False by (simp add: setval_def Let_def)
qed

lemma copy_out_ok: "sem_ok s \<Longrightarrow> \<exists>s' r out. copy_out arg s x y = Done (s', r, out) \<and> sem_ok s'"
  by (simp add: copy_out_def)

lemma semctl_nolock_ok:
  assumes "sem_ok s" "good_id s semid"
  shows "\<exists>s' r out. semctl_nolock s t semid cmd arg = Done (s', r, out) \<and> sem_ok s'"
proof (cases "cmd = SEM_STAT \<and> semid \<le> ids_size (sem_ids s)")
  case True
  have inv: "sem_inv s" "unlocked s" using assms(1) by (simp_all add: sem_ok_def)
  have u: "sem_ok (sem_unlock (locked s))" using inv by (intro sem_okI locked_inv)
  show ?thesis
  proof (cases rule: sem_lock_cases [OF inv assms(2)])
    case 1
    then show ?thesis using True assms(1) by (simp add: semctl_nolock_def)
  next
    case (2 p)
    then show ?thesis using True u copy_out_ok [OF u] by (simp add: semctl_nolock_def Let_def)
  qed
next
  case False
  then show ?thesis
    using assms(1) copy_out_ok [OF assms(1)] by (auto simp: semctl_nolock_def Let_def)
qed

lemma semctl_main_ok:
  assumes "sem_ok s" "good_id s semid" "interference env t"
  shows "\<exists>s' r out. semctl_main env mem_ok s t semid semnum cmd arg = Done (s', r, out) \<and> sem_ok s'"
proof -
  have inv: "sem_inv s" "unlocked s" using assms(1) by (simp_all add: sem_ok_def)
  show ?thesis
  proof (cases rule: sem_lock_cases [OF inv assms(2)])
    case 1
    then show ?thesis using assms(1) by (simp add: semctl_main_def)
  next
    case (2 p)
    have lk: "sem_inv (locked s)" "live (locked s) (slot_of semid) p" using inv 2 by (simp_all add: locked_inv)
    have u: "sem_ok (sem_unlock (locked s))" using lk(1) by (rule sem_okI)
    have g: "good_id (locked s) semid" using assms(2) by simp
    note env = interference_step [OF assms(3) lk(1) g]
    let ?n = "sem_nsems (sets s p)"
    let ?e = "env (sem_unlock (locked s))"
    have get: "\<exists>s' r out. getall s1 p arg = Done (s', r, out) \<and> sem_ok s'" if "sem_inv s1" for s1
      using copy_out_ok [OF sem_okI [OF that]] by (simp add: getall_def)
    have getr: "\<exists>s' r out. bind_outcome (sem_revalidate ?e t semid p ?n S_IRUGO) (\<lambda>(s, err). case err of
        Some e \<Rightarrow> Done (s, Inl e, Out_none) | None \<Rightarrow> getall s p arg) = Done (s', r, out) \<and> sem_ok s'"
    proof (cases rule: revalidate_cases [OF env(1,2), of t p ?n S_IRUGO])
      case 2
      then show ?thesis using get [of "locked ?e"] env(1) by (auto simp: sem_ok_def locked_inv)
    qed simp
    have seta: "\<exists>s' r out. setall ?e t semid p ?n (map f [0..<unat ?n]) = Done (s', r, out) \<and> sem_ok s'" for f
      using setall_ok [OF env(1,2)] by force
    have setv: "\<exists>s' r out. setval (locked s) p (nat semnum) v = Done (s', r, out) \<and> sem_ok s'"
      if "0 \<le> semnum" "semnum < uint ?n" for v
      using setval_ok [OF lk, of "nat semnum" v] that by (fastforce simp: nat_less_iff)
    note body = semctl_main_def 2(1) bind_outcome.simps prod.case option.case Let_def
    consider "sem_checkid (locked s) p semid \<or>
        sem_perms_denied (locked s) t p (if cmd = SETVAL \<or> cmd = SETALL then S_IWUGO else S_IRUGO)"
      | "cmd = GETALL" | "cmd = SETALL" | "cmd = IPC_STAT"
      | "cmd \<noteq> GETALL" "cmd \<noteq> SETALL" "cmd \<noteq> IPC_STAT" by blast
    then show ?thesis
    proof cases
      case 1
      then show ?thesis unfolding body using u by auto
    next
      case 2
      then show ?thesis unfolding body using u get [OF lk(1)] getr env(1) by auto
    next
      case 3
      then show ?thesis unfolding body using u seta env(1) by (auto split: option.splits)
    next
      case 4
      then show ?thesis unfolding body using u copy_out_ok [OF u] by auto
    next
      case 5
      then show ?thesis unfolding body using u setv by auto
    qed
  qed
qed

lemma semctl_down_ok:
  assumes "sem_ok s" "good_id s semid"
  shows "\<exists>s' r out. semctl_down s t semid cmd arg = Done (s', r, out) \<and> sem_ok s'"
proof -
  have inv: "sem_inv s" "unlocked s" using assms(1) by (simp_all add: sem_ok_def)
  show ?thesis
  proof (cases rule: sem_lock_cases [OF inv assms(2)])
    case 1
    then show ?thesis using assms(1) by (simp add: semctl_down_def)
  next
    case (2 p)
    have lk: "sem_inv (locked s)" "live (locked s) (slot_of semid) p" using inv 2 by (simp_all add: locked_inv)
    have u: "sem_ok (sem_unlock (locked s))" using lk(1) by (rule sem_okI)
    have fr: "\<exists>s'. freeary semid (locked s) = Done s' \<and> sem_ok s'"
      using freeary_ok [OF lk] assms(2) by (auto simp: good_id_def)
    have st: "sem_ok (sem_unlock (set_at p (\<lambda>d. d\<lparr>sem_perm := (sem_perm (sets s p))\<lparr>uid := a, gid := b, mode := c\<rparr>,
        sem_ctime := e\<rparr>) (locked s)))" for a b c e
      by (intro sem_okI sem_frame_inv [OF sem_frame_set_at lk(1)]) simp_all
    show ?thesis
      unfolding semctl_down_def 2(1) bind_outcome.simps prod.case option.case Let_def
      using u fr st assms(1) by auto
  qed
qed

lemma semctl_ok:
  assumes "sem_ok s" "semid < 0 \<or> good_id s semid" "interference env t"
  shows "\<exists>s' r out. sys_semctl env mem_ok s t semid semnum cmd arg = Done (s', r, out) \<and> sem_ok s'"
  using assms semctl_nolock_ok semctl_main_ok semctl_down_ok by (auto simp: sys_semctl_def)

end
