(* ===== verification/Ipc_Sem_Ops.thy ===== *)
theory Ipc_Sem_Ops
  imports Ipc_Sem_Inv
begin

text \<open>
  The semaphore operations keep the invariant of \<open>Ipc_Sem\<close>: the search for and allocation of
  undo structures, both halves of \<open>semop\<close>, and the adjustments when a process exits.
\<close>

section \<open>Undo structures\<close>

lemma not_pending_awake:
  assumes "sem_inv s" "live s i p" "\<not> semsleeping (tasks s t)"
  shows "t \<notin> set (sem_pending (sets s p))"
  using sem_invD(2) [OF assms(1,2), of t] assms(3) by (auto simp: queued_wf_def Let_def)

lemma set_id_nonneg: "sem_inv s \<Longrightarrow> live s i p \<Longrightarrow> set_id s i p \<noteq> -1"
  using set_id_slot(2) by fastforce

text \<open>Changing the undo list of one process that is awake.\<close>

lemma task_undo_inv:
  assumes "sem_inv s" "\<not> semsleeping (tasks s t)"
    and k: "\<not> semsleeping k" "distinct (semundo k)" "set (semundo k) \<subseteq> set (semundo (tasks s t))"
    and gone: "\<And>i p u. live s i p \<Longrightarrow> u \<in> set (sma_undo (sets s p)) \<Longrightarrow> u \<in> set (semundo (tasks s t)) \<Longrightarrow> u \<in> set (semundo k)"
  shows "sem_inv (s\<lparr>tasks := (tasks s)(t := k)\<rparr>)" (is "sem_inv ?s'")
proof -
  have lv: "live ?s' i p = live s i p" and sid: "set_id ?s' i p = set_id s i p" for i p
    by (simp_all add: live_def set_id_def)
  have qw: "queued_wf ?s' i p x" if "live s i p" "x \<in> set (sem_pending (sets s p))" for i p x
    using sem_invD(2) [OF assms(1) that] not_pending_awake [OF assms(1) that(1) assms(2)] that(2)
    by (cases "x = t") (auto simp: queued_wf_def Let_def sid)
  have uw: "undo_wf ?s' i p u" if "live s i p" "u \<in> set (sma_undo (sets s p))" for i p u
  proof -
    have w: "undo_wf s i p u" using sem_invD(3) [OF assms(1) that] .
    then obtain x where "u \<in> set (semundo (tasks s x))" by (auto simp: undo_wf_def)
    then have "u \<in> set (semundo (tasks ?s' x))" using gone [OF that] by (cases "x = t") auto
    then show ?thesis using w by (auto simp: undo_wf_def sid simp del: fun_upd_apply)
  qed
  have tw: "task_wf ?s' x" for x
  proof -
    note w = task_wfD [OF sem_inv_task [OF assms(1), of x]]
    have sub: "v \<in> set (semundo (tasks ?s' y)) \<Longrightarrow> v \<in> set (semundo (tasks s y))" for v y
      using k(3) by (auto split: if_splits)
    have sl: "semsleeping (tasks ?s' x) \<Longrightarrow> semsleeping (tasks s x)" using k(1) by (auto split: if_splits)
    show ?thesis
    proof (rule task_wfI)
      show "distinct (semundo (tasks ?s' x))" using w(1) k(2) by simp
      show "\<exists>i p. live ?s' i p \<and> v \<in> set (sma_undo (sets ?s' p))"
        if "v \<in> set (semundo (tasks ?s' x))" "un_semid (undos ?s' v) \<noteq> -1" for v
        using w(2) [OF sub [OF that(1)]] that(2) by (simp add: lv)
      show "y \<noteq> x \<Longrightarrow> v \<in> set (semundo (tasks ?s' x)) \<Longrightarrow> v \<notin> set (semundo (tasks ?s' y))" for y v
        using w(3) [of y v] sub by blast
      show "\<exists>i p. live ?s' i p \<and> x \<in> set (sem_pending (sets ?s' p))"
        if "semsleeping (tasks ?s' x)" "q_prev (queues ?s' x)"
        using w(4) [OF sl [OF that(1)]] that(2) by (simp add: lv)
    qed (use w(5,6) sl in simp_all)
  qed
  have "total_sems ?s' = total_sems s" by (simp add: total_sems_def)
  then show ?thesis
    using sem_inv_ids [OF assms(1)] sem_inv_slot [OF assms(1)] sem_invD(1) [OF assms(1)] qw uw tw
    by (intro sem_invI) (simp_all add: lv set_wf_def)
qed

lemma find_undo_ok:
  assumes "sem_inv s" "\<not> semsleeping (tasks s t)" "set uns \<subseteq> set (semundo (tasks s t))" "distinct uns"
  shows "\<exists>s' un. find_undo t semid uns s = (s', un) \<and> sem_inv s' \<and> sem_ids s' = sem_ids s \<and> sets s' = sets s \<and>
    undos s' = undos s \<and> \<not> semsleeping (tasks s' t) \<and>
    (\<forall>x. set (semundo (tasks s' x)) \<subseteq> set (semundo (tasks s x))) \<and>
    (\<forall>u. un = Some u \<longrightarrow> u \<in> set (semundo (tasks s' t)) \<and> un_semid (undos s u) = semid)"
  using assms
proof (induction uns arbitrary: s)
  case (Cons u uns)
  show ?case
  proof (cases "un_semid (undos s u) = semid \<or> un_semid (undos s u) \<noteq> -1")
    case True
    then show ?thesis using Cons.prems Cons.IH [of s] by auto
  next
    case False
    let ?k = "(tasks s t)\<lparr>semundo := remove1 u (semundo (tasks s t))\<rparr>"
    let ?s1 = "s\<lparr>tasks := (tasks s)(t := ?k)\<rparr>"
    have d: "distinct (semundo (tasks s t))" using task_wfD(1) [OF sem_inv_task [OF Cons.prems(1)]] .
    have "u \<noteq> v" if "live s i p" "v \<in> set (sma_undo (sets s p))" for i p v
      using sem_invD(3) [OF Cons.prems(1) that] set_id_nonneg [OF Cons.prems(1) that(1)] False
      by (auto simp: undo_wf_def)
    then have inv: "sem_inv ?s1"
      using Cons.prems(1,2) d by (intro task_undo_inv) (auto dest: notin_set_remove1)
    have "set uns \<subseteq> set (semundo (tasks ?s1 t))" using Cons.prems(3,4) d by auto
    from Cons.IH [OF inv _ this] Cons.prems(2,4)
    obtain s' un where r: "find_undo t semid uns ?s1 = (s', un)" "sem_inv s'" "sem_ids s' = sem_ids ?s1"
      "sets s' = sets ?s1" "undos s' = undos ?s1" "\<not> semsleeping (tasks s' t)"
      "\<forall>x. set (semundo (tasks s' x)) \<subseteq> set (semundo (tasks ?s1 x))"
      "\<forall>u. un = Some u \<longrightarrow> u \<in> set (semundo (tasks s' t)) \<and> un_semid (undos ?s1 u) = semid" by auto
    have "set (semundo (tasks ?s1 x)) \<subseteq> set (semundo (tasks s x))" for x
      using d by auto
    then have "\<forall>x. set (semundo (tasks s' x)) \<subseteq> set (semundo (tasks s x))" using r(7) by blast
    then show ?thesis using False r by (simp add: freeundos_def task_at_def del: fun_upd_apply)
  qed
qed simp

definition fresh_undo :: "sem_state \<Rightarrow> addr \<Rightarrow> bool" where
  "fresh_undo s u \<longleftrightarrow> (\<forall>t. u \<notin> set (semundo (tasks s t)))"

lemma new_undo_inv:
  assumes "sem_inv s" "live s i sma" "fresh_undo s u" "\<not> semsleeping (tasks s t)"
  shows "sem_inv (set_at sma (\<lambda>d. d\<lparr>sma_undo := u # sma_undo d\<rparr>)
    (task_at t (\<lambda>k. k\<lparr>semundo := u # semundo k\<rparr>)
    (undo_at u (\<lambda>_. \<lparr>un_semid = set_id s i sma, semadj = replicate (unat (sem_nsems (sets s sma))) 0\<rparr>) s)))"
    (is "sem_inv ?s'")
proof -
  define s' where "s' = ?s'"
  have eqs: "sem_ids s' = sem_ids s" "used_sems s' = used_sems s" "sem_ctls s' = sem_ctls s" "queues s' = queues s"
    "\<And>p. sets s' p = (if p = sma then (sets s sma)\<lparr>sma_undo := u # sma_undo (sets s sma)\<rparr> else sets s p)"
    "\<And>x. tasks s' x = (if x = t then (tasks s t)\<lparr>semundo := u # semundo (tasks s t)\<rparr> else tasks s x)"
    "\<And>v. undos s' v = (if v = u then \<lparr>un_semid = set_id s i sma, semadj = replicate (unat (sem_nsems (sets s sma))) 0\<rparr> else undos s v)"
    by (auto simp: s'_def sem_updates)
  have lv: "live s' = live s" using eqs(1) by (rule live_cong)
  have sid: "set_id s' = set_id s" by (auto simp: set_id_def eqs fun_eq_iff)
  have tot: "total_sems s' = total_sems s"
    unfolding total_sems_def eqs(1) by (rule arg_cong [where f = "\<lambda>f. table_sum f _"]) (auto simp: eqs)
  have new: "u \<notin> set (sma_undo (sets s p))" if "live s j p" for j p
    using sem_invD(3) [OF assms(1) that, of u] assms(3) by (auto simp: undo_wf_def fresh_undo_def)
  have wf: "set_wf s' p" if "live s j p" for j p
    using sem_invD(1) [OF assms(1) that] new [OF that] by (auto simp: set_wf_def eqs)
  have qw: "queued_wf s' j p x" if "live s j p" "x \<in> set (sem_pending (sets s' p))" for j p x
    using sem_invD(2) [OF assms(1) that(1), of x] that(2)
    by (auto simp: queued_wf_def Let_def eqs sid split: if_splits)
  have uw: "undo_wf s' j p v" if l: "live s j p" and v: "v \<in> set (sma_undo (sets s' p))" for j p v
  proof (cases "v = u")
    case True
    then have "p = sma" using v new [OF l] by (auto simp: eqs split: if_splits)
    moreover have "j = i" using sem_inv_slot [OF assms(1) l] assms(2) calculation by blast
    ultimately show ?thesis using True by (auto simp: undo_wf_def sid eqs)
  next
    case False
    then have "undo_wf s j p v" using v sem_invD(3) [OF assms(1) l, of v] by (auto simp: eqs split: if_splits)
    then show ?thesis using False by (auto simp: undo_wf_def sid eqs)
  qed
  have tw: "task_wf s' x" for x
  proof -
    note w = task_wfD [OF sem_inv_task [OF assms(1), of x]]
    show ?thesis
    proof (rule task_wfI)
      show "\<exists>j p. live s' j p \<and> v \<in> set (sma_undo (sets s' p))"
        if v: "v \<in> set (semundo (tasks s' x))" "un_semid (undos s' v) \<noteq> -1" for v
      proof (cases "v = u")
        case True
        then have "live s' i sma \<and> v \<in> set (sma_undo (sets s' sma))" using assms(2) by (simp add: lv eqs)
        then show ?thesis by blast
      next
        case False
        then obtain j p where "live s j p" "v \<in> set (sma_undo (sets s p))"
          using w(2) [of v] v by (auto simp: eqs split: if_splits)
        then have "live s' j p \<and> v \<in> set (sma_undo (sets s' p))" by (auto simp: lv eqs)
        then show ?thesis by blast
      qed
      show "\<exists>j p. live s' j p \<and> x \<in> set (sem_pending (sets s' p))"
        if sl: "semsleeping (tasks s' x)" "q_prev (queues s' x)"
      proof -
        obtain j p where "live s j p" "x \<in> set (sem_pending (sets s p))"
          using w(4) sl by (auto simp: eqs split: if_splits)
        then have "live s' j p \<and> x \<in> set (sem_pending (sets s' p))" by (auto simp: lv eqs)
        then show ?thesis by blast
      qed
      show "y \<noteq> x \<Longrightarrow> v \<in> set (semundo (tasks s' x)) \<Longrightarrow> v \<notin> set (semundo (tasks s' y))" for y v
        using w(3) [of y v] assms(3) by (auto simp: eqs fresh_undo_def split: if_splits)
    qed (use w assms(3) in \<open>auto simp: eqs fresh_undo_def split: if_splits\<close>)
  qed
  have "sem_inv s'"
    using sem_inv_ids [OF assms(1)] sem_inv_slot [OF assms(1)] wf qw uw tw
    by (intro sem_invI) (auto simp: eqs(1-3) tot lv)
  then show ?thesis by (simp only: s'_def)
qed

section \<open>Semaphore operations\<close>

text \<open>A process that is awake goes to sleep on a set, with a queue entry that fits.\<close>

lemma enqueue_inv:
  assumes "sem_inv s" "live s i sma" "\<not> semsleeping (tasks s t)"
    and ps: "distinct ps" "set ps = insert t (set (sem_pending (sets s sma)))"
    and q: "q_prev q" "q_sma q = sma" "q_id q = set_id s i sma" "q_status q \<noteq> Sem_block"
      "\<forall>sop\<in>set (q_sops q). sem_num sop < sem_nsems (sets s sma) \<and> (sem_flg sop AND SEM_UNDO = 0 \<or> q_undo q \<noteq> None)"
      "\<forall>u. q_undo q = Some u \<longrightarrow> u \<in> set (sma_undo (sets s sma)) \<and> u \<in> set (semundo (tasks s t))"
  shows "sem_inv (s\<lparr>sets := (sets s)(sma := (sets s sma)\<lparr>sem_pending := ps\<rparr>),
    tasks := (tasks s)(t := (tasks s t)\<lparr>semsleeping := True\<rparr>), queues := (queues s)(t := q)\<rparr>)" (is "sem_inv ?s'")
proof -
  define s' where "s' = ?s'"
  have eqs: "sem_ids s' = sem_ids s" "used_sems s' = used_sems s" "sem_ctls s' = sem_ctls s" "undos s' = undos s"
    "\<And>p. sets s' p = (if p = sma then (sets s sma)\<lparr>sem_pending := ps\<rparr> else sets s p)"
    "\<And>x. queues s' x = (if x = t then q else queues s x)"
    "\<And>x. tasks s' x = (if x = t then (tasks s t)\<lparr>semsleeping := True\<rparr> else tasks s x)"
    by (auto simp: s'_def)
  have lv: "live s' = live s" using eqs(1) by (rule live_cong)
  have sid: "set_id s' = set_id s" by (auto simp: set_id_def eqs fun_eq_iff)
  have tot: "total_sems s' = total_sems s"
    unfolding total_sems_def eqs(1) by (rule arg_cong [where f = "\<lambda>f. table_sum f _"]) (auto simp: eqs)
  have su: "semundo (tasks s' x) = semundo (tasks s x)" "sma_undo (sets s' p) = sma_undo (sets s p)"
    "sem_nsems (sets s' p) = sem_nsems (sets s p)" for x p by (simp_all add: eqs)
  have wf: "set_wf s' p" if "live s j p" for j p
    using sem_invD(1) [OF assms(1) that] ps(1) by (auto simp: set_wf_def eqs)
  have uw: "undo_wf s' j p u = undo_wf s j p u" for j p u by (simp add: undo_wf_def sid su eqs(4))
  have qw: "queued_wf s' j p x" if l: "live s j p" and x: "x \<in> set (sem_pending (sets s' p))" for j p x
  proof (cases "x = t")
    case True
    then have "p = sma" using x not_pending_awake [OF assms(1) l assms(3)] by (auto simp: eqs split: if_splits)
    moreover have "j = i" using sem_inv_slot [OF assms(1) l] assms(2) calculation by blast
    ultimately show ?thesis using True q(1-3,5,6) by (simp add: queued_wf_def Let_def sid su) (simp add: eqs)
  next
    case False
    then have "x \<in> set (sem_pending (sets s p))" using x ps(2) by (auto simp: eqs split: if_splits)
    then show ?thesis using sem_invD(2) [OF assms(1) l] False
      by (simp add: queued_wf_def Let_def sid su) (simp add: eqs)
  qed
  have tw: "task_wf s' x" for x
  proof -
    note w = task_wfD [OF sem_inv_task [OF assms(1), of x]]
    show ?thesis
    proof (rule task_wfI)
      show "\<exists>j p. live s' j p \<and> x \<in> set (sem_pending (sets s' p))"
        if sl: "semsleeping (tasks s' x)" "q_prev (queues s' x)"
      proof (cases "x = t")
        case True
        then have "live s' i sma \<and> x \<in> set (sem_pending (sets s' sma))" using assms(2) ps(2) by (simp add: lv eqs)
        then show ?thesis by blast
      next
        case False
        then obtain j p where "live s j p" "x \<in> set (sem_pending (sets s p))"
          using w(4) sl by (auto simp: eqs)
        then have "live s' j p \<and> x \<in> set (sem_pending (sets s' p))" using ps(2) by (auto simp: lv eqs)
        then show ?thesis by blast
      qed
      show "0 \<le> q_id (queues s' x)" if "semsleeping (tasks s' x)"
        using that w(6) q(3) set_id_slot(2) [OF assms(1,2)] by (simp add: eqs split: if_splits)
      show "q_prev (queues s' x)" if "semsleeping (tasks s' x)" "q_status (queues s' x) = Sem_block"
        using that w(5) q(1) by (simp add: eqs split: if_splits)
    qed (use w(1-3) in \<open>simp_all add: su lv eqs(4)\<close>)
  qed
  have "sem_inv s'"
    using sem_inv_ids [OF assms(1)] sem_inv_slot [OF assms(1)] sem_invD(3) [OF assms(1)] wf qw tw
    by (intro sem_invI) (simp_all add: eqs(1-3) tot lv uw su)
  then show ?thesis by (simp only: s'_def)
qed

lemma semop_finish_ok:
  assumes "sem_inv s" "live s i sma"
  shows "\<exists>s' r. semop_finish s sma alter err = Done (s', r) \<and> sem_ok s'"
  using update_then_unlock [OF assms] sem_okI [OF assms(1)] by (auto simp: semop_finish_def)

lemma semop_try_ok:
  assumes "sem_inv s" "live s i sma" "\<not> semsleeping (tasks s t)" "semid = set_id s i sma"
    and ops: "\<forall>sop\<in>set sops. sem_num sop < sem_nsems (sets s sma) \<and> (sem_flg sop AND SEM_UNDO = 0 \<or> un \<noteq> None)"
    and un: "\<forall>u. un = Some u \<longrightarrow> u \<in> set (sma_undo (sets s sma)) \<and> u \<in> set (semundo (tasks s t))"
  shows "\<exists>s' r. semop_try s t sma semid sops un = Done (s', r) \<and> sem_ok s'"
proof -
  have len: "length (sem_base (sets s sma)) = unat (sem_nsems (sets s sma))"
    using sem_invD(1) [OF assms(1,2)] by (simp add: set_wf_def)
  have "length (semadj (undos s u)) = unat (sem_nsems (sets s sma))" if "un = Some u" for u
    using sem_invD(3) [OF assms(1,2), of u] un that by (auto simp: undo_wf_def)
  then have "ops_fit sops (length (sem_base (sets s sma))) (adj_of s un)"
    using ops unfolding len by (auto simp: ops_fit_def word_less_nat_alt)
  then obtain s1 r where s1: "semop_on sma sops un (pid (tasks s t)) False s = Done (s1, r)"
    "sem_frame s s1" "queues s1 = queues s"
    by (rule semop_on_spec [where who = "pid (tasks s t)" and do_undo = False]) blast
  note D = sem_frameD [OF s1(2)]
  have inv1: "sem_inv s1" "live s1 i sma"
    using sem_frame_inv [OF s1(2) assms(1)] sem_frame_live [OF s1(2)] assms(2) by simp_all
  show ?thesis
  proof (cases "r = Sem_block")
    case False
    then show ?thesis using s1(1) semop_finish_ok [OF inv1] by (simp add: semop_try_def)
  next
    case True
    define q where "q = (queues s1 t)\<lparr>q_sma := sma, q_sops := sops, q_undo := un, q_pid := pid (tasks s1 t),
      q_alter := decreases sops, q_id := semid, q_prev := True, q_status := Sem_err EINTR\<rparr>"
    define ps where "ps = (if alters sops then sem_pending (sets s1 sma) @ [t] else t # sem_pending (sets s1 sma))"
    have aw: "\<not> semsleeping (tasks s1 t)" using assms(3) D(7) by simp
    have "distinct (sem_pending (sets s1 sma))" "t \<notin> set (sem_pending (sets s1 sma))"
      using sem_invD(1) [OF inv1] not_pending_awake [OF inv1 aw] by (simp_all add: set_wf_def)
    then have ps: "distinct ps" "set ps = insert t (set (sem_pending (sets s1 sma)))" by (auto simp: ps_def)
    have "sem_inv (s1\<lparr>sets := (sets s1)(sma := (sets s1 sma)\<lparr>sem_pending := ps\<rparr>),
        tasks := (tasks s1)(t := (tasks s1 t)\<lparr>semsleeping := True\<rparr>), queues := (queues s1)(t := q)\<rparr>)" (is "sem_inv ?s2")
      by (rule enqueue_inv [OF inv1 aw ps])
        (use ops un assms(4) sem_frame_set_id [OF s1(2), of i sma] in \<open>simp_all add: q_def D\<close>)
    moreover have "semop_try s t sma semid sops un = Done (sem_unlock ?s2, Sleeps)"
      using s1(1) True
      by (simp add: semop_try_def Let_def semop_sleep_def append_to_queue_def prepend_to_queue_def sem_updates
          q_def ps_def D(7))
    ultimately show ?thesis using sem_okI by blast
  qed
qed

text \<open>The address an allocation returns is not in use, and stays so while the call sleeps.\<close>

definition undo_supply :: "(sem_state \<Rightarrow> sem_state) \<Rightarrow> addr option \<Rightarrow> sem_state \<Rightarrow> bool" where
  "undo_supply env p s \<longleftrightarrow> (\<forall>u. p = Some u \<longrightarrow> fresh_undo s u \<and> (\<forall>s. fresh_undo s u \<longrightarrow> fresh_undo (env s) u))"

lemma alloc_undo_ok:
  assumes "sem_inv s" "live s (slot_of semid) sma" "good_id s semid" "\<not> semsleeping (tasks s t)"
    "interference env t" "undo_supply env p s"
  obtains (failed) s' e where "alloc_undo env s t sma semid alter p = Done (s', Inl e)" "sem_ok s'"
  | (new) s' u where "alloc_undo env s t sma semid alter p = Done (s', Inr u)" "sem_inv s'"
      "live s' (slot_of semid) sma" "set_id s' (slot_of semid) sma = semid"
      "sem_nsems (sets s' sma) = sem_nsems (sets s sma)" "\<not> semsleeping (tasks s' t)"
      "u \<in> set (sma_undo (sets s' sma))" "u \<in> set (semundo (tasks s' t))"
proof -
  let ?e = "env (sem_unlock s)" and ?n = "sem_nsems (sets s sma)"
  let ?access = "if alter then S_IWUGO else S_IRUGO"
  note env = interference_step [OF assms(5,1,3)]
  show thesis
  proof (cases p)
    case None
    then show thesis using failed env(1) by (simp add: alloc_undo_def Let_def)
  next
    case (Some u)
    show thesis
    proof (cases rule: revalidate_cases [OF env(1,2), of t sma ?n ?access])
      case (1 e s')
      then show thesis using Some failed by (simp add: alloc_undo_def Let_def)
    next
      case 2
      have inv: "sem_inv ?e" using env(1) by (simp add: sem_ok_def)
      have lk: "sem_inv (locked ?e)" "live (locked ?e) (slot_of semid) sma"
        using inv 2(2) by (simp_all add: locked_inv)
      have id: "set_id ?e (slot_of semid) sma = semid"
        using checkid_set_id [OF inv 2(2) _ 2(3)] assms(3) by (simp add: good_id_def)
      have "fresh_undo (sem_unlock s) u"
        using assms(6) Some by (simp add: undo_supply_def fresh_undo_def sem_unlock_def)
      then have fr: "fresh_undo (locked ?e) u"
        using assms(6) Some by (simp add: undo_supply_def fresh_undo_def)
      have aw: "\<not> semsleeping (tasks (locked ?e) t)" using env(3) assms(4) by simp
      let ?s' = "set_at sma (\<lambda>d. d\<lparr>sma_undo := u # sma_undo d\<rparr>)
        (task_at t (\<lambda>k. k\<lparr>semundo := u # semundo k\<rparr>)
        (undo_at u (\<lambda>_. \<lparr>un_semid = set_id (locked ?e) (slot_of semid) sma,
          semadj = replicate (unat (sem_nsems (sets (locked ?e) sma))) 0\<rparr>) (locked ?e)))"
      have inv': "sem_inv ?s'" by (rule new_undo_inv [OF lk fr aw])
      have sid: "set_id (locked ?e) (slot_of semid) sma = semid" using id by (simp add: set_id_def)
      have run: "alloc_undo env s t sma semid alter p = Done (?s', Inr u)"
        using Some 2(1,4) unfolding sid by (simp add: alloc_undo_def Let_def)
      show thesis
      proof (rule new [OF run inv'])
        show "set_id ?s' (slot_of semid) sma = semid" using id by (simp add: set_id_def sem_updates)
        show "live ?s' (slot_of semid) sma" using 2(2) by (simp add: live_def sem_updates)
      qed (use 2(4) aw in \<open>simp_all add: sem_updates\<close>)
    qed
  qed
qed

lemma semop_start_ok:
  assumes "sem_ok s" "semid < 0 \<or> good_id s semid" "interference env t" "undo_supply env p s"
    "\<not> semsleeping (tasks s t)"
  shows "\<exists>s' r. semop_start env mem_ok p s t semid tsops nsops = Done (s', r) \<and> sem_ok s'"
proof (cases "nsops < 1 \<or> semid < 0 \<or> nsops > sc_semopm (sem_ctls s) \<or>
    (nsops > SEMOPM_FAST \<and> \<not> mem_ok) \<or> tsops = None")
  case True
  then show ?thesis using assms(1) by (auto simp: semop_start_def)
next
  case False
  then obtain f where f: "tsops = Some f" by auto
  let ?sops = "map f [0..<nsops]"
  have inv: "sem_inv s" "unlocked s" using assms(1) by (simp_all add: sem_ok_def)
  have g: "good_id s semid" "0 \<le> semid" using assms(2) False by (auto simp: good_id_def)
  show ?thesis
  proof (cases rule: sem_lock_cases [OF inv g(1)])
    case 1
    then show ?thesis using False f assms(1) by (auto simp: semop_start_def Let_def)
  next
    case (2 sma)
    let ?l = "locked s"
    have lk: "sem_inv ?l" "live ?l (slot_of semid) sma" using inv 2 by (simp_all add: locked_inv)
    have u: "sem_ok (sem_unlock ?l)" using lk(1) by (rule sem_okI)
    have aw: "\<not> semsleeping (tasks ?l t)" using assms(5) by simp
    have guards: "\<not> (nsops < 1 \<or> semid < 0)" "\<not> nsops > sc_semopm (sem_ctls s)"
      "\<not> (nsops > SEMOPM_FAST \<and> \<not> mem_ok)" using False by blast+
    note body = semop_start_def if_not_P [OF guards(1)] if_not_P [OF guards(2)] if_not_P [OF guards(3)]
      f option.case Let_def 2(1) bind_outcome.simps prod.case
    show ?thesis
    proof (cases "sem_checkid ?l sma semid \<or> list_ex (\<lambda>sop. sem_num sop \<ge> sem_nsems (sets ?l sma)) ?sops \<or>
        sem_perms_denied ?l t sma (if alters ?sops then S_IWUGO else S_IRUGO)")
      case True
      then show ?thesis unfolding body using u by auto
    next
      case go: False
      have sid: "set_id ?l (slot_of semid) sma = semid"
        using checkid_set_id [OF lk g(2)] go by blast
      have ops: "\<forall>sop\<in>set ?sops. sem_num sop < sem_nsems (sets s sma)"
        using go by (auto simp: list_ex_iff linorder_not_le)
      show ?thesis
      proof (cases "list_ex (\<lambda>sop. sem_flg sop AND SEM_UNDO \<noteq> 0) ?sops")
        case plain: False
        then have "\<exists>s' r. semop_try ?l t sma semid ?sops None = Done (s', r) \<and> sem_ok s'"
          using ops by (intro semop_try_ok [OF lk aw sid [symmetric]]) (auto simp: list_ex_iff)
        then show ?thesis unfolding body using go plain by simp
      next
        case undo: True
        have wl: "task_wf ?l t" using lk(1) by (rule sem_inv_task)
        obtain s1 un where s1: "find_undo t semid (semundo (tasks ?l t)) ?l = (s1, un)" "sem_inv s1"
          "sem_ids s1 = sem_ids ?l" "sets s1 = sets ?l" "undos s1 = undos ?l" "\<not> semsleeping (tasks s1 t)"
          "\<forall>x. set (semundo (tasks s1 x)) \<subseteq> set (semundo (tasks ?l x))"
          "\<forall>u. un = Some u \<longrightarrow> u \<in> set (semundo (tasks s1 t)) \<and> un_semid (undos ?l u) = semid"
          using find_undo_ok [OF lk(1) aw order.refl task_wfD(1) [OF wl], of semid] by blast
        have l1: "live s1 (slot_of semid) sma" "set_id s1 (slot_of semid) sma = semid"
          using lk(2) sid by (simp_all add: live_def set_id_def s1(3,4))
        show ?thesis
        proof (cases un)
          case (Some u)
          have us: "u \<in> set (semundo (tasks s1 t))" "un_semid (undos s1 u) = semid" using s1(5,8) Some by auto
          then obtain j p where jp: "live s1 j p" "u \<in> set (sma_undo (sets s1 p))"
            using task_wfD(2) [OF sem_inv_task [OF s1(2)], of u t] g(2) by auto
          have "set_id s1 j p = semid" using sem_invD(3) [OF s1(2) jp] us(2) by (simp add: undo_wf_def)
          then have "j = slot_of semid" using set_id_slot(1) [OF s1(2) jp(1)] by (simp add: slot_of_def)
          then have "u \<in> set (sma_undo (sets s1 sma))" using jp l1(1) live_fun by blast
          then have "\<exists>s' r. semop_try s1 t sma semid ?sops (Some u) = Done (s', r) \<and> sem_ok s'"
            using ops us(1) by (intro semop_try_ok [OF s1(2) l1(1) s1(6) l1(2) [symmetric]]) (auto simp: s1(4))
          then show ?thesis unfolding body using go undo s1(1) Some by simp
        next
          case None
          have sup: "undo_supply env p s1"
            using assms(4) s1(7) by (fastforce simp: undo_supply_def fresh_undo_def)
          have gd: "good_id s1 semid" using g(1) by (simp add: good_id_def s1(3))
          show ?thesis
          proof (cases rule: alloc_undo_ok [OF s1(2) l1(1) gd s1(6) assms(3) sup, of "alters ?sops"])
            case (1 s' e)
            then show ?thesis unfolding body using go undo s1(1) None by simp
          next
            case (2 s' u)
            then have "\<exists>s'' r. semop_try s' t sma semid ?sops (Some u) = Done (s'', r) \<and> sem_ok s''"
              using ops by (intro semop_try_ok [OF 2(2,3,6) 2(4) [symmetric]]) (auto simp: s1(4))
            then show ?thesis unfolding body using go undo s1(1) None 2(1) by simp
          qed
        qed
      qed
    qed
  qed
qed

section \<open>Waking up\<close>

lemma awake_inv:
  assumes "sem_inv s" "\<not> q_prev (queues s t)"
  shows "sem_inv (task_at t (\<lambda>k. k\<lparr>semsleeping := False\<rparr>) s)" (is "sem_inv ?s'")
proof -
  define s' where "s' = ?s'"
  have eqs: "sem_ids s' = sem_ids s" "used_sems s' = used_sems s" "sem_ctls s' = sem_ctls s" "undos s' = undos s"
    "sets s' = sets s" "queues s' = queues s"
    "\<And>x. tasks s' x = (if x = t then (tasks s t)\<lparr>semsleeping := False\<rparr> else tasks s x)"
    by (auto simp: s'_def task_at_def)
  have lv: "live s' = live s" using eqs(1) by (rule live_cong)
  have sid: "set_id s' = set_id s" by (simp add: set_id_def eqs fun_eq_iff)
  have su: "semundo (tasks s' x) = semundo (tasks s x)" for x by (simp add: eqs)
  have "queued_wf s' j p x" if "live s j p" "x \<in> set (sem_pending (sets s p))" for j p x
  proof -
    have "queued_wf s j p x" using sem_invD(2) [OF assms(1) that] .
    moreover from this have "x \<noteq> t" using assms(2) by (auto simp: queued_wf_def Let_def)
    ultimately show ?thesis by (simp add: queued_wf_def Let_def sid su) (simp add: eqs)
  qed
  moreover have "task_wf s' x" for x
    using sem_inv_task [OF assms(1), of x] unfolding task_wf_def su lv eqs(4-6) by (auto simp: eqs(7))
  ultimately have "sem_inv s'"
    using sem_inv_ids [OF assms(1)] sem_inv_slot [OF assms(1)] sem_invD(1,3) [OF assms(1)]
    by (intro sem_invI) (simp_all add: eqs(1-6) lv set_wf_def undo_wf_def sid su total_sems_def)
  then show ?thesis by (simp only: s'_def)
qed

lemma linked_task:
  assumes "sem_inv s" "semsleeping (tasks s t)" "q_prev (queues s t)"
  shows "live s (slot_of (q_id (queues s t))) (q_sma (queues s t))"
    "t \<in> set (sem_pending (sets s (q_sma (queues s t))))"
proof -
  obtain i p where ip: "live s i p" "t \<in> set (sem_pending (sets s p))"
    using task_wfD(4) [OF sem_inv_task [OF assms(1)] assms(2,3)] by blast
  then have "q_sma (queues s t) = p" "q_id (queues s t) = set_id s i p"
    using sem_invD(2) [OF assms(1) ip] by (simp_all add: queued_wf_def Let_def)
  moreover have "slot_of (set_id s i p) = i"
    using set_id_slot(1) [OF assms(1) ip(1)] by (simp add: slot_of_def)
  ultimately show "live s (slot_of (q_id (queues s t))) (q_sma (queues s t))"
    "t \<in> set (sem_pending (sets s (q_sma (queues s t))))" using ip by simp_all
qed

text \<open>
  A process that was taken off the queue must find the set it slept on, unless it was told
  that the set is gone. \<open>semop_wake\<close> stops the machine otherwise.
\<close>

definition set_still_there :: "sem_state \<Rightarrow> nat \<Rightarrow> bool" where
  "set_still_there s t \<longleftrightarrow> (\<exists>p. live s (slot_of (q_id (queues s t))) p) \<or> q_status (queues s t) = Sem_err EIDRM"

lemma semop_wake_ok:
  assumes "sem_ok s" "semsleeping (tasks s t)" "good_id s (q_id (queues s t))" "set_still_there s t"
  shows "\<exists>s' r. semop_wake s t = Done (s', r) \<and> sem_ok s'"
proof -
  let ?q = "queues s t" and ?awake = "task_at t (\<lambda>k. k\<lparr>semsleeping := False\<rparr>)"
  have inv: "sem_inv s" "unlocked s" using assms(1) by (simp_all add: sem_ok_def)
  show ?thesis
  proof (cases rule: sem_lock_cases [OF inv assms(3)])
    case 1
    then have "\<not> q_prev ?q" "q_status ?q = Sem_err EIDRM"
      using linked_task(1) [OF inv(1) assms(2)] assms(4) by (auto simp: set_still_there_def)
    moreover have "sem_ok (?awake s)"
      using awake_inv [OF inv(1) calculation(1)] inv(2) by (simp add: sem_ok_def task_at_def)
    ultimately show ?thesis using 1(1) by (simp add: semop_wake_def Let_def)
  next
    case (2 p)
    let ?l = "locked s"
    have lk: "sem_inv ?l" using inv(1) by (rule locked_inv)
    have q: "queues ?l = queues s" "tasks ?l = tasks s" by simp_all
    note body = semop_wake_def Let_def 2(1) bind_outcome.simps prod.case option.case
    show ?thesis
    proof (cases "q_prev ?q")
      case False
      then have "q_status ?q \<noteq> Sem_block" using task_wfD(5) [OF sem_inv_task [OF inv(1)] assms(2)] by blast
      moreover have "sem_ok (sem_unlock (?awake ?l))" using awake_inv [OF lk] False by (intro sem_okI) simp
      ultimately show ?thesis unfolding body using False by simp
    next
      case linked: True
      have ll: "live ?l (slot_of (q_id ?q)) (q_sma ?q)" "t \<in> set (sem_pending (sets ?l (q_sma ?q)))"
        using linked_task [OF inv(1) assms(2) linked] by simp_all
      have leave: "\<exists>s' r. semop_finish (remove_from_queue (q_sma ?q) t (?awake s1)) (q_sma ?q) a e = Done (s', r) \<and> sem_ok s'"
        if "sem_frame ?l s1" for s1 a e
      proof -
        have i1: "sem_inv s1" using sem_frame_inv [OF that lk] .
        have l1: "live s1 (slot_of (q_id ?q)) (q_sma ?q)" "t \<in> set (sem_pending (sets s1 (q_sma ?q)))"
          using ll sem_frame_live [OF that] sem_frameD(17) [OF that] by simp_all
        have "sem_inv (remove_from_queue (q_sma ?q) t (?awake s1))" using unlink_inv [OF i1 l1, of False] by simp
        moreover have "live (remove_from_queue (q_sma ?q) t (?awake s1)) (slot_of (q_id ?q)) (q_sma ?q)"
          using l1(1) by (simp add: live_def remove_from_queue_def sem_updates)
        ultimately show ?thesis by (rule semop_finish_ok)
      qed
      show ?thesis
      proof (cases "q_status ?q = Sem_block")
        case False
        then show ?thesis unfolding body using linked leave [OF sem_frame_refl] by simp
      next
        case True
        have fit: "ops_fit (q_sops ?q) (length (sem_base (sets ?l (q_sma ?q)))) (adj_of ?l (q_undo ?q))"
          using queued_fit [OF lk ll] by simp
        obtain s1 r where s1: "semop_on (q_sma ?q) (q_sops ?q) (q_undo ?q) (pid (tasks ?l t)) False ?l = Done (s1, r)"
          "sem_frame ?l s1"
          by (rule semop_on_spec [OF fit, where who = "pid (tasks ?l t)" and do_undo = False]) blast
        have "sem_frame s1 (queue_at t (\<lambda>q. q\<lparr>q_status := Sem_err EINTR\<rparr>) s1)" by (rule sem_frame_status) simp
        then have "sem_ok (sem_unlock (queue_at t (\<lambda>q. q\<lparr>q_status := Sem_err EINTR\<rparr>) s1))"
          using sem_frame_inv sem_frame_trans [OF s1(2)] lk by (intro sem_okI) blast
        then show ?thesis unfolding body using True s1(1) leave [OF s1(2)] by (simp add: semop_sleep_def)
      qed
    qed
  qed
qed

section \<open>Process exit\<close>

text \<open>Going through a queue does not look at the processes' own data.\<close>

definition with_tasks :: "(nat \<Rightarrow> task) \<Rightarrow> sem_state outcome \<Rightarrow> sem_state outcome" where
  "with_tasks k m = bind_outcome m (\<lambda>s. Done (s\<lparr>tasks := k\<rparr>))"

lemma semop_on_tasks:
  "semop_on sma sops un who b (s\<lparr>tasks := k\<rparr>) =
     bind_outcome (semop_on sma sops un who b s) (\<lambda>(s, r). Done (s\<lparr>tasks := k\<rparr>, r))"
  by (cases "try_atomic_semop sops who b (sem_base (sets s sma), adj_of s un)")
    (auto simp: semop_on_def Let_def set_at_def undo_at_def split: option.splits)

lemma update_loop_tasks:
  "update_loop sma ts (s\<lparr>tasks := k\<rparr>) = with_tasks k (update_loop sma ts s)"
proof (induction ts arbitrary: s)
  case (Cons t ts)
  let ?q = "queues s t"
  show ?case
  proof (cases "semop_on sma (q_sops ?q) (q_undo ?q) (q_pid ?q) (q_alter ?q) s")
    case (Done x)
    obtain s1 r where x: "x = (s1, r)" by (cases x)
    have w: "wake_up_process t (s1\<lparr>tasks := k\<rparr>) = (wake_up_process t s1)\<lparr>tasks := k\<rparr>"
      "\<And>f s. queue_at t f (s\<lparr>tasks := k\<rparr>) = (queue_at t f s)\<lparr>tasks := k\<rparr>"
      "\<And>s. remove_from_queue sma t (s\<lparr>tasks := k\<rparr>) = (remove_from_queue sma t s)\<lparr>tasks := k\<rparr>"
      by (simp_all add: sem_updates remove_from_queue_def)
    show ?thesis using Done x Cons.IH by (simp add: Let_def semop_on_tasks w with_tasks_def)
  next
    case Bug
    then show ?thesis by (simp add: Let_def semop_on_tasks with_tasks_def)
  qed
qed (simp add: with_tasks_def)

lemma update_queue_tasks: "update_queue sma (s\<lparr>tasks := k\<rparr>) = with_tasks k (update_queue sma s)"
  by (simp add: update_queue_def update_loop_tasks)

text \<open>The undo structure leaves the lists of its set and of its process; values are adjusted.\<close>

lemma drop_undo_inv:
  assumes "sem_inv s" "live s i sma" "u \<in> set (sma_undo (sets s sma))" "u \<in> set (semundo (tasks s t))"
    "\<not> semsleeping (tasks s t)" "length base = length (sem_base (sets s sma))" "all_vals (\<lambda>v. 0 \<le> v) base"
  shows "sem_inv (s\<lparr>sets := (sets s)(sma := (sets s sma)\<lparr>sma_undo := remove1 u (sma_undo (sets s sma)),
      sem_base := base, sem_otime := tm\<rparr>),
    tasks := (tasks s)(t := (tasks s t)\<lparr>semundo := remove1 u (semundo (tasks s t))\<rparr>)\<rparr>)" (is "sem_inv ?s'")
proof -
  define s' where "s' = ?s'"
  have eqs: "sem_ids s' = sem_ids s" "used_sems s' = used_sems s" "sem_ctls s' = sem_ctls s" "undos s' = undos s"
    "queues s' = queues s"
    "\<And>p. sets s' p = (if p = sma then (sets s sma)\<lparr>sma_undo := remove1 u (sma_undo (sets s sma)),
        sem_base := base, sem_otime := tm\<rparr> else sets s p)"
    "\<And>x. tasks s' x = (if x = t then (tasks s t)\<lparr>semundo := remove1 u (semundo (tasks s t))\<rparr> else tasks s x)"
    by (auto simp: s'_def)
  have lv: "live s' = live s" using eqs(1) by (rule live_cong)
  have sid: "set_id s' = set_id s" by (auto simp: set_id_def eqs fun_eq_iff)
  have tot: "total_sems s' = total_sems s"
    unfolding total_sems_def eqs(1) by (rule arg_cong [where f = "\<lambda>f. table_sum f _"]) (auto simp: eqs)
  have same: "sem_pending (sets s' p) = sem_pending (sets s p)" "sem_nsems (sets s' p) = sem_nsems (sets s p)"
    "semsleeping (tasks s' x) = semsleeping (tasks s x)" for p x by (simp_all add: eqs)
  have dt: "distinct (semundo (tasks s t))" by (rule task_wfD(1) [OF sem_inv_task [OF assms(1)]])
  have ds: "distinct (sma_undo (sets s sma))" using sem_invD(1) [OF assms(1,2)] by (simp add: set_wf_def)
  have mine: "u \<notin> set (semundo (tasks s x))" if "x \<noteq> t" for x
    using task_wfD(3) [OF sem_inv_task [OF assms(1)] that assms(4)] .
  have tu: "v \<in> set (semundo (tasks s' x)) \<longleftrightarrow> v \<in> set (semundo (tasks s x)) \<and> v \<noteq> u" for v x
    using dt mine by (auto simp: eqs)
  have su: "v \<in> set (sma_undo (sets s' p)) \<longleftrightarrow> v \<in> set (sma_undo (sets s p)) \<and> v \<noteq> u" if "live s j p" for v p j
    using ds undo_owner(2) [OF assms(1-3) that] by (auto simp: eqs)
  have wf: "set_wf s' p" if "live s j p" for j p
    using sem_invD(1) [OF assms(1) that] assms(6,7) by (auto simp: set_wf_def eqs)
  have qw: "queued_wf s' j p x" if l: "live s j p" and x: "x \<in> set (sem_pending (sets s' p))" for j p x
  proof -
    have x': "x \<in> set (sem_pending (sets s p))" using x same by simp
    have w: "queued_wf s j p x" using sem_invD(2) [OF assms(1) l x'] .
    have "x \<noteq> t" using not_pending_awake [OF assms(1) l assms(5)] x' by blast
    then have "q_undo (queues s x) \<noteq> Some u" using w mine [of x] by (auto simp: queued_wf_def Let_def)
    then show ?thesis using w by (auto simp: queued_wf_def Let_def sid same eqs(5) tu su [OF l])
  qed
  have uw: "undo_wf s' j p v" if l: "live s j p" and v: "v \<in> set (sma_undo (sets s' p))" for j p v
    using sem_invD(3) [OF assms(1) l, of v] v su [OF l] by (auto simp: undo_wf_def sid same eqs(4) tu)
  have tw: "task_wf s' x" for x
  proof -
    note w = task_wfD [OF sem_inv_task [OF assms(1), of x]]
    show ?thesis
    proof (rule task_wfI)
      show "\<exists>j p. live s' j p \<and> v \<in> set (sma_undo (sets s' p))"
        if v: "v \<in> set (semundo (tasks s' x))" "un_semid (undos s' v) \<noteq> -1" for v
        using w(2) [of v] v su unfolding lv eqs(4) tu by blast
      show "distinct (semundo (tasks s' x))" using w(1) by (auto simp: eqs)
    qed (use w(3-6) in \<open>auto simp: tu lv same eqs(5)\<close>)
  qed
  have "sem_inv s'"
    using sem_inv_ids [OF assms(1)] sem_inv_slot [OF assms(1)] wf qw uw tw
    by (intro sem_invI) (auto simp: eqs(1-3) tot lv)
  then show ?thesis by (simp only: s'_def)
qed

lemma apply_adj_props:
  "length adj = length sems \<Longrightarrow> length (apply_adj who adj sems) = length sems"
  "all_vals (\<lambda>v. 0 \<le> v) (apply_adj who adj sems)"
  by (auto simp: apply_adj_def all_vals_def)

lemma undo_good_id:
  assumes "sem_inv s" "u \<in> set (semundo (tasks s t))" "un_semid (undos s u) \<noteq> -1"
  obtains p where "live s (slot_of (un_semid (undos s u))) p" "u \<in> set (sma_undo (sets s p))"
    "good_id s (un_semid (undos s u))" "\<not> sem_checkid s p (un_semid (undos s u))"
    "length (semadj (undos s u)) = length (sem_base (sets s p))"
proof -
  obtain i p where ip: "live s i p" "u \<in> set (sma_undo (sets s p))"
    using task_wfD(2) [OF sem_inv_task [OF assms(1)] assms(2,3)] by blast
  have w: "un_semid (undos s u) = set_id s i p" "length (semadj (undos s u)) = unat (sem_nsems (sets s p))"
    using sem_invD(3) [OF assms(1) ip] by (simp_all add: undo_wf_def)
  have len: "length (sem_base (sets s p)) = unat (sem_nsems (sets s p))"
    using sem_invD(1) [OF assms(1) ip(1)] by (simp add: set_wf_def)
  have sl: "slot_of (set_id s i p) = i"
    using set_id_slot(1) [OF assms(1) ip(1)] by (simp add: slot_of_def)
  have "good_id s (set_id s i p)"
    using set_id_slot(1,2) [OF assms(1) ip(1)] ip(1) ids_wf_size [OF sem_inv_ids(1) [OF assms(1)]]
    by (simp add: good_id_def live_def)
  then show thesis
    using that [of p] ip w len sl set_id_slot(3) [OF assms(1) ip(1)] by simp
qed

lemma sem_exit_loop_ok:
  assumes "sem_ok s" "\<not> semsleeping (tasks s t)" "semundo (tasks s t) = us"
  shows "\<exists>s'. sem_exit_loop t us s = Done s' \<and> sem_ok s' \<and> semundo (tasks s' t) = []"
  using assms
proof (induction us arbitrary: s)
  case (Cons u us)
  let ?free = "task_at t (\<lambda>k. k\<lparr>semundo := remove1 u (semundo k)\<rparr>)"
  have inv: "sem_inv s" "unlocked s" using Cons.prems(1) by (simp_all add: sem_ok_def)
  have u: "u \<in> set (semundo (tasks s t))" "u \<notin> set us"
    using Cons.prems(3) task_wfD(1) [OF sem_inv_task [OF inv(1)], of t] by auto
  have go: "\<exists>s'. sem_exit_loop t us s1 = Done s' \<and> sem_ok s' \<and> semundo (tasks s' t) = []"
    if "sem_ok s1" "\<not> semsleeping (tasks s1 t)" "semundo (tasks s1 t) = us" for s1
    using Cons.IH [OF that] .
  show ?case
  proof (cases "un_semid (undos s u) = -1")
    case True
    have "u \<noteq> v" if "live s i p" "v \<in> set (sma_undo (sets s p))" for i p v
      using sem_invD(3) [OF inv(1) that] set_id_nonneg [OF inv(1) that(1)] True by (auto simp: undo_wf_def)
    then have "sem_inv (?free s)"
      unfolding task_at_def using inv(1) Cons.prems(2,3) task_wfD(1) [OF sem_inv_task [OF inv(1)], of t]
      by (intro task_undo_inv) auto
    then have "sem_ok (?free s)" using inv(2) by (simp add: sem_ok_def task_at_def)
    then show ?thesis using True go [of "?free s"] Cons.prems(2,3) by (simp add: task_at_def)
  next
    case False
    obtain p where p: "live s (slot_of (un_semid (undos s u))) p" "u \<in> set (sma_undo (sets s p))"
      "good_id s (un_semid (undos s u))" "\<not> sem_checkid s p (un_semid (undos s u))"
      "length (semadj (undos s u)) = length (sem_base (sets s p))"
      using undo_good_id [OF inv(1) u(1) False] .
    have lock: "sem_lock s (un_semid (undos s u)) = Done (locked s, Some p)"
      by (cases rule: sem_lock_cases [OF inv p(3)]) (use p(1) live_fun in auto)
    let ?l = "locked s"
    let ?base = "apply_adj (pid (tasks s t)) (semadj (undos s u)) (sem_base (sets s p))"
    let ?k = "(tasks s)(t := (tasks s t)\<lparr>semundo := remove1 u (semundo (tasks s t))\<rparr>)"
    let ?sets = "(sets s)(p := (sets s p)\<lparr>sma_undo := remove1 u (sma_undo (sets s p)), sem_base := ?base, sem_otime := now s\<rparr>)"
    let ?m = "?l\<lparr>sets := ?sets\<rparr>" and ?g = "?l\<lparr>sets := ?sets, tasks := ?k\<rparr>"
    have "sem_inv ?g"
      using drop_undo_inv [OF locked_inv [OF inv(1)], of "slot_of (un_semid (undos s u))" p u t ?base "now s"]
        p u Cons.prems(2) apply_adj_props by simp
    moreover have "live ?g (slot_of (un_semid (undos s u))) p" using p(1) by (simp add: live_def)
    ultimately obtain s2 where s2: "update_queue p ?g = Done s2" "sem_inv s2" "sem_ids s2 = sem_ids ?g" "tasks s2 = tasks ?g"
      using update_queue_inv by blast
    have "?m = ?g\<lparr>tasks := tasks s\<rparr>" by simp
    then have mid: "update_queue p ?m = Done (s2\<lparr>tasks := tasks s\<rparr>)"
      using update_queue_tasks [where sma = p and s = ?g and k = "tasks s"] s2(1) by (simp add: with_tasks_def)
    have fin: "?free (sem_unlock (s2\<lparr>tasks := tasks s\<rparr>)) = sem_unlock s2"
      using s2(4) by (simp add: task_at_def sem_unlock_def)
    have "sem_exit_loop t (u # us) s = sem_exit_loop t us (sem_unlock s2)"
      using False lock p(2,4) mid fin
      by (simp add: Let_def set_at_def sem_checkid_def)
    moreover have "tasks (sem_unlock s2) = ?k" using s2(4) by (simp add: sem_unlock_def)
    ultimately show ?thesis
      using go [OF sem_okI [OF s2(2)]] Cons.prems(2,3) by simp
  qed
qed simp

lemma sem_exit_ok:
  assumes "sem_ok s" "semsleeping (tasks s t) \<longrightarrow> good_id s (q_id (queues s t))"
  shows "\<exists>s'. sem_exit t s = Done s' \<and> sem_ok s' \<and> semundo (tasks s' t) = []"
proof -
  let ?q = "queues s t" and ?awake = "task_at t (\<lambda>k. k\<lparr>semsleeping := False\<rparr>)"
  have inv: "sem_inv s" "unlocked s" using assms(1) by (simp_all add: sem_ok_def)
  have rest: "\<exists>s'. bind_outcome (sem_exit_loop t (semundo (tasks s1 t)) s1) (\<lambda>s. Done (task_at t (\<lambda>k. k\<lparr>semundo := []\<rparr>) s)) =
      Done s' \<and> sem_ok s' \<and> semundo (tasks s' t) = []" if s1: "sem_ok s1" "\<not> semsleeping (tasks s1 t)" for s1
  proof -
    obtain s' where s': "sem_exit_loop t (semundo (tasks s1 t)) s1 = Done s'" "sem_ok s'" "semundo (tasks s' t) = []"
      using sem_exit_loop_ok [OF s1 refl] by blast
    then have "task_at t (\<lambda>k. k\<lparr>semundo := []\<rparr>) s' = s'" by (intro task_at_same) (cases "tasks s' t", simp)
    then show ?thesis using s' by simp
  qed
  show ?thesis
  proof (cases "semsleeping (tasks s t)")
    case False
    then show ?thesis using rest [OF assms(1)] by (simp add: sem_exit_def)
  next
    case True
    then have g: "good_id s (q_id ?q)" using assms(2) by simp
    show ?thesis
    proof (cases rule: sem_lock_cases [OF inv g])
      case 1
      then have np: "\<not> q_prev ?q" using linked_task(1) [OF inv(1) True] by blast
      have "sem_ok (?awake s)" using awake_inv [OF inv(1) np] inv(2) by (simp add: sem_ok_def task_at_def)
      from rest [OF this] show ?thesis using 1(1) True np by (simp add: sem_exit_def Let_def task_at_def)
    next
      case (2 p)
      let ?s1 = "if q_prev ?q then remove_from_queue (q_sma ?q) t (?awake (locked s)) else ?awake (locked s)"
      have "sem_inv ?s1"
      proof (cases "q_prev ?q")
        case linked: True
        have "live (locked s) (slot_of (q_id ?q)) (q_sma ?q)" "t \<in> set (sem_pending (sets (locked s) (q_sma ?q)))"
          using linked_task [OF inv(1) True linked] by simp_all
        from unlink_inv [OF locked_inv [OF inv(1)] this, of False] show ?thesis using linked by simp
      next
        case False
        then show ?thesis using awake_inv [OF locked_inv [OF inv(1)], of t] by simp
      qed
      then have "sem_ok (sem_unlock ?s1)" by (rule sem_okI)
      moreover have "\<not> semsleeping (tasks (sem_unlock ?s1) t)"
        by (simp add: sem_unlock_def remove_from_queue_def sem_updates)
      ultimately show ?thesis using rest [of "sem_unlock ?s1"] 2(1) True by (simp add: sem_exit_def Let_def)
    qed
  qed
qed

end
