(* ===== verification/Ipc_Sem_Runs.thy ===== *)
theory Ipc_Sem_Runs
  imports Ipc_Sem_Ops
begin

text \<open>
  Histories of a system of processes that use semaphores: any sequence of calls, wake-ups and
  exits from the state after boot. The theory states the properties of the component: the
  invariant along every history, when calls complete, what a new identifier is good for, which
  sleepers a change of values reaches, and the cases in which the code fails.
\<close>

section \<open>Histories\<close>

text \<open>The state before \<open>sem_init\<close>: nothing allocated, all processes awake without undo lists.\<close>

definition sem_boot :: sem_state where
  "sem_boot =
     \<lparr>sem_ids = \<lparr>ids_size = 0, in_use = 0, max_id = 0, ids_seq = 0, seq_max = 0, ary = False, entries = []\<rparr>,
      sem_ctls = default_sem_ctls, used_sems = 0,
      sets = (\<lambda>_. \<lparr>sem_perm = \<lparr>key = 0, uid = 0, gid = 0, cuid = 0, cgid = 0, mode = 0, seq = 0\<rparr>,
        sem_otime = 0, sem_ctime = 0, sem_base = [], sem_pending = [], sma_undo = [], sem_nsems = 0\<rparr>),
      undos = (\<lambda>_. \<lparr>un_semid = -1, semadj = []\<rparr>),
      queues = (\<lambda>_. \<lparr>q_undo = None, q_pid = 0, q_status = Sem_ok, q_sma = 0, q_id = 0, q_sops = [],
        q_alter = False, q_prev = False\<rparr>),
      tasks = (\<lambda>t. \<lparr>euid = 0, egid = 0, fsgid = 0, groups = [], cap_effective = 0,
        pid = of_nat t, semundo = [], semsleeping = False\<rparr>),
      woken = [], now = 0, cap_bset = - 1\<rparr>"

datatype sem_call =
    Call_get nat int int ulong "addr option" bool
  | Call_ctl "sem_state \<Rightarrow> sem_state" bool nat int int sem_cmd semun
  | Call_op "sem_state \<Rightarrow> sem_state" bool "addr option" nat int "(nat \<Rightarrow> sembuf) option" nat
  | Call_wake nat
  | Call_exit nat

fun run_call :: "sem_call \<Rightarrow> sem_state \<Rightarrow> sem_state outcome" where
  "run_call (Call_get t k n f p m) s = bind_outcome (sys_semget s t k n f p m) (\<lambda>(s, _). Done s)"
| "run_call (Call_ctl env m t x i c a) s = bind_outcome (sys_semctl env m s t x i c a) (\<lambda>(s, _). Done s)"
| "run_call (Call_op env m p t x ops n) s = bind_outcome (semop_start env m p s t x ops n) (\<lambda>(s, _). Done s)"
| "run_call (Call_wake t) s = bind_outcome (semop_wake s t) (\<lambda>(s, _). Done s)"
| "run_call (Call_exit t) s = sem_exit t s"

text \<open>
  What can happen: allocations return unused memory, other processes obey \<open>interference\<close>, only
  a process that is awake calls, and only a sleeper wakes up.
\<close>

fun possible :: "sem_call \<Rightarrow> sem_state \<Rightarrow> bool" where
  "possible (Call_get t k n f p m) s \<longleftrightarrow> (\<forall>a. p = Some a \<longrightarrow> unused s a)"
| "possible (Call_ctl env m t x i c a) s \<longleftrightarrow> interference env t"
| "possible (Call_op env m p t x ops n) s \<longleftrightarrow>
     interference env t \<and> undo_supply env p s \<and> \<not> semsleeping (tasks s t)"
| "possible (Call_wake t) s \<longleftrightarrow> semsleeping (tasks s t)"
| "possible (Call_exit t) s \<longleftrightarrow> True"

text \<open>
  The calls the code can carry out: the slot of the identifier is not just past the end of the
  array, and a process that wakes up finds its set or was told that it is gone.
\<close>

fun supported :: "sem_call \<Rightarrow> sem_state \<Rightarrow> bool" where
  "supported (Call_get t k n f p m) s \<longleftrightarrow> True"
| "supported (Call_ctl env m t x i c a) s \<longleftrightarrow> x < 0 \<or> good_id s x"
| "supported (Call_op env m p t x ops n) s \<longleftrightarrow> x < 0 \<or> good_id s x"
| "supported (Call_wake t) s \<longleftrightarrow> good_id s (q_id (queues s t)) \<and> set_still_there s t"
| "supported (Call_exit t) s \<longleftrightarrow> semsleeping (tasks s t) \<longrightarrow> good_id s (q_id (queues s t))"

inductive sem_history :: "sem_state \<Rightarrow> bool" where
  boot: "sem_init sem_boot True = Done s \<Longrightarrow> sem_history s"
| call: "sem_history s \<Longrightarrow> possible c s \<Longrightarrow> run_call c s = Done s' \<Longrightarrow> sem_history s'"

section \<open>Calls that are not supported\<close>

lemma sem_lock_bad: "sem_ok s \<Longrightarrow> 0 \<le> semid \<Longrightarrow> \<not> good_id s semid \<Longrightarrow> sem_lock s semid = Bug"
  using sem_table.lock_past_end sem_inv_ids(1) by (simp add: sem_ok_def good_id_table)

text \<open>Without the lock a call changes nothing, or it does not return.\<close>

lemma semctl_bad:
  assumes "sem_lock s x = Bug" "sys_semctl env m s t x i c a = Done (s', r, out)"
  shows "s' = s"
  using assms
  by (auto simp: sys_semctl_def semctl_nolock_def semctl_main_def semctl_down_def copy_out_def Let_def
      split: if_splits)

lemma semop_start_bad:
  assumes "sem_lock s x = Bug" "semop_start env m p s t x ops n = Done (s', r)"
  shows "s' = s"
  using assms by (auto simp: semop_start_def Let_def split: if_splits option.splits)

lemma wake_Done:
  assumes "sem_ok s" "semsleeping (tasks s t)" "semop_wake s t = Done x"
  shows "good_id s (q_id (queues s t))" "set_still_there s t"
proof -
  have inv: "sem_inv s" "unlocked s" using assms(1) by (simp_all add: sem_ok_def)
  have "0 \<le> q_id (queues s t)" using task_wfD(6) [OF sem_inv_task [OF inv(1)] assms(2)] .
  then have "\<not> good_id s (q_id (queues s t)) \<Longrightarrow> sem_lock s (q_id (queues s t)) = Bug"
    by (rule sem_lock_bad [OF assms(1)])
  then have "\<not> good_id s (q_id (queues s t)) \<Longrightarrow> semop_wake s t = Bug" by (simp add: semop_wake_def Let_def)
  then show g: "good_id s (q_id (queues s t))" using assms(3) by fastforce
  show "set_still_there s t"
    by (cases rule: sem_lock_cases [OF inv g])
      (use assms(3) in \<open>auto simp: semop_wake_def Let_def set_still_there_def split: if_splits\<close>)
qed

lemma exit_good:
  assumes "sem_ok s" "sem_exit t s = Done x" "semsleeping (tasks s t)"
  shows "good_id s (q_id (queues s t))"
proof (rule ccontr)
  assume bad: "\<not> good_id s (q_id (queues s t))"
  have "0 \<le> q_id (queues s t)"
    using task_wfD(6) [OF sem_inv_task assms(3)] assms(1) by (simp add: sem_ok_def)
  then have "sem_lock s (q_id (queues s t)) = Bug" using sem_lock_bad [OF assms(1) _ bad] by simp
  then show False using assms(2,3) by (simp add: sem_exit_def Let_def)
qed

lemma call_completes:
  assumes "sem_ok s" "possible c s" "supported c s"
  shows "\<exists>s'. run_call c s = Done s' \<and> sem_ok s'"
proof (cases c)
  case (Call_get t k n f p m)
  then show ?thesis using semget_ok [OF assms(1), of p t k n f m] assms(2) by auto
next
  case (Call_ctl env m t x i cm a)
  then show ?thesis using semctl_ok [OF assms(1), of x env t m i cm a] assms(2,3) by auto
next
  case (Call_op env m p t x ops n)
  then show ?thesis using semop_start_ok [OF assms(1), of x env t p m ops n] assms(2,3) by auto
next
  case (Call_wake t)
  then show ?thesis using semop_wake_ok [OF assms(1), of t] assms(2,3) by auto
next
  case (Call_exit t)
  then show ?thesis using sem_exit_ok [OF assms(1), of t] assms(3) by auto
qed

lemma call_keeps:
  assumes "sem_ok s" "possible c s" "run_call c s = Done s'"
  shows "sem_ok s'"
proof (cases "supported c s")
  case True
  then show ?thesis using call_completes [OF assms(1,2)] assms(3) by auto
next
  case False
  show ?thesis
  proof (cases c)
    case (Call_ctl env m t x i cm a)
    then have "sem_lock s x = Bug" using False sem_lock_bad [OF assms(1)] by auto
    then show ?thesis using semctl_bad assms(1,3) Call_ctl by fastforce
  next
    case (Call_op env m p t x ops n)
    then have "sem_lock s x = Bug" using False sem_lock_bad [OF assms(1)] by auto
    then show ?thesis using semop_start_bad assms(1,3) Call_op by fastforce
  next
    case (Call_wake t)
    then show ?thesis using wake_Done [OF assms(1), of t] assms(2,3) False by auto
  next
    case (Call_exit t)
    then show ?thesis using exit_good [OF assms(1), of t] assms(3) False by auto
  qed (use False in simp)
qed

lemma boot_ok: "sem_init sem_boot True = Done s \<Longrightarrow> sem_ok s"
proof -
  assume "sem_init sem_boot True = Done s"
  then have s: "s = sem_boot\<lparr>sem_ids := \<lparr>ids_size = 128, in_use = 0, max_id = -1, ids_seq = 0, seq_max = 0xffff,
      ary = False, entries = replicate 128 None\<rparr>\<rparr>"
    by (simp add: sem_init_def sem_boot_def ipc_init_ids_def default_sem_ctls_def SEMMNI_def ipc_limits Let_def)
  have dead: "\<not> live s i p" for i p by (auto simp: s live_def)
  have "ids_wf (sem_ids s)" by (simp add: s ids_wf_def used_slots_def top_slot_def ipc_limits)
  moreover have "used_sems s = total_sems s"
    by (simp add: s total_sems_def sem_boot_def table_sum_def sum_list_replicate)
  moreover have "task_wf s t" for t by (rule task_wfI) (simp_all add: s sem_boot_def)
  ultimately have "sem_inv s"
    by (intro sem_invI) (simp_all add: dead, simp_all add: s sem_boot_def default_sem_ctls_def SEMMSL_def SEMMNI_def)
  then show "sem_ok s" by (simp add: sem_ok_def s)
qed

lemma history_ok: "sem_history s \<Longrightarrow> sem_ok s"
  by (induction rule: sem_history.induct) (auto intro: boot_ok call_keeps)

section \<open>Running a list of calls\<close>

text \<open>Calls during which nothing else happens, with the conditions of \<open>possible\<close> in executable form.\<close>

fun undisturbed :: "sem_call \<Rightarrow> bool" where
  "undisturbed (Call_ctl env m t x i c a) \<longleftrightarrow> env = id"
| "undisturbed (Call_op env m p t x ops n) \<longleftrightarrow> env = id \<and> p = None"
| "undisturbed c \<longleftrightarrow> True"

fun simply_possible :: "sem_call \<Rightarrow> sem_state \<Rightarrow> bool" where
  "simply_possible (Call_get t k n f p m) s \<longleftrightarrow> p = None \<or> p \<notin> set (entries (sem_ids s))"
| "simply_possible (Call_op env m p t x ops n) s \<longleftrightarrow> \<not> semsleeping (tasks s t)"
| "simply_possible (Call_wake t) s \<longleftrightarrow> semsleeping (tasks s t)"
| "simply_possible c s \<longleftrightarrow> True"

fun run_calls :: "sem_call list \<Rightarrow> sem_state \<Rightarrow> sem_state outcome" where
  "run_calls [] s = Done s"
| "run_calls (c # cs) s =
     (if simply_possible c s then bind_outcome (run_call c s) (run_calls cs) else Bug)"

lemma interference_id: "interference id t"
  by (simp add: interference_def)

lemma simply_possible: "undisturbed c \<Longrightarrow> simply_possible c s \<Longrightarrow> possible c s"
  by (cases c) (auto simp: unused_def interference_id undo_supply_def)

lemma run_calls_history:
  "sem_history s \<Longrightarrow> list_all undisturbed cs \<Longrightarrow> run_calls cs s = Done s' \<Longrightarrow> sem_history s'"
proof (induction cs arbitrary: s)
  case (Cons c cs)
  then show ?case by (auto split: if_splits intro: sem_history.call simply_possible)
qed simp

definition booted :: "sem_state outcome" where
  "booted = sem_init sem_boot True"

definition one_op :: "nat \<Rightarrow> 16 word \<Rightarrow> 16 word \<Rightarrow> sem_call" where
  "one_op t n d = Call_op id True None t 0 (Some (\<lambda>_. \<lparr>sem_num = n, sem_op = d, sem_flg = 0\<rparr>)) 1"

definition set_val :: "nat \<Rightarrow> int \<Rightarrow> int \<Rightarrow> sem_call" where
  "set_val t n v = Call_ctl id True t 0 n SETVAL \<lparr>arg_val = v, arg_array = None, arg_buf = None, arg_writable = True\<rparr>"

definition remove_set :: "nat \<Rightarrow> sem_call" where
  "remove_set t = Call_ctl id True t 0 0 IPC_RMID \<lparr>arg_val = 0, arg_array = None, arg_buf = None, arg_writable = True\<rparr>"

lemma booted_history:
  "bind_outcome booted (run_calls cs) = Done s \<Longrightarrow> list_all undisturbed cs \<Longrightarrow> sem_history s"
  by (auto simp: booted_def intro: run_calls_history sem_history.boot)

text \<open>
  Process 1 waits until it can decrease semaphore 1. Process 2 waits until semaphore 0 is zero,
  to increase semaphore 1 then. Process 3 makes semaphore 0 zero.
\<close>

definition lost_wakeup_calls :: "sem_call list" where
  "lost_wakeup_calls = [Call_get 9 IPC_PRIVATE 2 0x1ff (Some 0) True, set_val 9 0 1, one_op 1 1 (-1),
     Call_op id True None 2 0 (Some (\<lambda>i. if i = 0 then \<lparr>sem_num = 0, sem_op = 0, sem_flg = 0\<rparr>
       else \<lparr>sem_num = 1, sem_op = 1, sem_flg = 0\<rparr>)) 2,
     one_op 3 0 (-1), Call_wake 2]"

text \<open>
  Process 1 waits until the semaphore is zero, process 2 makes it zero and removes the set
  before process 1 runs.
\<close>

definition removed_set_calls :: "sem_call list" where
  "removed_set_calls = [Call_get 9 IPC_PRIVATE 1 0x1ff (Some 0) True, set_val 9 0 1, one_op 1 0 0,
     one_op 2 0 (-1), remove_set 2]"

section \<open>Properties\<close>

text \<open>
  C5: The semaphore tables are consistent along every history. After any sequence of
  \<open>semget\<close>, \<open>semctl\<close>, \<open>semop\<close>, wake-ups and exits that return, the counters of the identifier
  array and \<open>used_sems\<close> agree with the sets, no value is negative, every linked queue entry and
  undo structure belongs to a live set and to its process, and the spinlock is released.
\<close>

theorem sem_history_consistent: "sem_history s \<Longrightarrow> sem_inv s \<and> unlocked s"
  using history_ok by (simp add: sem_ok_def)

theorem sem_history_consistent_witness:
  "\<exists>s. bind_outcome booted (run_calls [Call_get 9 IPC_PRIVATE 2 0x1ff (Some 0) True, one_op 1 1 (-1)]) = Done s \<and>
     sem_inv s \<and> unlocked s \<and> semsleeping (tasks s 1)"
proof -
  let ?cs = "[Call_get 9 IPC_PRIVATE 2 0x1ff (Some 0) True, one_op 1 1 (-1)]"
  have "case bind_outcome booted (run_calls ?cs) of Bug \<Rightarrow> False | Done s \<Rightarrow> semsleeping (tasks s 1)"
    by code_simp
  then obtain s where s: "bind_outcome booted (run_calls ?cs) = Done s" "semsleeping (tasks s 1)"
    by (rule outcome_caseE)
  have "sem_history s" by (rule booted_history [OF s(1)]) (simp add: one_op_def)
  then show ?thesis using sem_history_consistent [of s] s by blast
qed





text \<open>
  C37: A wake-up is lost when a queued process combines a wait for zero with an increase: a
  history leads to a state in which process 1 sleeps in the queue, has not been woken or told
  to try again, and could carry out its operation, while nobody else is queued.
\<close>

theorem semop_lost_wakeup:
  "\<exists>s. sem_history s \<and> semsleeping (tasks s 1) \<and> sem_pending (sets s 0) = [1] \<and> 1 \<notin> set (woken s) \<and>
     q_status (queues s 1) \<noteq> Sem_block \<and> sem_outcome (q_sops (queues s 1)) (vals s 0) = Sem_ok"
proof -
  have "case bind_outcome booted (run_calls lost_wakeup_calls) of Bug \<Rightarrow> False
    | Done s \<Rightarrow> semsleeping (tasks s 1) \<and> sem_pending (sets s 0) = [1] \<and> 1 \<notin> set (woken s) \<and>
        q_status (queues s 1) \<noteq> Sem_block \<and> sem_outcome (q_sops (queues s 1)) (vals s 0) = Sem_ok"
    by code_simp
  moreover have "list_all undisturbed lost_wakeup_calls"
    by (simp add: lost_wakeup_calls_def one_op_def set_val_def)
  ultimately show ?thesis
    using booted_history [of lost_wakeup_calls]
    by (cases "bind_outcome booted (run_calls lost_wakeup_calls)") auto
qed

text \<open>
  C38: A process whose operation was completed by another process, and whose set is removed
  before it runs again, stops the machine when it wakes up: a history leads to such a sleeper,
  already woken, whose wake-up ends in the \<open>BUG\<close> check of \<open>sys_semop\<close>.
\<close>

theorem semop_wake_after_removal:
  "\<exists>s. sem_history s \<and> semsleeping (tasks s 1) \<and> 1 \<in> set (woken s) \<and> run_call (Call_wake 1) s = Bug"
proof -
  have "case bind_outcome booted (run_calls removed_set_calls) of Bug \<Rightarrow> False
    | Done s \<Rightarrow> semsleeping (tasks s 1) \<and> 1 \<in> set (woken s) \<and>
        (case run_call (Call_wake 1) s of Bug \<Rightarrow> True | Done _ \<Rightarrow> False)"
    by code_simp
  moreover have "list_all undisturbed removed_set_calls"
    by (simp add: removed_set_calls_def one_op_def set_val_def remove_set_def)
  ultimately show ?thesis
    using booted_history [of removed_set_calls]
    by (cases "bind_outcome booted (run_calls removed_set_calls)") (fastforce split: outcome.splits)+
qed

text \<open>
  An identifier whose slot is the size of the array makes \<open>sys_semop\<close> read past the end
  of the array, for every caller and in every state a history reaches.
\<close>

theorem semop_reads_past_array:
  assumes "sem_history s" "0 \<le> x" "x mod SEQ_MULTIPLIER = ids_size (sem_ids s)"
    "1 \<le> n" "n \<le> sc_semopm (sem_ctls s)" "n \<le> SEMOPM_FAST"
  shows "semop_start env mem_ok p s t x (Some ops) n = Bug"
proof -
  have "sem_lock s x = Bug" using assms(1-3) by (intro sem_lock_bad history_ok) (simp_all add: good_id_def)
  then show ?thesis using assms(2,4-6) by (simp add: semop_start_def Let_def)
qed

theorem semop_reads_past_array_witness:
  "\<exists>s. booted = Done s \<and> semop_start id True None s 1 128 (Some (\<lambda>_. \<lparr>sem_num = 0, sem_op = 1, sem_flg = 0\<rparr>)) 1 = Bug"
proof -
  have "\<exists>s. booted = Done s \<and> ids_size (sem_ids s) = 128 \<and> sc_semopm (sem_ctls s) = 32"
    by (simp add: booted_def sem_init_def sem_boot_def ipc_init_ids_def default_sem_ctls_def
        SEMMNI_def SEMOPM_def ipc_limits Let_def)
  then obtain s where s: "booted = Done s" "ids_size (sem_ids s) = 128" "sc_semopm (sem_ctls s) = 32" by blast
  then have "sem_history s" by (auto simp: booted_def intro: sem_history.boot)
  then show ?thesis
    using semop_reads_past_array [of s 128 1] s by (auto simp: ipc_limits SEMOPM_FAST_def)
qed



end
