(* ===== verification/Ipc_Text.thy ===== *)
theory Ipc_Text
  imports Ipc_Ids
begin

text \<open>
  How \<open>ipc/msg.c\<close> keeps the text of a message: the first part behind the header, in the same page,
  and the rest in a list of segments of at most a page each. \<open>load_msg\<close> copies a text from user memory
  into such a list and \<open>store_msg\<close> copies it back. The user's buffer is the list of the bytes that
  can be read, or the number of bytes that can be written; \<open>mem\<close> is the number of allocations that
  will succeed. The theory shows that a text that was loaded is stored unchanged, for every length,
  and that the walk along the segments never runs off their end.
\<close>

definition DATALEN_MSG :: nat where "DATALEN_MSG = 4096 - 20"
definition DATALEN_SEG :: nat where "DATALEN_SEG = 4096 - 4"

function load_segs :: "nat \<Rightarrow> 8 word list \<Rightarrow> nat \<Rightarrow> errno + 8 word list list" where
  "load_segs mem src len =
     (if len > 0 then
        let alen = (if len > DATALEN_SEG then DATALEN_SEG else len)
        in if mem = 0 then Inl ENOMEM
           else if length src < alen then Inl EFAULT
           else (case load_segs (mem - 1) (drop alen src) (len - alen) of
                   Inl e \<Rightarrow> Inl e
                 | Inr segs \<Rightarrow> Inr (take alen src # segs))
      else Inr [])"
  by pat_completeness auto
termination
  by (relation "measure (\<lambda>(mem, src, len). len)") (auto simp: DATALEN_SEG_def)

declare load_segs.simps [simp del]

definition load_msg :: "nat \<Rightarrow> 8 word list \<Rightarrow> nat \<Rightarrow> errno + 8 word list list" where
  "load_msg mem src len =
     (let alen = (if len > DATALEN_MSG then DATALEN_MSG else len)
      in if mem = 0 then Inl ENOMEM
         else if length src < alen then Inl EFAULT
         else (case load_segs (mem - 1) (drop alen src) (len - alen) of
                 Inl e \<Rightarrow> Inl e
               | Inr segs \<Rightarrow> Inr (take alen src # segs)))"

text \<open>
  The text that is written, or \<open>None\<close> when the user's buffer cannot take it. Reading past the end of
  a segment or of the list of segments is \<open>Bug\<close>.
\<close>

fun store_segs :: "nat \<Rightarrow> 8 word list list \<Rightarrow> nat \<Rightarrow> 8 word list option outcome" where
  "store_segs room segs len =
     (if len > 0 then
        (case segs of
           [] \<Rightarrow> Bug
         | seg # segs \<Rightarrow>
             let alen = (if len > DATALEN_SEG then DATALEN_SEG else len)
             in if length seg < alen then Bug
                else if room < alen then Done None
                else bind_outcome (store_segs (room - alen) segs (len - alen)) (\<lambda>rest.
                       Done (map_option (\<lambda>bytes. take alen seg @ bytes) rest)))
      else Done (Some []))"

declare store_segs.simps [simp del]

definition store_msg :: "nat \<Rightarrow> 8 word list list \<Rightarrow> nat \<Rightarrow> 8 word list option outcome" where
  "store_msg room msg len =
     (case msg of
        [] \<Rightarrow> Bug
      | head # segs \<Rightarrow>
          let alen = (if len > DATALEN_MSG then DATALEN_MSG else len)
          in if length head < alen then Bug
             else if room < alen then Done None
             else bind_outcome (store_segs (room - alen) segs (len - alen)) (\<lambda>rest.
                    Done (map_option (\<lambda>bytes. take alen head @ bytes) rest)))"

section \<open>The parts of a text\<close>

text \<open>The parts a text of a given length is cut into.\<close>

function seg_parts :: "8 word list \<Rightarrow> 8 word list list" where
  "seg_parts bytes = (if bytes = [] then [] else take DATALEN_SEG bytes # seg_parts (drop DATALEN_SEG bytes))"
  by pat_completeness auto
termination
  by (relation "measure length") (auto simp: DATALEN_SEG_def)

declare seg_parts.simps [simp del]

definition msg_parts :: "8 word list \<Rightarrow> 8 word list list" where
  "msg_parts bytes = take DATALEN_MSG bytes # seg_parts (drop DATALEN_MSG bytes)"

lemma load_segs_parts: "load_segs mem src len = Inr segs \<Longrightarrow> len \<le> length src \<and> segs = seg_parts (take len src)"
proof (induction mem src len arbitrary: segs rule: load_segs.induct)
  case (1 mem src len)
  show ?case
  proof (cases "len = 0")
    case True
    then show ?thesis using 1(2) by (simp add: load_segs.simps seg_parts.simps)
  next
    case False
    define alen where "alen = (if len > DATALEN_SEG then DATALEN_SEG else len)"
    have a: "0 < alen" "alen \<le> len" using False by (auto simp: alen_def DATALEN_SEG_def)
    obtain rest where r: "mem \<noteq> 0" "alen \<le> length src" "load_segs (mem - 1) (drop alen src) (len - alen) = Inr rest"
      "segs = take alen src # rest"
      using 1(2) False unfolding load_segs.simps [of mem src len] alen_def [symmetric]
      by (auto simp: Let_def split: if_splits sum.splits)
    have ih: "len - alen \<le> length (drop alen src) \<and> rest = seg_parts (take (len - alen) (drop alen src))"
      using 1(1) [of alen rest] r False unfolding alen_def by simp
    have cut: "take DATALEN_SEG (take len src) = take alen src" "drop DATALEN_SEG (take len src) = take (len - alen) (drop alen src)"
      using a by (auto simp: alen_def drop_take min_def)
    have "seg_parts (take len src) = take alen src # seg_parts (take (len - alen) (drop alen src))"
      using False a r(2) cut by (subst seg_parts.simps) auto
    then show ?thesis using ih r by auto
  qed
qed

lemma load_msg_parts: "load_msg mem src len = Inr msg \<Longrightarrow> len \<le> length src \<and> msg = msg_parts (take len src)"
  unfolding load_msg_def msg_parts_def
  by (cases "len > DATALEN_MSG")
    (auto simp: Let_def drop_take min_def split: if_splits sum.splits dest!: load_segs_parts)

lemma load_segs_enough:
  "len \<le> length src \<Longrightarrow> len \<le> mem * DATALEN_SEG \<Longrightarrow> load_segs mem src len = Inr (seg_parts (take len src))"
proof (induction mem src len rule: load_segs.induct)
  case (1 mem src len)
  show ?case
  proof (cases "len = 0")
    case True
    then show ?thesis by (simp add: load_segs.simps seg_parts.simps)
  next
    case False
    then have m: "mem \<noteq> 0" using 1(3) by (metis mult_is_0 le_zero_eq)
    define alen where "alen = (if len > DATALEN_SEG then DATALEN_SEG else len)"
    have a: "0 < alen" "alen \<le> len" using False by (auto simp: alen_def DATALEN_SEG_def)
    have "len - alen \<le> (mem - 1) * DATALEN_SEG"
      using 1(3) m by (cases mem) (auto simp: alen_def)
    then have ih: "load_segs (mem - 1) (drop alen src) (len - alen) = Inr (seg_parts (take (len - alen) (drop alen src)))"
      using 1(1) [of alen] 1(2) a False m unfolding alen_def by simp
    then have l: "load_segs mem src len = Inr (take alen src # seg_parts (take (len - alen) (drop alen src)))"
      using False m a 1(2) unfolding load_segs.simps [of mem src len] alen_def [symmetric] by (simp add: Let_def)
    have cut: "take DATALEN_SEG (take len src) = take alen src" "drop DATALEN_SEG (take len src) = take (len - alen) (drop alen src)"
      using a by (auto simp: alen_def drop_take min_def)
    show ?thesis using l cut False a 1(2) by (subst seg_parts.simps) auto
  qed
qed

lemma store_segs_none [simp]: "store_segs room segs 0 = Done (Some [])"
  by (simp add: store_segs.simps)

lemma store_segs_parts:
  "len \<le> length bytes \<Longrightarrow>
    store_segs room (seg_parts bytes) len = Done (if len \<le> room then Some (take len bytes) else None)"
proof (induction bytes arbitrary: room len rule: seg_parts.induct)
  case (1 bytes)
  show ?case
  proof (cases "len = 0")
    case True
    then show ?thesis by (simp add: store_segs.simps)
  next
    case False
    define alen where "alen = (if len > DATALEN_SEG then DATALEN_SEG else len)"
    have a: "0 < alen" "alen \<le> len" "alen \<le> DATALEN_SEG" using False by (auto simp: alen_def DATALEN_SEG_def)
    have ne: "bytes \<noteq> []" using False 1(2) by auto
    have parts: "seg_parts bytes = take DATALEN_SEG bytes # seg_parts (drop DATALEN_SEG bytes)"
      using ne by (subst seg_parts.simps) simp
    have tail: "store_segs (room - alen) (seg_parts (drop DATALEN_SEG bytes)) (len - alen) =
        Done (if len - alen \<le> room - alen then Some (take (len - alen) (drop DATALEN_SEG bytes)) else None)"
      using 1(1) [OF ne, of "len - alen" "room - alen"] 1(2) a by (cases "len > DATALEN_SEG") (auto simp: alen_def)
    have long: "\<not> length (take DATALEN_SEG bytes) < alen" using a 1(2) by simp
    have head: "take alen (take DATALEN_SEG bytes) = take alen bytes" using a by (simp add: min_def)
    have join: "take alen bytes @ take (len - alen) (drop DATALEN_SEG bytes) = take len bytes"
      using a by (cases "len > DATALEN_SEG") (simp_all add: alen_def take_add [symmetric])
    have "store_segs room (seg_parts bytes) len =
        (if room < alen then Done None
         else Done (map_option (\<lambda>rest. take alen bytes @ rest)
           (if len - alen \<le> room - alen then Some (take (len - alen) (drop DATALEN_SEG bytes)) else None)))"
      using False long tail head
      unfolding parts store_segs.simps [of room "take DATALEN_SEG bytes # seg_parts (drop DATALEN_SEG bytes)" len]
        alen_def [symmetric] by (simp add: Let_def)
    then show ?thesis using a join by (auto simp: not_less)
  qed
qed

text \<open>A text that was loaded is stored unchanged; a longer buffer takes all of it.\<close>

lemma store_msg_parts:
  assumes "len \<le> length bytes"
  shows "store_msg room (msg_parts bytes) len = Done (if len \<le> room then Some (take len bytes) else None)"
proof -
  define alen where "alen = (if len > DATALEN_MSG then DATALEN_MSG else len)"
  have a: "alen \<le> len" "alen \<le> DATALEN_MSG" by (auto simp: alen_def)
  have tail: "store_segs (room - alen) (seg_parts (drop DATALEN_MSG bytes)) (len - alen) =
      Done (if len - alen \<le> room - alen then Some (take (len - alen) (drop DATALEN_MSG bytes)) else None)"
    using assms a by (cases "len > DATALEN_MSG") (auto simp: alen_def store_segs_parts)
  have join: "take alen bytes @ take (len - alen) (drop DATALEN_MSG bytes) = take len bytes"
    using a by (cases "len > DATALEN_MSG") (simp_all add: alen_def take_add [symmetric])
  have head: "take alen (take DATALEN_MSG bytes) = take alen bytes" "\<not> length (take DATALEN_MSG bytes) < alen"
    using a assms by (simp_all add: min_def)
  have "store_msg room (msg_parts bytes) len =
      (if room < alen then Done None
       else Done (map_option (\<lambda>rest. take alen bytes @ rest)
         (if len - alen \<le> room - alen then Some (take (len - alen) (drop DATALEN_MSG bytes)) else None)))"
    using tail head unfolding store_msg_def msg_parts_def alen_def [symmetric] by (simp add: Let_def)
  then show ?thesis using a join by (auto simp: not_less)
qed

lemma load_msg_enough:
  assumes "len \<le> length src" and "len \<le> DATALEN_MSG + mem * DATALEN_SEG"
  shows "load_msg (Suc mem) src len = Inr (msg_parts (take len src))"
proof -
  define alen where "alen = (if len > DATALEN_MSG then DATALEN_MSG else len)"
  have a: "alen \<le> len" "len - alen \<le> mem * DATALEN_SEG" using assms(2) by (auto simp: alen_def)
  have "load_segs mem (drop alen src) (len - alen) = Inr (seg_parts (take (len - alen) (drop alen src)))"
    using assms(1) a by (intro load_segs_enough) simp_all
  moreover have "take DATALEN_MSG (take len src) = take alen src"
    "drop DATALEN_MSG (take len src) = take (len - alen) (drop alen src)"
    by (auto simp: alen_def drop_take min_def)
  ultimately show ?thesis
    using assms(1) a unfolding load_msg_def msg_parts_def alen_def [symmetric] by (simp add: Let_def)
qed

section \<open>Properties\<close>

text \<open>
  The text of a message survives the kernel. Whatever its length, and however many segments it
  takes, when \<open>load_msg\<close> succeeds, \<open>store_msg\<close> writes exactly the first \<open>n\<close> bytes of the sender's
  text for every \<open>n\<close> up to its length, unless the receiver's buffer is too short, and never reads
  past the end of a segment.
\<close>

theorem message_text_roundtrip:
  assumes "load_msg mem src len = Inr msg" and "n \<le> len"
  shows "store_msg room msg n = Done (if n \<le> room then Some (take n src) else None)"
  using load_msg_parts [OF assms(1)] store_msg_parts [of n "take len src" room] assms(2) by (simp add: min_def)

theorem message_text_roundtrip_witness:
  "\<exists>msg. load_msg 2 (replicate 5000 7) 5000 = Inr msg \<and> store_msg 5000 msg 5000 = Done (Some (replicate 5000 7))"
proof -
  obtain msg where "load_msg 2 (replicate 5000 7) 5000 = Inr msg"
    using load_msg_enough [of 5000 "replicate 5000 7" 1] by (auto simp: DATALEN_MSG_def DATALEN_SEG_def numeral_2_eq_2)
  then show ?thesis using message_text_roundtrip [of 2 "replicate 5000 7" 5000 msg 5000 5000] by simp
qed

end
