(* ===== verification/Ipc_Msg.thy ===== *)
theory Ipc_Msg
  imports Ipc_Text Ipc_Table Format
begin

text \<open>
  The System V message queues of \<open>ipc/msg.c\<close>. A queue holds messages and the processes that sleep on
  it. A process that sleeps in \<open>msgrcv\<close> or \<open>msgsnd\<close> has a structure on its stack, \<open>msg_receiver\<close> or
  \<open>msg_sender\<close>; the lists of the queue link these structures and are lists of processes here. The
  local variables that the call needs after it has slept are kept with the structure. Both calls
  are cut at \<open>schedule()\<close>: the part before it, and the part from the wake-up to the return or the next
  sleep. What the calls do not control is an argument: the memory that can be allocated, user
  memory, and whether a signal is pending. A structure that should be on the stack of a process
  that is not in the call any more is \<open>Bug\<close>. The kernel semaphore \<open>msg_ids.sem\<close>, which only orders
  whole calls, is left out.
\<close>

section \<open>State\<close>

datatype search_mode = SEARCH_ANY | SEARCH_EQUAL | SEARCH_NOTEQUAL | SEARCH_LESSEQUAL

record msg_msg =
  m_type :: ulong
  m_ts :: ulong
  m_text :: "8 word list list"

record msg_receiver =
  r_mode :: search_mode
  r_msgtype :: ulong
  r_maxsize :: ulong
  r_msg :: "errno + msg_msg"
  r_queue :: addr
  r_msqid :: int
  r_msgsz :: ulong
  r_msgflg :: ulong

record msg_sender =
  ss_linked :: bool
  ss_queue :: addr
  ss_msqid :: int
  ss_msg :: msg_msg
  ss_msgflg :: ulong

datatype msg_wait = Awake | Receiving msg_receiver | Sending msg_sender

record msg_queue =
  q_perm :: ipc_perm
  q_stime :: int
  q_rtime :: int
  q_ctime :: int
  q_cbytes :: ulong
  q_qnum :: ulong
  q_qbytes :: ulong
  q_lspid :: "16 word"
  q_lrpid :: "16 word"
  q_messages :: "msg_msg list"
  q_receivers :: "nat list"
  q_senders :: "nat list"

record msg_task = cred +
  mpid :: ulong
  running :: bool

record msg_state =
  msg_ids :: ipc_ids
  msg_ctlmax :: ulong
  msg_ctlmnb :: ulong
  msg_ctlmni :: ulong
  msg_bytes :: ulong
  msg_hdrs :: ulong
  mqs :: "addr \<Rightarrow> msg_queue"
  waits :: "nat \<Rightarrow> msg_wait"
  procs :: "nat \<Rightarrow> msg_task"
  clock :: int
  bset :: ulong

definition MSGMNI :: ulong where "MSGMNI = 128"
definition MSGMAX :: ulong where "MSGMAX = 8192"
definition MSGMNB :: ulong where "MSGMNB = 16384"
definition MSGPOOL :: ulong where "MSGPOOL = MSGMNI * MSGMNB div 1024"
definition MSGTQL :: ulong where "MSGTQL = MSGMNB"
definition MSGMAP :: ulong where "MSGMAP = MSGMNB"
definition MSGSSZ :: ulong where "MSGSSZ = 16"
definition MSGSEG :: "16 word" where
  "MSGSEG = (let n = MSGPOOL * 1024 div MSGSSZ in if n \<le> 0xffff then ucast n else 0xffff)"
definition MSG_NOERROR :: ulong where "MSG_NOERROR = 0x1000"
definition MSG_EXCEPT :: ulong where "MSG_EXCEPT = 0x2000"
definition CAP_SYS_RESOURCE :: nat where "CAP_SYS_RESOURCE = 24"

definition queue_upd :: "addr \<Rightarrow> (msg_queue \<Rightarrow> msg_queue) \<Rightarrow> msg_state \<Rightarrow> msg_state" where
  "queue_upd p f s = s\<lparr>mqs := (mqs s)(p := f (mqs s p))\<rparr>"

definition set_wait :: "nat \<Rightarrow> msg_wait \<Rightarrow> msg_state \<Rightarrow> msg_state" where
  "set_wait t w s = s\<lparr>waits := (waits s)(t := w)\<rparr>"

definition set_running :: "nat \<Rightarrow> bool \<Rightarrow> msg_state \<Rightarrow> msg_state" where
  "set_running t b s = s\<lparr>procs := (procs s)(t := (procs s t)\<lparr>running := b\<rparr>)\<rparr>"

lemmas msg_updates = queue_upd_def set_wait_def set_running_def

abbreviation msg_cred :: "msg_state \<Rightarrow> nat \<Rightarrow> cred" where
  "msg_cred s t \<equiv> cred.truncate (procs s t)"

definition msg_perms_denied :: "msg_state \<Rightarrow> nat \<Rightarrow> addr \<Rightarrow> 16 word \<Rightarrow> bool" where
  "msg_perms_denied s t p access = ipcperms (bset s) (msg_cred s t) (q_perm (mqs s p)) access"

definition msg_lock :: "msg_state \<Rightarrow> int \<Rightarrow> (msg_state \<times> addr option) outcome" where
  "msg_lock s msqid =
     bind_outcome (ipc_lock (msg_ids s) msqid) (\<lambda>(ids, p). Done (s\<lparr>msg_ids := ids\<rparr>, p))"

interpretation msg_table: ipc_table msg_ids "\<lambda>ids s. s\<lparr>msg_ids := ids\<rparr>" msg_lock
  by unfold_locales (simp_all add: msg_lock_def)

definition msg_unlock :: "msg_state \<Rightarrow> msg_state" where
  "msg_unlock s = s\<lparr>msg_ids := ipc_unlock (msg_ids s)\<rparr>"

definition msg_checkid :: "msg_state \<Rightarrow> addr \<Rightarrow> int \<Rightarrow> bool" where
  "msg_checkid s p msqid = ipc_checkid (q_perm (mqs s p)) msqid"

definition msg_init :: "msg_state \<Rightarrow> bool \<Rightarrow> msg_state outcome" where
  "msg_init s mem_ok =
     bind_outcome (ipc_init_ids (msg_ids s) (sint (msg_ctlmni s)) mem_ok) (\<lambda>ids.
       Done (s\<lparr>msg_ids := ids\<rparr>))"

section \<open>Creating and removing queues\<close>

definition newque ::
  "msg_state \<Rightarrow> nat \<Rightarrow> int \<Rightarrow> ulong \<Rightarrow> addr option \<Rightarrow> bool \<Rightarrow> (msg_state \<times> (errno + int)) outcome" where
  "newque s t k msgflg p mem_ok =
     (case p of
        None \<Rightarrow> Done (s, Inl ENOMEM)
      | Some msq \<Rightarrow>
          bind_outcome
            (ipc_addid (msg_cred s t) (msg_ids s) msq (q_perm (mqs s msq)) (sint (msg_ctlmni s)) mem_ok)
            (\<lambda>(ids, perm, i).
               let s = s\<lparr>msg_ids := ids\<rparr>
               in if i = -1 then Done (s, Inl ENOSPC)
                  else
                    let d = \<lparr>q_perm = perm\<lparr>mode := ucast msgflg AND S_IRWXUGO, key := k\<rparr>,
                             q_stime = 0, q_rtime = 0, q_ctime = clock s, q_cbytes = 0, q_qnum = 0,
                             q_qbytes = msg_ctlmnb s, q_lspid = 0, q_lrpid = 0,
                             q_messages = [], q_receivers = [], q_senders = []\<rparr>;
                        s = msg_unlock (queue_upd msq (\<lambda>_. d) s)
                    in Done (s, Inr (ipc_buildid i (seq perm)))))"

text \<open>A sender wakes up with its structure unlinked when the queue is removed.\<close>

fun ss_wakeup :: "nat list \<Rightarrow> bool \<Rightarrow> msg_state \<Rightarrow> msg_state outcome" where
  "ss_wakeup [] kill s = Done s"
| "ss_wakeup (t # ts) kill s =
     (case waits s t of
        Sending mss \<Rightarrow>
          ss_wakeup ts kill
            (set_running t True
               (if kill then set_wait t (Sending (mss\<lparr>ss_linked := False\<rparr>)) s else s))
      | _ \<Rightarrow> Bug)"

fun expunge_all :: "nat list \<Rightarrow> errno \<Rightarrow> msg_state \<Rightarrow> msg_state outcome" where
  "expunge_all [] e s = Done s"
| "expunge_all (t # ts) e s =
     (case waits s t of
        Receiving msr \<Rightarrow>
          expunge_all ts e (set_running t True (set_wait t (Receiving (msr\<lparr>r_msg := Inl e\<rparr>)) s))
      | _ \<Rightarrow> Bug)"

definition freeque :: "int \<Rightarrow> msg_state \<Rightarrow> msg_state outcome" where
  "freeque msqid s =
     bind_outcome (ipc_rmid (msg_ids s) msqid) (\<lambda>(ids, msq).
       let s = s\<lparr>msg_ids := ids\<rparr>
       in bind_outcome (expunge_all (q_receivers (mqs s msq)) EIDRM s) (\<lambda>s.
          bind_outcome (ss_wakeup (q_senders (mqs s msq)) True s) (\<lambda>s.
            let s = msg_unlock s
            in Done (s\<lparr>msg_hdrs := msg_hdrs s - of_nat (length (q_messages (mqs s msq))),
                       msg_bytes := msg_bytes s - q_cbytes (mqs s msq)\<rparr>))))"

definition sys_msgget ::
  "msg_state \<Rightarrow> nat \<Rightarrow> int \<Rightarrow> ulong \<Rightarrow> addr option \<Rightarrow> bool \<Rightarrow> (msg_state \<times> (errno + int)) outcome" where
  "sys_msgget s t k msgflg p mem_ok =
     (if k = IPC_PRIVATE then newque s t k msgflg p mem_ok
      else
        bind_outcome (ipc_findkey (\<lambda>p. q_perm (mqs s p)) (msg_ids s) k) (\<lambda>i.
          if i = -1 then
            if msgflg AND IPC_CREAT = 0 then Done (s, Inl ENOENT)
            else newque s t k msgflg p mem_ok
          else if msgflg AND IPC_CREAT \<noteq> 0 \<and> msgflg AND IPC_EXCL \<noteq> 0 then Done (s, Inl EEXIST)
          else
            bind_outcome (msg_lock s i) (\<lambda>(s, msq).
              case msq of
                None \<Rightarrow> Bug
              | Some msq \<Rightarrow>
                  let ret =
                    (if msg_perms_denied s t msq (ucast msgflg) then Inl EACCES
                     else Inr (ipc_buildid i (seq (q_perm (mqs s msq)))))
                  in Done (msg_unlock s, ret))))"

section \<open>Control operations\<close>

datatype msg_cmd = IPC_RMID | IPC_SET | IPC_STAT | IPC_INFO | MSG_STAT | MSG_INFO | Other_cmd int

record msginfo =
  msgpool :: ulong
  msgmap :: ulong
  msgmax :: ulong
  msgmnb :: ulong
  msgmni :: ulong
  msgssz :: ulong
  msgtql :: ulong
  msgseg :: "16 word"

record msqid_ds =
  msg_perm :: ipc_perm
  msg_stime :: int
  msg_rtime :: int
  msg_ctime :: int
  msg_lcbytes :: ulong
  msg_lqbytes :: ulong
  msg_cbytes :: "16 word"
  msg_qnum :: "16 word"
  msg_qbytes :: "16 word"
  msg_lspid :: "16 word"
  msg_lrpid :: "16 word"

text \<open>The user's buffer: whether the pointer is null, what can be read, whether it can be written.\<close>

record msg_buf =
  buf_null :: bool
  buf_in :: "msqid_ds option"
  buf_writable :: bool

datatype msg_out = Out_none | Out_info msginfo | Out_ds msqid_ds

type_synonym msgctl_reply = "(msg_state \<times> (errno + int) \<times> msg_out) outcome"

definition copy_msg_out :: "msg_buf \<Rightarrow> msg_state \<Rightarrow> int \<Rightarrow> msg_out \<Rightarrow> msgctl_reply" where
  "copy_msg_out buf s r out =
     (if buf_writable buf then Done (s, Inr r, out) else Done (s, Inl EFAULT, Out_none))"

definition msg_info :: "msg_state \<Rightarrow> msg_cmd \<Rightarrow> msginfo" where
  "msg_info s cmd =
     \<lparr>msgpool = (if cmd = MSG_INFO then of_int (in_use (msg_ids s)) else MSGPOOL),
      msgmap = (if cmd = MSG_INFO then msg_hdrs s else MSGMAP),
      msgmax = msg_ctlmax s, msgmnb = msg_ctlmnb s, msgmni = msg_ctlmni s, msgssz = MSGSSZ,
      msgtql = (if cmd = MSG_INFO then msg_bytes s else MSGTQL), msgseg = MSGSEG\<rparr>"

definition clip :: "ulong \<Rightarrow> 16 word" where
  "clip n = (if n > of_int USHRT_MAX then of_int USHRT_MAX else ucast n)"

definition msqid_ds_of :: "msg_queue \<Rightarrow> msqid_ds" where
  "msqid_ds_of q =
     \<lparr>msg_perm = q_perm q, msg_stime = q_stime q, msg_rtime = q_rtime q, msg_ctime = q_ctime q,
      msg_lcbytes = q_cbytes q, msg_lqbytes = q_qbytes q, msg_cbytes = clip (q_cbytes q),
      msg_qnum = clip (q_qnum q), msg_qbytes = clip (q_qbytes q), msg_lspid = q_lspid q,
      msg_lrpid = q_lrpid q\<rparr>"

definition msgctl_stat :: "msg_state \<Rightarrow> nat \<Rightarrow> int \<Rightarrow> msg_cmd \<Rightarrow> msg_buf \<Rightarrow> msgctl_reply" where
  "msgctl_stat s t msqid cmd buf =
     (if buf_null buf then Done (s, Inl EFAULT, Out_none)
      else if cmd = MSG_STAT \<and> msqid > ids_size (msg_ids s) then Done (s, Inl EINVAL, Out_none)
      else
        bind_outcome (msg_lock s msqid) (\<lambda>(s, msq).
          case msq of
            None \<Rightarrow> Done (s, Inl EINVAL, Out_none)
          | Some msq \<Rightarrow>
              if cmd \<noteq> MSG_STAT \<and> msg_checkid s msq msqid then Done (msg_unlock s, Inl EIDRM, Out_none)
              else if msg_perms_denied s t msq S_IRUGO then Done (msg_unlock s, Inl EACCES, Out_none)
              else
                let q = mqs s msq
                in copy_msg_out buf (msg_unlock s)
                     (if cmd = MSG_STAT then ipc_buildid msqid (seq (q_perm q)) else 0)
                     (Out_ds (msqid_ds_of q))))"

definition newqbytes_of :: "msqid_ds \<Rightarrow> ulong" where
  "newqbytes_of tbuf = (if msg_qbytes tbuf = 0 then msg_lqbytes tbuf else ucast (msg_qbytes tbuf))"

text \<open>\<open>IPC_SET\<close>, with the lock held. The new limit is compared as a signed number.\<close>

definition msgctl_set :: "msg_state \<Rightarrow> nat \<Rightarrow> addr \<Rightarrow> msqid_ds \<Rightarrow> msgctl_reply" where
  "msgctl_set s t msq tbuf =
     (if sint (newqbytes_of tbuf) > sint (msg_ctlmnb s) \<and> \<not> capable (bset s) (msg_cred s t) CAP_SYS_RESOURCE
      then Done (msg_unlock s, Inl EPERM, Out_none)
      else
        let p = q_perm (mqs s msq);
            p = p\<lparr>uid := uid (msg_perm tbuf), gid := gid (msg_perm tbuf),
                  mode := (mode p AND NOT S_IRWXUGO) OR (S_IRWXUGO AND mode (msg_perm tbuf))\<rparr>;
            s = queue_upd msq (\<lambda>q. q\<lparr>q_qbytes := newqbytes_of tbuf, q_perm := p, q_ctime := clock s\<rparr>) s
        in bind_outcome (expunge_all (q_receivers (mqs s msq)) EAGAIN s) (\<lambda>s.
           bind_outcome (ss_wakeup (q_senders (mqs s msq)) False s) (\<lambda>s.
             Done (msg_unlock s, Inr 0, Out_none))))"

definition msgctl_down :: "msg_state \<Rightarrow> nat \<Rightarrow> int \<Rightarrow> msg_cmd \<Rightarrow> msg_buf \<Rightarrow> msgctl_reply" where
  "msgctl_down s t msqid cmd buf =
     bind_outcome (msg_lock s msqid) (\<lambda>(s, msq).
       case msq of
         None \<Rightarrow> Done (s, Inl EINVAL, Out_none)
       | Some msq \<Rightarrow>
           let ipcp = q_perm (mqs s msq)
           in if msg_checkid s msq msqid then Done (msg_unlock s, Inl EIDRM, Out_none)
              else if euid (procs s t) \<noteq> cuid ipcp \<and> euid (procs s t) \<noteq> uid ipcp \<and>
                \<not> capable (bset s) (msg_cred s t) CAP_SYS_ADMIN
              then Done (msg_unlock s, Inl EPERM, Out_none)
              else if cmd = IPC_SET then msgctl_set s t msq (the (buf_in buf))
              else bind_outcome (freeque msqid s) (\<lambda>s. Done (s, Inr 0, Out_none)))"

definition sys_msgctl :: "msg_state \<Rightarrow> nat \<Rightarrow> int \<Rightarrow> msg_cmd \<Rightarrow> msg_buf \<Rightarrow> msgctl_reply" where
  "sys_msgctl s t msqid cmd buf =
     (if msqid < 0 then Done (s, Inl EINVAL, Out_none)
      else if cmd = IPC_INFO \<or> cmd = MSG_INFO then
        if buf_null buf then Done (s, Inl EFAULT, Out_none)
        else
          let m = max_id (msg_ids s)
          in copy_msg_out buf s (if m < 0 then 0 else m) (Out_info (msg_info s cmd))
      else if cmd = MSG_STAT \<or> cmd = IPC_STAT then msgctl_stat s t msqid cmd buf
      else if cmd = IPC_SET \<and> (buf_null buf \<or> buf_in buf = None) then Done (s, Inl EFAULT, Out_none)
      else if cmd = IPC_SET \<or> cmd = IPC_RMID then msgctl_down s t msqid cmd buf
      else Done (s, Inl EINVAL, Out_none))"

section \<open>Sending\<close>

fun testmsg :: "msg_msg \<Rightarrow> ulong \<Rightarrow> search_mode \<Rightarrow> bool" where
  "testmsg msg type SEARCH_ANY \<longleftrightarrow> True"
| "testmsg msg type SEARCH_LESSEQUAL \<longleftrightarrow> m_type msg \<le>s type"
| "testmsg msg type SEARCH_EQUAL \<longleftrightarrow> m_type msg = type"
| "testmsg msg type SEARCH_NOTEQUAL \<longleftrightarrow> m_type msg \<noteq> type"

text \<open>
  The loop over the receivers of \<open>pipelined_send\<close>. As in the source, the process that takes the
  message is entered as the last sender.
\<close>

fun pipelined_loop :: "addr \<Rightarrow> msg_msg \<Rightarrow> nat list \<Rightarrow> msg_state \<Rightarrow> (msg_state \<times> bool) outcome" where
  "pipelined_loop msq msg [] s = Done (s, False)"
| "pipelined_loop msq msg (t # ts) s =
     (case waits s t of
        Receiving msr \<Rightarrow>
          if testmsg msg (r_msgtype msr) (r_mode msr) then
            let s = queue_upd msq (\<lambda>q. q\<lparr>q_receivers := remove1 t (q_receivers q)\<rparr>) s
            in if sint (r_maxsize msr) < sint (m_ts msg) then
                 pipelined_loop msq msg ts
                   (set_running t True (set_wait t (Receiving (msr\<lparr>r_msg := Inl E2BIG\<rparr>)) s))
               else
                 let s = set_wait t (Receiving (msr\<lparr>r_msg := Inr msg\<rparr>)) s;
                     s = queue_upd msq (\<lambda>q. q\<lparr>q_lspid := ucast (mpid (procs s t)), q_rtime := clock s\<rparr>) s
                 in Done (set_running t True s, True)
          else pipelined_loop msq msg ts s
      | _ \<Rightarrow> Bug)"

definition pipelined_send :: "addr \<Rightarrow> msg_msg \<Rightarrow> msg_state \<Rightarrow> (msg_state \<times> bool) outcome" where
  "pipelined_send msq msg s = pipelined_loop msq msg (q_receivers (mqs s msq)) s"

datatype msg_reply = Msg_sleeps | Msg_returns "errno + int" | Msg_received ulong "8 word list"

definition ss_add :: "nat \<Rightarrow> addr \<Rightarrow> int \<Rightarrow> msg_msg \<Rightarrow> ulong \<Rightarrow> msg_state \<Rightarrow> msg_state" where
  "ss_add t msq msqid msg msgflg s =
     queue_upd msq (\<lambda>q. q\<lparr>q_senders := q_senders q @ [t]\<rparr>)
       (set_running t False
         (set_wait t (Sending \<lparr>ss_linked = True, ss_queue = msq, ss_msqid = msqid, ss_msg = msg,
            ss_msgflg = msgflg\<rparr>) s))"

definition ss_del :: "nat \<Rightarrow> msg_sender \<Rightarrow> msg_state \<Rightarrow> msg_state" where
  "ss_del t mss s =
     (if ss_linked mss then queue_upd (ss_queue mss) (\<lambda>q. q\<lparr>q_senders := remove1 t (q_senders q)\<rparr>) s
      else s)"

definition queue_full :: "msg_msg \<Rightarrow> msg_queue \<Rightarrow> bool" where
  "queue_full msg q \<longleftrightarrow> m_ts msg + q_cbytes q > q_qbytes q \<or> 1 + q_qnum q > q_qbytes q"

text \<open>From the label \<open>retry\<close> on: the lock is held and the message is in kernel memory.\<close>

definition msgsnd_retry ::
  "msg_state \<Rightarrow> nat \<Rightarrow> addr \<Rightarrow> int \<Rightarrow> msg_msg \<Rightarrow> ulong \<Rightarrow> (msg_state \<times> msg_reply) outcome" where
  "msgsnd_retry s t msq msqid msg msgflg =
     (if msg_checkid s msq msqid then Done (msg_unlock s, Msg_returns (Inl EIDRM))
      else if msg_perms_denied s t msq S_IWUGO then Done (msg_unlock s, Msg_returns (Inl EACCES))
      else if queue_full msg (mqs s msq) then
        if msgflg AND ucast IPC_NOWAIT \<noteq> 0 then Done (msg_unlock s, Msg_returns (Inl EAGAIN))
        else Done (msg_unlock (ss_add t msq msqid msg msgflg s), Msg_sleeps)
      else
        bind_outcome (pipelined_send msq msg s) (\<lambda>(s, taken).
          let s = (if taken then s
                   else (queue_upd msq (\<lambda>q. q\<lparr>q_cbytes := q_cbytes q + m_ts msg, q_qnum := q_qnum q + 1,
                           q_messages := q_messages q @ [msg]\<rparr>) s)
                         \<lparr>msg_bytes := msg_bytes s + m_ts msg, msg_hdrs := msg_hdrs s + 1\<rparr>);
              s = queue_upd msq (\<lambda>q. q\<lparr>q_stime := clock s, q_lspid := ucast (mpid (procs s t))\<rparr>) s
          in Done (msg_unlock s, Msg_returns (Inr 0))))"

text \<open>
  \<open>mtype\<close> is the type in the user's buffer, if it can be read, \<open>src\<close> the text there, \<open>mem\<close> the number
  of pieces of memory that can be allocated.
\<close>

definition msgsnd_start ::
  "nat \<Rightarrow> msg_state \<Rightarrow> nat \<Rightarrow> int \<Rightarrow> ulong option \<Rightarrow> 8 word list \<Rightarrow> ulong \<Rightarrow> ulong \<Rightarrow>
   (msg_state \<times> msg_reply) outcome" where
  "msgsnd_start mem s t msqid mtype src msgsz msgflg =
     (if msgsz > msg_ctlmax s \<or> msgsz <s 0 \<or> msqid < 0 then Done (s, Msg_returns (Inl EINVAL))
      else case mtype of
        None \<Rightarrow> Done (s, Msg_returns (Inl EFAULT))
      | Some mtype \<Rightarrow>
          if mtype <s 1 then Done (s, Msg_returns (Inl EINVAL))
          else (case load_msg mem src (unat msgsz) of
            Inl e \<Rightarrow> Done (s, Msg_returns (Inl e))
          | Inr text \<Rightarrow>
              let msg = \<lparr>m_type = mtype, m_ts = msgsz, m_text = text\<rparr>
              in bind_outcome (msg_lock s msqid) (\<lambda>(s, msq).
                   case msq of
                     None \<Rightarrow> Done (s, Msg_returns (Inl EINVAL))
                   | Some msq \<Rightarrow> msgsnd_retry s t msq msqid msg msgflg)))"

definition msgsnd_wake :: "msg_state \<Rightarrow> nat \<Rightarrow> msg_sender \<Rightarrow> bool \<Rightarrow> (msg_state \<times> msg_reply) outcome" where
  "msgsnd_wake s t mss signal =
     (let s = set_wait t Awake (set_running t True s)
      in bind_outcome (msg_lock s (ss_msqid mss)) (\<lambda>(s, msq).
           case msq of
             None \<Rightarrow> Done (s, Msg_returns (Inl EIDRM))
           | Some msq \<Rightarrow>
               let s = ss_del t mss s
               in if signal then Done (msg_unlock s, Msg_returns (Inl EINTR))
                  else msgsnd_retry s t msq (ss_msqid mss) (ss_msg mss) (ss_msgflg mss)))"

section \<open>Receiving\<close>

definition convert_mode :: "ulong \<Rightarrow> ulong \<Rightarrow> search_mode \<times> ulong" where
  "convert_mode msgtyp msgflg =
     (if msgtyp = 0 then (SEARCH_ANY, msgtyp)
      else if msgtyp <s 0 then (SEARCH_LESSEQUAL, - msgtyp)
      else if msgflg AND MSG_EXCEPT \<noteq> 0 then (SEARCH_NOTEQUAL, msgtyp)
      else (SEARCH_EQUAL, msgtyp))"

text \<open>The position of the message in the list, if any; \<open>i\<close> is the position of the first one.\<close>

fun search_loop :: "search_mode \<Rightarrow> ulong \<Rightarrow> nat \<Rightarrow> nat option \<Rightarrow> msg_msg list \<Rightarrow> nat option" where
  "search_loop smode msgtyp i found [] = found"
| "search_loop smode msgtyp i found (msg # msgs) =
     (if testmsg msg msgtyp smode then
        if smode = SEARCH_LESSEQUAL \<and> m_type msg \<noteq> 1
        then search_loop smode (m_type msg - 1) (i + 1) (Some i) msgs
        else Some i
      else search_loop smode msgtyp (i + 1) found msgs)"

text \<open>
  From the label \<open>out_success\<close> on; \<open>ubuf\<close> is the number of bytes of text that the user's buffer can
  take, if its type can be written.
\<close>

definition msg_deliver :: "msg_state \<Rightarrow> msg_msg \<Rightarrow> ulong \<Rightarrow> nat option \<Rightarrow> (msg_state \<times> msg_reply) outcome" where
  "msg_deliver s msg msgsz ubuf =
     (let n = (if msgsz > m_ts msg then m_ts msg else msgsz)
      in case ubuf of
           None \<Rightarrow> Done (s, Msg_returns (Inl EFAULT))
         | Some room \<Rightarrow>
             bind_outcome (store_msg room (m_text msg) (unat n)) (\<lambda>text.
               case text of
                 None \<Rightarrow> Done (s, Msg_returns (Inl EFAULT))
               | Some text \<Rightarrow> Done (s, Msg_received (m_type msg) text)))"

definition msg_take :: "nat \<Rightarrow> addr \<Rightarrow> nat \<Rightarrow> msg_state \<Rightarrow> msg_state" where
  "msg_take t msq i s =
     (let msg = q_messages (mqs s msq) ! i;
          s = queue_upd msq (\<lambda>q. q\<lparr>q_rtime := clock s, q_cbytes := q_cbytes q - m_ts msg, q_qnum := q_qnum q - 1,
                q_lrpid := ucast (mpid (procs s t)),
                q_messages := take i (q_messages q) @ drop (Suc i) (q_messages q)\<rparr>) s
      in s\<lparr>msg_bytes := msg_bytes s - m_ts msg, msg_hdrs := msg_hdrs s - 1\<rparr>)"

text \<open>From the label \<open>retry\<close> on, with the lock held. There is no check of the sequence number.\<close>

definition msgrcv_retry ::
  "msg_state \<Rightarrow> nat \<Rightarrow> addr \<Rightarrow> int \<Rightarrow> ulong \<Rightarrow> ulong \<Rightarrow> search_mode \<Rightarrow> ulong \<Rightarrow> nat option \<Rightarrow>
   (msg_state \<times> msg_reply) outcome" where
  "msgrcv_retry s t msq msqid msgsz msgtyp smode msgflg ubuf =
     (if msg_perms_denied s t msq S_IRUGO then Done (msg_unlock s, Msg_returns (Inl EACCES))
      else (case search_loop smode msgtyp 0 None (q_messages (mqs s msq)) of
        Some i \<Rightarrow>
          let msg = q_messages (mqs s msq) ! i
          in if msgsz < m_ts msg \<and> msgflg AND MSG_NOERROR = 0
             then Done (msg_unlock s, Msg_returns (Inl E2BIG))
             else
               let s = msg_take t msq i s
               in bind_outcome (ss_wakeup (q_senders (mqs s msq)) False s) (\<lambda>s.
                    msg_deliver (msg_unlock s) msg msgsz ubuf)
      | None \<Rightarrow>
          if msgflg AND ucast IPC_NOWAIT \<noteq> 0 then Done (msg_unlock s, Msg_returns (Inl ENOMSG))
          else
            let s = queue_upd msq (\<lambda>q. q\<lparr>q_receivers := q_receivers q @ [t]\<rparr>) s;
                msr = \<lparr>r_mode = smode, r_msgtype = msgtyp,
                       r_maxsize = (if msgflg AND MSG_NOERROR \<noteq> 0 then of_int INT_MAX else msgsz),
                       r_msg = Inl EAGAIN, r_queue = msq, r_msqid = msqid, r_msgsz = msgsz,
                       r_msgflg = msgflg\<rparr>;
                s = set_running t False (set_wait t (Receiving msr) s)
            in Done (msg_unlock s, Msg_sleeps)))"

definition msgrcv_start ::
  "msg_state \<Rightarrow> nat \<Rightarrow> int \<Rightarrow> ulong \<Rightarrow> ulong \<Rightarrow> ulong \<Rightarrow> nat option \<Rightarrow> (msg_state \<times> msg_reply) outcome" where
  "msgrcv_start s t msqid msgsz msgtyp msgflg ubuf =
     (if msqid < 0 \<or> msgsz <s 0 then Done (s, Msg_returns (Inl EINVAL))
      else
        let (smode, msgtyp) = convert_mode msgtyp msgflg
        in bind_outcome (msg_lock s msqid) (\<lambda>(s, msq).
             case msq of
               None \<Rightarrow> Done (s, Msg_returns (Inl EINVAL))
             | Some msq \<Rightarrow> msgrcv_retry s t msq msqid msgsz msgtyp smode msgflg ubuf))"

text \<open>
  After the wake-up. When the receiver was only told to try again, the code goes back to \<open>retry\<close>
  with the queue it found at the beginning.
\<close>

definition msgrcv_wake ::
  "msg_state \<Rightarrow> nat \<Rightarrow> msg_receiver \<Rightarrow> bool \<Rightarrow> nat option \<Rightarrow> (msg_state \<times> msg_reply) outcome" where
  "msgrcv_wake s t msr signal ubuf =
     (let s = set_wait t Awake (set_running t True s)
      in case r_msg msr of
           Inr msg \<Rightarrow> msg_deliver s msg (r_msgsz msr) ubuf
         | Inl e \<Rightarrow>
             bind_outcome (msg_lock s (r_msqid msr)) (\<lambda>(s, q).
               let unlock = (\<lambda>s. if q = None then s else msg_unlock s)
               in if e = EAGAIN then
                    if q = None then Bug
                    else
                      let s = queue_upd (r_queue msr) (\<lambda>q. q\<lparr>q_receivers := remove1 t (q_receivers q)\<rparr>) s
                      in if signal then Done (unlock s, Msg_returns (Inl EINTR))
                         else msgrcv_retry s t (r_queue msr) (r_msqid msr) (r_msgsz msr) (r_msgtype msr)
                                (r_mode msr) (r_msgflg msr) ubuf
                  else Done (unlock s, Msg_returns (Inl e))))"

definition msg_wake :: "msg_state \<Rightarrow> nat \<Rightarrow> bool \<Rightarrow> nat option \<Rightarrow> (msg_state \<times> msg_reply) outcome" where
  "msg_wake s t signal ubuf =
     (case waits s t of
        Awake \<Rightarrow> Bug
      | Receiving msr \<Rightarrow> msgrcv_wake s t msr signal ubuf
      | Sending mss \<Rightarrow> msgsnd_wake s t mss signal)"

section \<open>The file in /proc\<close>

definition msg_proc_header :: string where
  "msg_proc_header =
     ''       key      msqid perms cbytes  qnum lspid lrpid   uid   gid  cuid  cgid'' @
     ''      stime      rtime      ctime'' @ [CHR 0x0A]"

definition msg_proc_format :: string where
  "msg_proc_format =
     ''%10d %10d  %4o  %5u %5u %5u %5u %5u %5u %5u %5u %10lu %10lu %10lu'' @ [CHR 0x0A]"

definition msg_proc_line :: "int \<Rightarrow> msg_queue \<Rightarrow> string option" where
  "msg_proc_line i q =
     (let p = q_perm q
      in map_option fst (sprintf msg_proc_format
           [Va_int (of_int (key p)), Va_int (of_int (ipc_buildid i (seq p))), Va_int (ucast (mode p)),
            Va_int (q_cbytes q), Va_int (q_qnum q), Va_int (ucast (q_lspid q)), Va_int (ucast (q_lrpid q)),
            Va_int (ucast (uid p)), Va_int (ucast (gid p)), Va_int (ucast (cuid p)), Va_int (ucast (cgid p)),
            Va_int (of_int (q_stime q)), Va_int (of_int (q_rtime q)), Va_int (of_int (q_ctime q))]))"

fun msg_proc_loop ::
  "int \<Rightarrow> int \<Rightarrow> int list \<Rightarrow> string \<Rightarrow> int \<Rightarrow> int \<Rightarrow> msg_state \<Rightarrow>
   (msg_state \<times> string \<times> int \<times> bool) outcome" where
  "msg_proc_loop offset n [] buf pos start s = Done (s, buf, start, True)"
| "msg_proc_loop offset n (i # is) buf pos start s =
     bind_outcome (msg_lock s i) (\<lambda>(s, msq).
       case msq of
         None \<Rightarrow> msg_proc_loop offset n is buf pos start s
       | Some msq \<Rightarrow>
           (case msg_proc_line i (mqs s msq) of
              None \<Rightarrow> Bug
            | Some line \<Rightarrow>
                let buf = buf @ line;
                    s = msg_unlock s;
                    pos = pos + int (length buf);
                    (buf, start) = (if pos < offset then ([], pos) else (buf, start))
                in if pos > offset + n then Done (s, buf, start, False)
                   else msg_proc_loop offset n is buf pos start s))"

definition sysvipc_msg_read_proc ::
  "int \<Rightarrow> int \<Rightarrow> msg_state \<Rightarrow> (msg_state \<times> string \<times> bool) outcome" where
  "sysvipc_msg_read_proc offset n s =
     bind_outcome (msg_proc_loop offset n [0..max_id (msg_ids s)] msg_proc_header 0 0 s)
       (\<lambda>(s, buf, start, eof).
          let len = int (length buf) - (offset - start);
              len = (if len > n then n else len);
              len = (if len < 0 then 0 else len)
          in Done (s, take (nat len) (drop (nat (offset - start)) buf), eof))"

end
