(* ===== verification/Ipc_Msg_Inv.thy ===== *)
theory Ipc_Msg_Inv
  imports Ipc_Msg
begin

text \<open>
  The invariant of the message queues of \<open>Ipc_Msg\<close> and what each operation does to it. The counters
  agree with the messages, the two lists of a queue hold exactly the processes that sleep on it,
  a process that sleeps can find its queue again, and no process on the list of receivers waits
  for a message that is in the queue.
\<close>

section \<open>The invariant\<close>

abbreviation held :: "msg_state \<Rightarrow> nat \<Rightarrow> addr \<Rightarrow> bool" where
  "held s i p \<equiv> holds (msg_ids s) i p"

abbreviation msg_unlocked :: "msg_state \<Rightarrow> bool" where
  "msg_unlocked s \<equiv> \<not> ary (msg_ids s)"

definition msg_wf :: "msg_msg \<Rightarrow> bool" where
  "msg_wf m \<longleftrightarrow> (\<exists>bytes. m_text m = msg_parts bytes \<and> length bytes = unat (m_ts m)) \<and>
     unat (m_ts m) < 2 ^ 31 \<and> 1 \<le>s m_type m"

definition receiving :: "msg_wait \<Rightarrow> nat \<Rightarrow> addr \<Rightarrow> bool" where
  "receiving w i p \<longleftrightarrow> (\<exists>r. w = Receiving r \<and> r_msg r = Inl EAGAIN \<and> r_queue r = p \<and> slot_of (r_msqid r) = i)"

definition sending :: "msg_wait \<Rightarrow> nat \<Rightarrow> addr \<Rightarrow> bool" where
  "sending w i p \<longleftrightarrow> (\<exists>d. w = Sending d \<and> ss_linked d \<and> ss_queue d = p \<and> slot_of (ss_msqid d) = i)"

definition wants :: "msg_wait \<Rightarrow> msg_msg \<Rightarrow> bool" where
  "wants w m \<longleftrightarrow> (\<exists>r. w = Receiving r \<and> testmsg m (r_msgtype r) (r_mode r))"

definition counted :: "msg_queue \<Rightarrow> bool" where
  "counted q \<longleftrightarrow> q_cbytes q = sum_list (map m_ts (q_messages q)) \<and> q_qnum q = of_nat (length (q_messages q)) \<and>
     (\<forall>m\<in>set (q_messages q). msg_wf m) \<and> distinct (q_receivers q) \<and> distinct (q_senders q)"

definition queue_ok :: "msg_state \<Rightarrow> nat \<Rightarrow> addr \<Rightarrow> bool" where
  "queue_ok s i p \<longleftrightarrow> counted (mqs s p) \<and>
     (\<forall>t. t \<in> set (q_receivers (mqs s p)) \<longleftrightarrow> receiving (waits s t) i p) \<and>
     (\<forall>t. t \<in> set (q_senders (mqs s p)) \<longleftrightarrow> sending (waits s t) i p) \<and>
     (\<forall>t\<in>set (q_receivers (mqs s p)). \<forall>m\<in>set (q_messages (mqs s p)). \<not> wants (waits s t) m)"

definition rcv_ok :: "ipc_ids \<Rightarrow> bool \<Rightarrow> msg_receiver \<Rightarrow> bool" where
  "rcv_ok ids b r \<longleftrightarrow> 0 \<le> r_msqid r \<and> int (slot_of (r_msqid r)) < ids_size ids \<and>
     (r_msg r = Inl EAGAIN \<longrightarrow> holds ids (slot_of (r_msqid r)) (r_queue r)) \<and>
     (\<forall>m. r_msg r = Inr m \<longrightarrow> msg_wf m) \<and> (\<not> b \<longrightarrow> r_msg r = Inl EAGAIN)"

definition snd_ok :: "ipc_ids \<Rightarrow> bool \<Rightarrow> msg_sender \<Rightarrow> bool" where
  "snd_ok ids b d \<longleftrightarrow> 0 \<le> ss_msqid d \<and> int (slot_of (ss_msqid d)) < ids_size ids \<and>
     (ss_linked d \<longrightarrow> holds ids (slot_of (ss_msqid d)) (ss_queue d)) \<and> msg_wf (ss_msg d) \<and> (\<not> b \<longrightarrow> ss_linked d)"

definition wait_ok :: "ipc_ids \<Rightarrow> bool \<Rightarrow> msg_wait \<Rightarrow> bool" where
  "wait_ok ids b w \<longleftrightarrow>
     (case w of Awake \<Rightarrow> True | Receiving r \<Rightarrow> rcv_ok ids b r | Sending d \<Rightarrow> snd_ok ids b d)"

definition totals :: "msg_state \<Rightarrow> bool" where
  "totals s \<longleftrightarrow> msg_bytes s = table_sum (\<lambda>p. q_cbytes (mqs s p)) (entries (msg_ids s)) \<and>
     msg_hdrs s = table_sum (\<lambda>p. q_qnum (mqs s p)) (entries (msg_ids s))"

definition msg_inv :: "msg_state \<Rightarrow> bool" where
  "msg_inv s \<longleftrightarrow> ids_wf (msg_ids s) \<and> 0 \<le> sint (msg_ctlmni s) \<and>
     (\<forall>i j p. held s i p \<longrightarrow> held s j p \<longrightarrow> i = j) \<and> totals s \<and>
     (\<forall>i p. held s i p \<longrightarrow> queue_ok s i p) \<and>
     (\<forall>t. wait_ok (msg_ids s) (running (procs s t)) (waits s t))"

definition msg_ok :: "msg_state \<Rightarrow> bool" where
  "msg_ok s \<longleftrightarrow> msg_inv s \<and> msg_unlocked s"

lemma msg_invI:
  assumes "ids_wf (msg_ids s)" "0 \<le> sint (msg_ctlmni s)" "\<And>i j p. held s i p \<Longrightarrow> held s j p \<Longrightarrow> i = j"
    "totals s" "\<And>i p. held s i p \<Longrightarrow> queue_ok s i p"
    "\<And>t. wait_ok (msg_ids s) (running (procs s t)) (waits s t)"
  shows "msg_inv s"
  using assms unfolding msg_inv_def by blast

lemma msg_invD:
  assumes "msg_inv s"
  shows "ids_wf (msg_ids s)" "0 \<le> sint (msg_ctlmni s)" "held s i p \<Longrightarrow> held s j p \<Longrightarrow> i = j"
    "totals s" "held s i p \<Longrightarrow> queue_ok s i p"
    "wait_ok (msg_ids s) (running (procs s t)) (waits s t)"
  using assms unfolding msg_inv_def by blast+

lemma queue_okD:
  assumes "queue_ok s i p"
  shows "counted (mqs s p)" "t \<in> set (q_receivers (mqs s p)) \<longleftrightarrow> receiving (waits s t) i p"
    "t \<in> set (q_senders (mqs s p)) \<longleftrightarrow> sending (waits s t) i p"
    "t \<in> set (q_receivers (mqs s p)) \<Longrightarrow> m \<in> set (q_messages (mqs s p)) \<Longrightarrow> \<not> wants (waits s t) m"
  using assms unfolding queue_ok_def by blast+

lemma wait_ok_running: "wait_ok ids b w \<Longrightarrow> (b \<Longrightarrow> b') \<Longrightarrow> wait_ok ids b' w"
  by (auto simp: wait_ok_def rcv_ok_def snd_ok_def split: msg_wait.splits)

section \<open>Changes of one queue\<close>

text \<open>A process is tied to at most the queue \<open>p\<close>.\<close>

definition tied :: "addr \<Rightarrow> msg_wait \<Rightarrow> bool" where
  "tied p w \<longleftrightarrow> (\<forall>i q. receiving w i q \<or> sending w i q \<longrightarrow> q = p)"

lemma msg_inv_upd:
  assumes inv: "msg_inv s" and p: "held s i p"
    and same: "msg_ids s' = msg_ids s" "msg_ctlmni s' = msg_ctlmni s" "\<And>q. q \<noteq> p \<Longrightarrow> mqs s' q = mqs s q"
    and bytes: "msg_bytes s' = msg_bytes s - q_cbytes (mqs s p) + q_cbytes (mqs s' p)"
    and hdrs: "msg_hdrs s' = msg_hdrs s - q_qnum (mqs s p) + q_qnum (mqs s' p)"
    and q: "queue_ok s' i p"
    and tasks: "\<And>t. waits s' t = waits s t \<and> (running (procs s t) \<longrightarrow> running (procs s' t)) \<or>
      tied p (waits s t) \<and> tied p (waits s' t) \<and> wait_ok (msg_ids s) (running (procs s' t)) (waits s' t)"
  shows "msg_inv s'"
proof (rule msg_invI)
  note inj = msg_invD(3) [OF inv]
  have only: "j < length (entries (msg_ids s)) \<Longrightarrow> entries (msg_ids s) ! j = Some p \<Longrightarrow> j = i" for j
    using inj [OF _ p] by (simp add: holds_def)
  have at: "i < length (entries (msg_ids s))" "entries (msg_ids s) ! i = Some p" using p by (simp_all add: holds_def)
  have upd: "(\<lambda>q. f (mqs s' q)) = (\<lambda>q. f (mqs s q))(p := f (mqs s' p))" for f :: "msg_queue \<Rightarrow> ulong"
    using same(3) by (auto simp: fun_eq_iff)
  show "totals s'"
    using msg_invD(4) [OF inv] bytes hdrs table_sum_upd [OF at only, where f = "\<lambda>q. q_cbytes (mqs s q)"]
      table_sum_upd [OF at only, where f = "\<lambda>q. q_qnum (mqs s q)"]
    by (simp add: totals_def same(1) upd [of q_cbytes] upd [of q_qnum] del: fun_upd_apply)
  have keep: "receiving (waits s' t) j q' = receiving (waits s t) j q'" "sending (waits s' t) j q' = sending (waits s t) j q'"
    if "q' \<noteq> p" for t j q'
    using tasks [of t] that by (auto simp: tied_def)
  show "queue_ok s' j q'" if h: "held s' j q'" for j q'
  proof (cases "q' = p")
    case True
    then show ?thesis using h q inj [OF p, of j] by (simp add: same(1))
  next
    case False
    note o = queue_okD [OF msg_invD(5) [OF inv, of j q']]
    have hd: "held s j q'" using h by (simp add: same(1))
    have w: "waits s' t = waits s t" if "t \<in> set (q_receivers (mqs s q'))" for t
      using that tasks [of t] o(2) [OF hd, of t] False by (auto simp: tied_def)
    have "\<not> wants (waits s' t) m" if "t \<in> set (q_receivers (mqs s q'))" "m \<in> set (q_messages (mqs s q'))" for t m
      using o(4) [OF hd that] w [OF that(1)] by simp
    then show ?thesis
      unfolding queue_ok_def same(3) [OF False] keep [OF False] using o(1-3) [OF hd] by blast
  qed
  show "wait_ok (msg_ids s') (running (procs s' t)) (waits s' t)" for t
    using tasks [of t] wait_ok_running [OF msg_invD(6) [OF inv, of t], of "running (procs s' t)"]
    by (auto simp: same(1))
  show "j = k" if "held s' j q'" "held s' k q'" for j k q' using inj that by (simp add: same(1))
qed (use msg_invD(1,2) [OF inv] in \<open>simp_all add: same\<close>)

text \<open>Changes that leave all that the invariant is about alone.\<close>

lemma msg_inv_cong:
  assumes "msg_inv s" "entries (msg_ids s') = entries (msg_ids s)" "ids_size (msg_ids s') = ids_size (msg_ids s)"
    "in_use (msg_ids s') = in_use (msg_ids s)" "max_id (msg_ids s') = max_id (msg_ids s)"
    "msg_ctlmni s' = msg_ctlmni s" "mqs s' = mqs s" "msg_bytes s' = msg_bytes s" "msg_hdrs s' = msg_hdrs s"
    "waits s' = waits s" "\<And>t. running (procs s t) \<Longrightarrow> running (procs s' t)"
  shows "msg_inv s'"
proof (rule msg_invI)
  have h: "holds (msg_ids s') i p = holds (msg_ids s) i p" for i p by (simp add: holds_def assms(2))
  show "wait_ok (msg_ids s') (running (procs s' t)) (waits s' t)" for t
    using wait_ok_running [OF msg_invD(6) [OF assms(1), of t] assms(11)]
    by (auto simp: wait_ok_def rcv_ok_def snd_ok_def h assms(3,10) split: msg_wait.splits)
  show "ids_wf (msg_ids s')" using msg_invD(1) [OF assms(1)] ids_wf_cong [OF assms(2-5)] by simp
  show "queue_ok s' i p" if "held s' i p" for i p
    using msg_invD(5) [OF assms(1)] that by (simp add: h queue_ok_def assms(7,10))
  show "j = k" if "held s' j q'" "held s' k q'" for j k q' using msg_invD(3) [OF assms(1)] that by (simp add: h)
qed (use msg_invD(2,4) [OF assms(1)] in \<open>simp_all add: totals_def assms(2,6-9)\<close>)

section \<open>The lock\<close>

abbreviation msg_locked :: "msg_state \<Rightarrow> msg_state" where
  "msg_locked s \<equiv> s\<lparr>msg_ids := (msg_ids s)\<lparr>ary := True\<rparr>\<rparr>"

lemma msg_locked_inv: "msg_inv s \<Longrightarrow> msg_inv (msg_locked s)"
  by (rule msg_inv_cong) simp_all

lemma msg_unlock_simps [simp]:
  "msg_ctlmni (msg_unlock s) = msg_ctlmni s" "mqs (msg_unlock s) = mqs s" "waits (msg_unlock s) = waits s"
  "procs (msg_unlock s) = procs s" "msg_bytes (msg_unlock s) = msg_bytes s" "msg_hdrs (msg_unlock s) = msg_hdrs s"
  "msg_ids (msg_unlock s) = (msg_ids s)\<lparr>ary := False\<rparr>" "clock (msg_unlock s) = clock s"
  by (simp_all add: msg_unlock_def ipc_unlock_def spin_unlock_def)

lemma msg_okI: "msg_inv s \<Longrightarrow> msg_ok (msg_unlock s)"
  by (simp add: msg_ok_def) (rule msg_inv_cong, simp_all)

lemma holds_ary [simp]: "holds (ids\<lparr>ary := b\<rparr>) i p = holds ids i p"
  by (simp add: holds_def)

lemma msg_lock_cases:
  assumes "msg_ok s" "id_ok (msg_ids s) x"
  obtains (absent) "msg_lock s x = Done (s, None)" "\<And>p. \<not> held s (slot_of x) p"
  | (found) p where "msg_lock s x = Done (msg_locked s, Some p)" "held s (slot_of x) p"
  using msg_table.lock_cases [OF msg_invD(1), of s x] assms by (auto simp: msg_ok_def)

section \<open>Waking up all processes of a list\<close>

definition mark_all :: "(msg_wait \<Rightarrow> msg_wait) \<Rightarrow> nat list \<Rightarrow> msg_state \<Rightarrow> msg_state" where
  "mark_all f ts s =
     s\<lparr>waits := (\<lambda>t. if t \<in> set ts then f (waits s t) else waits s t),
       procs := (\<lambda>t. if t \<in> set ts then (procs s t)\<lparr>running := True\<rparr> else procs s t)\<rparr>"

fun detach :: "msg_wait \<Rightarrow> msg_wait" where
  "detach (Sending d) = Sending (d\<lparr>ss_linked := False\<rparr>)"
| "detach w = w"

fun tell :: "errno \<Rightarrow> msg_wait \<Rightarrow> msg_wait" where
  "tell e (Receiving r) = Receiving (r\<lparr>r_msg := Inl e\<rparr>)"
| "tell e w = w"

lemma mark_all_Nil [simp]: "mark_all f [] s = s"
  by (simp add: mark_all_def)

lemma mark_all_Cons:
  assumes "\<And>w. f (f w) = f w"
  shows "mark_all f ts (set_running t True (set_wait t (f (waits s t)) s)) = mark_all f (t # ts) s"
  using assms by (cases s) (auto simp: mark_all_def set_running_def set_wait_def fun_eq_iff)

lemma detach_detach: "detach (detach w) = detach w" "tell e (tell e w) = tell e w"
  by (cases w; simp)+

lemma ss_wakeup_mark:
  "(\<And>t. t \<in> set ts \<Longrightarrow> \<exists>d. waits s t = Sending d) \<Longrightarrow>
    ss_wakeup ts kill s = Done (mark_all (if kill then detach else id) ts s)"
proof (induction ts arbitrary: s)
  case (Cons t ts)
  let ?f = "if kill then detach else id"
  let ?s = "set_running t True (set_wait t (?f (waits s t)) s)"
  obtain d where d: "waits s t = Sending d" using Cons.prems [of t] by auto
  have same: "set_wait t (Sending d) s = s" using d by (cases s) (auto simp: set_wait_def)
  have "ss_wakeup (t # ts) kill s = ss_wakeup ts kill ?s"
    using d same by (cases kill) simp_all
  moreover have "\<exists>d. waits ?s u = Sending d" if "u \<in> set ts" for u
    using Cons.prems [of u] that d by (auto simp: set_running_def set_wait_def)
  moreover have "?f (?f w) = ?f w" for w by (simp add: detach_detach)
  ultimately show ?case using Cons.IH [of ?s] mark_all_Cons [of ?f ts t s] by simp
qed simp

lemma expunge_all_mark:
  "(\<And>t. t \<in> set ts \<Longrightarrow> \<exists>r. waits s t = Receiving r) \<Longrightarrow> expunge_all ts e s = Done (mark_all (tell e) ts s)"
proof (induction ts arbitrary: s)
  case (Cons t ts)
  let ?s = "set_running t True (set_wait t (tell e (waits s t)) s)"
  obtain r where r: "waits s t = Receiving r" using Cons.prems [of t] by auto
  have "expunge_all (t # ts) e s = expunge_all ts e ?s" using r by simp
  moreover have "\<exists>r. waits ?s u = Receiving r" if "u \<in> set ts" for u
    using Cons.prems [of u] that r by (auto simp: set_running_def set_wait_def)
  ultimately show ?case using Cons.IH [of ?s] mark_all_Cons [of "tell e" ts t s] detach_detach by simp
qed simp

lemma expunge_again:
  assumes "\<And>t. t \<in> set ts \<Longrightarrow> receiving (waits s t) i p"
  shows "expunge_all ts EAGAIN s = Done (mark_all id ts s)"
proof -
  have same: "tell EAGAIN (waits s t) = waits s t" if "t \<in> set ts" for t
    using assms [OF that] by (auto simp: receiving_def)
  have "expunge_all ts EAGAIN s = Done (mark_all (tell EAGAIN) ts s)"
    using assms by (intro expunge_all_mark) (auto simp: receiving_def)
  also have "mark_all (tell EAGAIN) ts s = mark_all id ts s"
    using same by (auto simp: mark_all_def fun_eq_iff intro!: msg_state.equality)
  finally show ?thesis .
qed

lemma wake_all_inv: "msg_inv s \<Longrightarrow> msg_inv (mark_all id ts s)"
  by (rule msg_inv_cong) (auto simp: mark_all_def)

lemma mark_all_id_simps [simp]:
  "msg_ids (mark_all f ts s) = msg_ids s" "mqs (mark_all f ts s) = mqs s" "waits (mark_all id ts s) = waits s"
  "clock (mark_all f ts s) = clock s" "msg_bytes (mark_all f ts s) = msg_bytes s"
  "msg_hdrs (mark_all f ts s) = msg_hdrs s" "msg_ctlmni (mark_all f ts s) = msg_ctlmni s"
  by (simp_all add: mark_all_def fun_eq_iff)

section \<open>Changes of one queue\<close>

lemma queue_upd_simps [simp]:
  "msg_ids (queue_upd p f s) = msg_ids s" "waits (queue_upd p f s) = waits s" "procs (queue_upd p f s) = procs s"
  "mqs (queue_upd p f s) = (mqs s)(p := f (mqs s p))" "msg_bytes (queue_upd p f s) = msg_bytes s"
  "msg_hdrs (queue_upd p f s) = msg_hdrs s" "msg_ctlmni (queue_upd p f s) = msg_ctlmni s"
  "clock (queue_upd p f s) = clock s"
  by (simp_all add: queue_upd_def)

lemma set_wait_simps [simp]:
  "msg_ids (set_wait t w s) = msg_ids s" "waits (set_wait t w s) = (waits s)(t := w)"
  "procs (set_wait t w s) = procs s" "mqs (set_wait t w s) = mqs s" "msg_bytes (set_wait t w s) = msg_bytes s"
  "msg_hdrs (set_wait t w s) = msg_hdrs s" "msg_ctlmni (set_wait t w s) = msg_ctlmni s"
  "clock (set_wait t w s) = clock s"
  by (simp_all add: set_wait_def)

lemma set_running_simps [simp]:
  "msg_ids (set_running t b s) = msg_ids s" "waits (set_running t b s) = waits s"
  "procs (set_running t b s) = (procs s)(t := (procs s t)\<lparr>running := b\<rparr>)" "mqs (set_running t b s) = mqs s"
  "msg_bytes (set_running t b s) = msg_bytes s" "msg_hdrs (set_running t b s) = msg_hdrs s"
  "msg_ctlmni (set_running t b s) = msg_ctlmni s" "clock (set_running t b s) = clock s"
  by (simp_all add: set_running_def)

lemma upd_commute:
  "set_running t b (queue_upd p f s) = queue_upd p f (set_running t b s)"
  "set_wait t w (queue_upd p f s) = queue_upd p f (set_wait t w s)"
  by (cases s; simp add: msg_updates)+

text \<open>Times, process numbers, the limit and the permissions.\<close>

lemma stamp_inv:
  assumes "msg_inv s" "held s i p" "\<And>q. q_messages (f q) = q_messages q" "\<And>q. q_cbytes (f q) = q_cbytes q"
    "\<And>q. q_qnum (f q) = q_qnum q" "\<And>q. q_receivers (f q) = q_receivers q" "\<And>q. q_senders (f q) = q_senders q"
  shows "msg_inv (queue_upd p f s)"
  using msg_invD(5) [OF assms(1,2)]
  by (intro msg_inv_upd [OF assms(1,2)]) (simp_all add: assms(3-) queue_ok_def counted_def)

lemma awake_simps [simp]: "\<not> receiving Awake i p" "\<not> sending Awake i p" "tied p Awake" "wait_ok ids b Awake"
  by (simp_all add: receiving_def sending_def tied_def wait_ok_def)

lemma receiving_simps [simp]: "\<not> sending (Receiving r) i p" "wait_ok ids b (Receiving r) = rcv_ok ids b r"
  by (simp_all add: sending_def wait_ok_def)

lemma sending_simps [simp]: "\<not> receiving (Sending d) i p" "wait_ok ids b (Sending d) = snd_ok ids b d"
  by (simp_all add: receiving_def wait_ok_def)

text \<open>A receiver gets its answer and leaves the list.\<close>

lemma hand_inv:
  assumes "msg_inv s" "held s i p" "t \<in> set (q_receivers (mqs s p))" "waits s t = Receiving r"
    "x \<noteq> Inl EAGAIN" "\<And>m. x = Inr m \<Longrightarrow> msg_wf m"
  shows "msg_inv (set_running t True (set_wait t (Receiving (r\<lparr>r_msg := x\<rparr>))
    (queue_upd p (\<lambda>q. q\<lparr>q_receivers := remove1 t (q_receivers q)\<rparr>) s)))" (is "msg_inv ?s'")
proof (rule msg_inv_upd [OF assms(1,2)])
  note o = queue_okD [OF msg_invD(5) [OF assms(1,2)]]
  have d: "distinct (q_receivers (mqs s p))" using o(1) by (simp add: counted_def)
  have no: "\<not> receiving (Receiving (r\<lparr>r_msg := x\<rparr>)) j q" for j q using assms(5) by (simp add: receiving_def)
  show "queue_ok ?s' i p"
    using o d no assms(4) by (auto simp: queue_ok_def counted_def)
  show "waits ?s' u = waits s u \<and> (running (procs s u) \<longrightarrow> running (procs ?s' u)) \<or>
      tied p (waits s u) \<and> tied p (waits ?s' u) \<and> wait_ok (msg_ids s) (running (procs ?s' u)) (waits ?s' u)" for u
  proof (cases "u = t")
    case True
    have "receiving (waits s t) i p" using o(2) assms(3) by simp
    then have "tied p (waits s t)" by (auto simp: tied_def receiving_def sending_def)
    moreover have "rcv_ok (msg_ids s) True (r\<lparr>r_msg := x\<rparr>)"
      using msg_invD(6) [OF assms(1), of t] assms(4-6) by (simp add: rcv_ok_def)
    ultimately show ?thesis using True no by (simp add: tied_def)
  qed simp
qed simp_all

text \<open>The process stops to wait.\<close>

lemma leave_inv:
  assumes "msg_inv s" "waits s t = Receiving r" "r_msg r = Inl EAGAIN"
  shows "msg_inv (queue_upd (r_queue r) (\<lambda>q. q\<lparr>q_receivers := remove1 t (q_receivers q)\<rparr>)
    (set_wait t Awake (set_running t True s)))" (is "msg_inv ?s'")
proof -
  let ?p = "r_queue r" and ?i = "slot_of (r_msqid r)"
  have h: "held s ?i ?p" using msg_invD(6) [OF assms(1), of t] assms(2,3) by (simp add: rcv_ok_def)
  note o = queue_okD [OF msg_invD(5) [OF assms(1) h]]
  have d: "distinct (q_receivers (mqs s ?p))" using o(1) by (simp add: counted_def)
  have tied: "tied ?p (waits s t)" using assms(2) by (auto simp: tied_def receiving_def sending_def)
  have sn: "t \<notin> set (q_senders (mqs s ?p))" using o(3) assms(2) by simp
  show ?thesis
  proof (rule msg_inv_upd [OF assms(1) h])
    show "queue_ok ?s' ?i ?p" using o d sn by (auto simp: queue_ok_def counted_def)
  qed (use tied in auto)
qed

lemma snd_leave_inv:
  assumes "msg_inv s" "waits s t = Sending d" "ss_linked d"
  shows "msg_inv (queue_upd (ss_queue d) (\<lambda>q. q\<lparr>q_senders := remove1 t (q_senders q)\<rparr>)
    (set_wait t Awake (set_running t True s)))" (is "msg_inv ?s'")
proof -
  let ?p = "ss_queue d" and ?i = "slot_of (ss_msqid d)"
  have h: "held s ?i ?p" using msg_invD(6) [OF assms(1), of t] assms(2,3) by (simp add: snd_ok_def)
  note o = queue_okD [OF msg_invD(5) [OF assms(1) h]]
  have d: "distinct (q_senders (mqs s ?p))" using o(1) by (simp add: counted_def)
  have tied: "tied ?p (waits s t)" using assms(2) by (auto simp: tied_def receiving_def sending_def)
  have sn: "t \<notin> set (q_receivers (mqs s ?p))" using o(2) assms(2) by simp
  show ?thesis
  proof (rule msg_inv_upd [OF assms(1) h])
    show "queue_ok ?s' ?i ?p" using o d sn by (auto simp: queue_ok_def counted_def)
  qed (use tied in auto)
qed

text \<open>A process that is on no list any more wakes up.\<close>

lemma wake_inv:
  assumes "msg_inv s" "\<And>i p. \<not> receiving (waits s t) i p" "\<And>i p. \<not> sending (waits s t) i p"
  shows "msg_inv (set_wait t Awake (set_running t True s))" (is "msg_inv ?s'")
proof (rule msg_invI)
  show "queue_ok ?s' i p" if "held ?s' i p" for i p
  proof -
    note o = queue_okD [OF msg_invD(5) [OF assms(1), of i p]]
    have h: "held s i p" using that by simp
    show ?thesis using o [OF h] assms(2,3) by (auto simp: queue_ok_def)
  qed
  show "j = k" if "held ?s' j q" "held ?s' k q" for j k q using msg_invD(3) [OF assms(1)] that by simp
  show "wait_ok (msg_ids ?s') (running (procs ?s' u)) (waits ?s' u)" for u
    using msg_invD(6) [OF assms(1), of u] by simp
qed (use msg_invD(1,2,4) [OF assms(1)] in \<open>simp_all add: totals_def\<close>)


section \<open>Messages enter and leave a queue\<close>

lemma msg_enqueue_inv:
  assumes "msg_inv s" "held s i p" "msg_wf m" "\<And>t. t \<in> set (q_receivers (mqs s p)) \<Longrightarrow> \<not> wants (waits s t) m"
  shows "msg_inv ((queue_upd p (\<lambda>q. q\<lparr>q_cbytes := q_cbytes q + m_ts m, q_qnum := q_qnum q + 1,
      q_messages := q_messages q @ [m]\<rparr>) s)\<lparr>msg_bytes := msg_bytes s + m_ts m, msg_hdrs := msg_hdrs s + 1\<rparr>)"
    (is "msg_inv ?s'")
proof (rule msg_inv_upd [OF assms(1,2)])
  note o = queue_okD [OF msg_invD(5) [OF assms(1,2)]]
  show "queue_ok ?s' i p" using o assms(3,4) by (auto simp: queue_ok_def counted_def)
qed simp_all

lemma sum_list_remove_nth:
  fixes f :: "'b \<Rightarrow> 'a::ab_group_add"
  assumes "k < length xs"
  shows "sum_list (map f (take k xs @ drop (Suc k) xs)) = sum_list (map f xs) - f (xs ! k)"
  using arg_cong [OF id_take_nth_drop [OF assms], of "\<lambda>xs. sum_list (map f xs)"] by simp

lemma msg_take_simps [simp]:
  "msg_ids (msg_take t p k s) = msg_ids s" "waits (msg_take t p k s) = waits s" "procs (msg_take t p k s) = procs s"
  "q_senders (mqs (msg_take t p k s) p) = q_senders (mqs s p)"
  by (simp_all add: msg_take_def Let_def)

lemma take_inv:
  assumes "msg_inv s" "held s i p" "k < length (q_messages (mqs s p))"
  shows "msg_inv (msg_take t p k s)" (is "msg_inv ?s'")
proof (rule msg_inv_upd [OF assms(1,2)])
  note o = queue_okD [OF msg_invD(5) [OF assms(1,2)]]
  let ?ms = "q_messages (mqs s p)"
  have c: "sum_list (map m_ts (take k ?ms @ drop (Suc k) ?ms)) = q_cbytes (mqs s p) - m_ts (?ms ! k)"
    using sum_list_remove_nth [OF assms(3), of m_ts] o(1) by (simp add: counted_def)
  have "q_qnum (mqs s p) = of_nat (Suc (length (take k ?ms @ drop (Suc k) ?ms)))"
    using o(1) assms(3) by (simp add: counted_def min_def)
  then have n: "of_nat (length (take k ?ms @ drop (Suc k) ?ms)) = q_qnum (mqs s p) - 1" by simp
  have sub: "set (take k ?ms @ drop (Suc k) ?ms) \<subseteq> set ?ms" by (auto dest: in_set_takeD in_set_dropD)
  have q: "counted (mqs ?s' p)"
    using o(1) c n sub by (auto simp: counted_def msg_take_def Let_def)
  show "queue_ok ?s' i p"
    using q o(2-4) sub unfolding queue_ok_def by (simp add: msg_take_def Let_def) blast
qed (simp_all add: msg_take_def Let_def)

lemma search_loop_None:
  "search_loop md ty i found ms = None \<longleftrightarrow> found = None \<and> (\<forall>m\<in>set ms. \<not> testmsg m ty md)"
  by (induction ms arbitrary: ty i found) auto

lemma search_loop_range: "search_loop md ty i found ms = Some k \<Longrightarrow> found = Some k \<or> i \<le> k \<and> k < i + length ms"
proof (induction ms arbitrary: ty i found)
  case (Cons m ms)
  then show ?case by (fastforce split: if_splits)
qed simp

section \<open>Going to sleep\<close>

lemma ss_add_inv:
  assumes "msg_inv s" "held s i p" "waits s t = Awake" "0 \<le> x" "slot_of x = i" "msg_wf m"
  shows "msg_inv (ss_add t p x m flg s)" (is "msg_inv ?s'")
proof (rule msg_inv_upd [OF assms(1,2)])
  note o = queue_okD [OF msg_invD(5) [OF assms(1,2)]]
  let ?d = "\<lparr>ss_linked = True, ss_queue = p, ss_msqid = x, ss_msg = m, ss_msgflg = flg\<rparr>"
  have out: "t \<notin> set (q_receivers (mqs s p))" "t \<notin> set (q_senders (mqs s p))" using o(2,3) assms(3) by simp_all
  have d: "sending (Sending ?d) i p" using assms(5) by (simp add: sending_def)
  show "queue_ok ?s' i p"
    using o out d by (auto simp: ss_add_def queue_ok_def counted_def)
  have sz: "int i < ids_size (msg_ids s)" using holds_slot [OF msg_invD(1) [OF assms(1)] assms(2)] by simp
  have "snd_ok (msg_ids s) False ?d" using assms(2,4-6) sz by (simp add: snd_ok_def)
  then show "waits ?s' u = waits s u \<and> (running (procs s u) \<longrightarrow> running (procs ?s' u)) \<or>
      tied p (waits s u) \<and> tied p (waits ?s' u) \<and> wait_ok (msg_ids s) (running (procs ?s' u)) (waits ?s' u)" for u
    using assms(3) by (cases "u = t") (auto simp: ss_add_def tied_def sending_def)
qed (simp_all add: ss_add_def)

lemma rcv_sleep_inv:
  assumes "msg_inv s" "held s i p" "waits s t = Awake" "0 \<le> r_msqid r" "slot_of (r_msqid r) = i"
    "r_queue r = p" "r_msg r = Inl EAGAIN"
    "\<And>m. m \<in> set (q_messages (mqs s p)) \<Longrightarrow> \<not> testmsg m (r_msgtype r) (r_mode r)"
  shows "msg_inv (set_running t False (set_wait t (Receiving r)
    (queue_upd p (\<lambda>q. q\<lparr>q_receivers := q_receivers q @ [t]\<rparr>) s)))" (is "msg_inv ?s'")
proof (rule msg_inv_upd [OF assms(1,2)])
  note o = queue_okD [OF msg_invD(5) [OF assms(1,2)]]
  have out: "t \<notin> set (q_receivers (mqs s p))" "t \<notin> set (q_senders (mqs s p))" using o(2,3) assms(3) by simp_all
  have r: "receiving (Receiving r) i p" using assms(5-7) by (simp add: receiving_def)
  have w: "\<not> wants (Receiving r) m" if "m \<in> set (q_messages (mqs s p))" for m
    using assms(8) [OF that] by (simp add: wants_def)
  show "queue_ok ?s' i p" using o out r w by (auto simp: queue_ok_def counted_def)
  have sz: "int i < ids_size (msg_ids s)" using holds_slot [OF msg_invD(1) [OF assms(1)] assms(2)] by simp
  have "rcv_ok (msg_ids s) False r" using assms(2,4-7) sz by (simp add: rcv_ok_def)
  then show "waits ?s' u = waits s u \<and> (running (procs s u) \<longrightarrow> running (procs ?s' u)) \<or>
      tied p (waits s u) \<and> tied p (waits ?s' u) \<and> wait_ok (msg_ids s) (running (procs ?s' u)) (waits ?s' u)" for u
    using assms(3,6) by (cases "u = t") (auto simp: tied_def receiving_def)
qed simp_all

section \<open>Handing a message to a sleeper\<close>

text \<open>What handing a message over leaves alone: all but the receivers of one queue.\<close>

definition handed :: "addr \<Rightarrow> msg_state \<Rightarrow> msg_state \<Rightarrow> bool" where
  "handed p s s' \<longleftrightarrow> msg_ids s' = msg_ids s \<and> msg_bytes s' = msg_bytes s \<and> msg_hdrs s' = msg_hdrs s \<and>
     clock s' = clock s \<and> bset s' = bset s \<and> msg_ctlmax s' = msg_ctlmax s \<and> (\<forall>q. q \<noteq> p \<longrightarrow> mqs s' q = mqs s q) \<and>
     q_messages (mqs s' p) = q_messages (mqs s p) \<and> q_cbytes (mqs s' p) = q_cbytes (mqs s p) \<and>
     q_qnum (mqs s' p) = q_qnum (mqs s p) \<and> q_qbytes (mqs s' p) = q_qbytes (mqs s p) \<and>
     q_senders (mqs s' p) = q_senders (mqs s p) \<and> q_perm (mqs s' p) = q_perm (mqs s p) \<and>
     set (q_receivers (mqs s' p)) \<subseteq> set (q_receivers (mqs s p)) \<and>
     (\<forall>t. t \<notin> set (q_receivers (mqs s p)) \<longrightarrow> waits s' t = waits s t \<and> procs s' t = procs s t)"

lemma handed_refl [simp]: "handed p s s"
  by (simp add: handed_def)

lemma handed_trans:
  assumes "handed p s1 s2" "handed p s2 s3"
  shows "handed p s1 s3"
  using assms unfolding handed_def by auto

text \<open>
  The message goes to the first receiver on the list that accepts its type and its size.
  The receivers before it that accept the type are told that the message is too big.
\<close>

definition accepts :: "msg_wait \<Rightarrow> msg_msg \<Rightarrow> bool" where
  "accepts w m \<longleftrightarrow> (\<exists>r. w = Receiving r \<and> testmsg m (r_msgtype r) (r_mode r) \<and> \<not> sint (r_maxsize r) < sint (m_ts m))"

definition hands_over :: "addr \<Rightarrow> msg_msg \<Rightarrow> nat list \<Rightarrow> msg_state \<Rightarrow> msg_state \<Rightarrow> bool \<Rightarrow> bool" where
  "hands_over p m ts s s' taken \<longleftrightarrow>
     (if taken then \<exists>t r. find (\<lambda>t. accepts (waits s t) m) ts = Some t \<and> waits s t = Receiving r \<and>
        waits s' t = Receiving (r\<lparr>r_msg := Inr m\<rparr>)
      else find (\<lambda>t. accepts (waits s t) m) ts = None \<and>
        (\<forall>t \<in> set (q_receivers (mqs s' p)). \<not> wants (waits s' t) m))"

lemma pipelined_loop_ok:
  assumes "msg_inv s" "held s i p" "msg_wf m" "set ts \<subseteq> set (q_receivers (mqs s p))" "distinct ts"
    "\<And>t. t \<in> set (q_receivers (mqs s p)) - set ts \<Longrightarrow> \<not> wants (waits s t) m"
  shows "\<exists>s' b. pipelined_loop p m ts s = Done (s', b) \<and> msg_inv s' \<and> handed p s s' \<and>
    hands_over p m ts s s' b"
  using assms
proof (induction ts arbitrary: s)
  case Nil
  then show ?case by (auto simp: hands_over_def)
next
  case (Cons t ts)
  note o = queue_okD [OF msg_invD(5) [OF Cons.prems(1,2)]]
  have "receiving (waits s t) i p" using o(2) Cons.prems(4) by simp
  then obtain r where r: "waits s t = Receiving r" by (auto simp: receiving_def)
  have dist: "distinct (q_receivers (mqs s p))" using o(1) by (simp add: counted_def)
  let ?u = "queue_upd p (\<lambda>q. q\<lparr>q_receivers := remove1 t (q_receivers q)\<rparr>) s"
  let ?h = "\<lambda>x. set_running t True (set_wait t (Receiving (r\<lparr>r_msg := x\<rparr>)) ?u)"
  have inr: "t \<in> set (q_receivers (mqs s p))" using Cons.prems(4) by simp
  have hd: "handed p s (?h x)" for x
    using inr by (auto simp: handed_def msg_updates dest: notin_set_remove1 set_remove1_subset [THEN subsetD])
  show ?case
  proof (cases "testmsg m (r_msgtype r) (r_mode r)")
    case False
    then have "pipelined_loop p m (t # ts) s = pipelined_loop p m ts s"
      "hands_over p m (t # ts) s s' b = hands_over p m ts s s' b" for s' b
      using r by (simp_all add: accepts_def hands_over_def)
    moreover have "\<not> wants (waits s u) m" if "u \<in> set (q_receivers (mqs s p)) - set ts" for u
      using Cons.prems(6) [of u] that r False by (cases "u = t") (auto simp: wants_def)
    ultimately show ?thesis using Cons.IH [OF Cons.prems(1-3)] Cons.prems(4,5) by (simp only:) simp
  next
    case match: True
    show ?thesis
    proof (cases "sint (r_maxsize r) < sint (m_ts m)")
      case True
      let ?s = "?h (Inl E2BIG)"
      have inv: "msg_inv ?s" by (rule hand_inv [OF Cons.prems(1,2) inr r]) simp_all
      have eq: "pipelined_loop p m (t # ts) s = pipelined_loop p m ts ?s"
        using r match True by (simp add: Let_def)
      have out: "t \<notin> set ts" using Cons.prems(5) by simp
      have same: "waits ?s u = waits s u" if "u \<noteq> t" for u using that by simp
      have sub: "set ts \<subseteq> set (q_receivers (mqs ?s p))" using Cons.prems(4) out dist by auto
      have no: "\<not> wants (waits ?s u) m" if "u \<in> set (q_receivers (mqs ?s p)) - set ts" for u
        using Cons.prems(6) [of u] that dist by auto
      have "find (\<lambda>u. accepts (waits s u) m) (t # ts) = find (\<lambda>u. accepts (waits ?s u) m) ts"
        using r True out by (auto simp: accepts_def intro!: find_cong)
      moreover obtain s' b where s': "pipelined_loop p m ts ?s = Done (s', b)" "msg_inv s'" "handed p ?s s'"
        "hands_over p m ts ?s s' b"
        using Cons.IH [OF inv _ Cons.prems(3) sub _ no] Cons.prems(2,5) by auto
      moreover have "waits s u = waits ?s u" if "find (\<lambda>u. accepts (waits ?s u) m) ts = Some u" for u
        using that out by (auto simp: find_Some_iff)
      ultimately have "hands_over p m (t # ts) s s' b" unfolding hands_over_def by (metis (no_types, lifting))
      then show ?thesis using handed_trans [OF hd s'(3)] s'(2) unfolding eq s'(1) by blast
    next
      case False
      let ?f = "\<lambda>q. q\<lparr>q_lspid := ucast (mpid (procs s t)), q_rtime := clock s\<rparr>"
      have inv: "msg_inv (?h (Inr m))" by (rule hand_inv [OF Cons.prems(1,2) inr r]) (use Cons.prems(3) in simp_all)
      then have "msg_inv (queue_upd p ?f (?h (Inr m)))" using Cons.prems(2) by (intro stamp_inv [where i = i]) simp_all
      moreover have "handed p (?h (Inr m)) (queue_upd p ?f (?h (Inr m)))"
        by (simp add: handed_def msg_updates)
      moreover have "pipelined_loop p m (t # ts) s = Done (queue_upd p ?f (?h (Inr m)), True)"
        using r match False by (simp add: Let_def upd_commute)
      moreover have "accepts (waits s t) m" using r match False by (simp add: accepts_def)
      ultimately show ?thesis using handed_trans [OF hd] r by (auto simp: hands_over_def)
    qed
  qed
qed

end
