(* ===== verification/Ipc_Msg_Ops.thy ===== *)
theory Ipc_Msg_Ops
  imports Ipc_Msg_Inv
begin

text \<open>
  The system calls on message queues keep the invariant of \<open>Ipc_Msg_Inv\<close>, complete, and leave no
  sender asleep whose message would fit into its queue.
\<close>

section \<open>Senders that sleep\<close>

definition blocked :: "msg_state \<Rightarrow> bool" where
  "blocked s \<longleftrightarrow> (\<forall>i p t d. held s i p \<longrightarrow> t \<in> set (q_senders (mqs s p)) \<longrightarrow> waits s t = Sending d \<longrightarrow>
     \<not> running (procs s t) \<longrightarrow> queue_full (ss_msg d) (mqs s p))"

text \<open>
  The messages of a queue are in the memory of the kernel, which is less than \<open>2^30\<close> bytes on i386;
  a message takes more than the bytes of its text.
\<close>

definition queue_memory :: "msg_queue \<Rightarrow> int" where
  "queue_memory q = (\<Sum>m\<leftarrow>q_messages q. uint (m_ts m) + 1)"

definition in_memory :: "msg_state \<Rightarrow> bool" where
  "in_memory s \<longleftrightarrow>
     list_all (\<lambda>e. case e of None \<Rightarrow> True | Some p \<Rightarrow> queue_memory (mqs s p) < 2 ^ 30) (entries (msg_ids s))"

lemma in_memory_iff: "in_memory s \<longleftrightarrow> (\<forall>p. Some p \<in> set (entries (msg_ids s)) \<longrightarrow> queue_memory (mqs s p) < 2 ^ 30)"
  by (auto simp: in_memory_def list_all_iff split: option.splits)

lemma in_memoryD: "in_memory s \<Longrightarrow> held s i p \<Longrightarrow> queue_memory (mqs s p) < 2 ^ 30"
  using holds_in by (auto simp: in_memory_iff)

lemma blockedD:
  "blocked s \<Longrightarrow> held s i p \<Longrightarrow> t \<in> set (q_senders (mqs s p)) \<Longrightarrow> waits s t = Sending d \<Longrightarrow>
    \<not> running (procs s t) \<Longrightarrow> queue_full (ss_msg d) (mqs s p)"
  unfolding blocked_def by blast

lemma blocked_upd:
  assumes "blocked s"
    "\<And>i p t d. held s' i p \<Longrightarrow> t \<in> set (q_senders (mqs s' p)) \<Longrightarrow> waits s' t = Sending d \<Longrightarrow> \<not> running (procs s' t) \<Longrightarrow>
      queue_full (ss_msg d) (mqs s' p) \<or>
      held s i p \<and> t \<in> set (q_senders (mqs s p)) \<and> waits s t = Sending d \<and> \<not> running (procs s t) \<and>
        (queue_full (ss_msg d) (mqs s p) \<longrightarrow> queue_full (ss_msg d) (mqs s' p))"
  shows "blocked s'"
  unfolding blocked_def using assms(2) blockedD [OF assms(1)] by blast

lemma queue_memory_append: "q_messages q' = q_messages q @ [m] \<Longrightarrow> queue_memory q \<le> queue_memory q'"
  using unsigned_greater_eq [of "m_ts m", where 'a = int] by (simp add: queue_memory_def)

lemma counted_memory:
  assumes "counted q" "queue_memory q < 2 ^ 30"
  shows "unat (q_cbytes q) = (\<Sum>m\<leftarrow>q_messages q. unat (m_ts m))" "unat (q_qnum q) = length (q_messages q)"
    "unat (q_cbytes q) < 2 ^ 30" "unat (q_qnum q) < 2 ^ 30"
proof -
  have "queue_memory q = int ((\<Sum>m\<leftarrow>q_messages q. unat (m_ts m)) + length (q_messages q))"
    unfolding queue_memory_def by (rule list.induct [of _ "q_messages q"]) simp_all
  then have m: "(\<Sum>m\<leftarrow>q_messages q. unat (m_ts m)) + length (q_messages q) < 2 ^ 30" using assms(2) by simp
  then show c: "unat (q_cbytes q) = (\<Sum>m\<leftarrow>q_messages q. unat (m_ts m))"
    using assms unat_sum_list [of "map m_ts (q_messages q)"] by (simp add: counted_def comp_def)
  show n: "unat (q_qnum q) = length (q_messages q)"
    using assms m by (simp add: counted_def unat_of_nat)
  show "unat (q_cbytes q) < 2 ^ 30" "unat (q_qnum q) < 2 ^ 30" using assms(2) m c n by simp_all
qed

text \<open>A queue that is full stays full when a message is added.\<close>

lemma queue_full_mono:
  assumes "counted q" "counted q'" "queue_memory q' < 2 ^ 30" "msg_wf m" "queue_full m q"
    "q_qbytes q' = q_qbytes q" "q_messages q' = q_messages q @ [m']"
  shows "queue_full m q'"
proof -
  have mem: "queue_memory q < 2 ^ 30" using assms(3) queue_memory_append [OF assms(7)] by simp
  note c = counted_memory [OF assms(1) mem] counted_memory [OF assms(2,3)]
  have m: "unat (m_ts m) < 2 ^ 31" using assms(4) by (simp add: msg_wf_def)
  have le: "unat (q_cbytes q) \<le> unat (q_cbytes q')" "unat (q_qnum q) \<le> unat (q_qnum q')"
    using c assms(7) by simp_all
  have sum: "unat (m_ts m + x) = unat (m_ts m) + unat x" "unat (1 + x) = 1 + unat x" if "unat x < 2 ^ 30" for x
    using that m by (simp_all add: unat_plus_no_wrap)
  have "unat (m_ts m + q_cbytes q) \<le> unat (m_ts m + q_cbytes q')" "unat (1 + q_qnum q) \<le> unat (1 + q_qnum q')"
    using sum [OF c(3)] sum [OF c(4)] sum [OF c(7)] sum [OF c(8)] le by linarith+
  then show ?thesis using assms(5,6) unfolding queue_full_def word_less_nat_alt by auto
qed

text \<open>What a call may do to a state.\<close>

definition good :: "msg_state \<Rightarrow> msg_state \<Rightarrow> bool" where
  "good s s' \<longleftrightarrow> msg_inv s' \<and> (blocked s \<longrightarrow> in_memory s' \<longrightarrow> blocked s')"

lemma good_cong:
  assumes "msg_inv s'" "entries (msg_ids s') = entries (msg_ids s)" "mqs s' = mqs s" "waits s' = waits s"
    "\<And>t. running (procs s t) \<Longrightarrow> running (procs s' t)"
  shows "good s s'"
proof -
  have "blocked s'" if "blocked s"
    by (rule blocked_upd [OF that]) (use assms(2-5) in \<open>auto simp: holds_def\<close>)
  then show ?thesis using assms(1) by (simp add: good_def)
qed

lemma good_unlock: "msg_inv s \<Longrightarrow> good s (msg_unlock s)" "msg_inv s \<Longrightarrow> good s (msg_locked s)"
  using msg_okI [of s] msg_locked_inv [of s] by (auto intro!: good_cong simp: msg_ok_def)

lemma blocked_locked [simp]: "blocked (s\<lparr>msg_ids := (msg_ids s)\<lparr>ary := b\<rparr>\<rparr>) = blocked s"
  by (simp add: blocked_def)

lemma in_memory_locked [simp]: "in_memory (s\<lparr>msg_ids := (msg_ids s)\<lparr>ary := b\<rparr>\<rparr>) = in_memory s"
  by (simp add: in_memory_iff)

lemma unlocked_simps [simp]: "blocked (msg_unlock s) = blocked s" "in_memory (msg_unlock s) = in_memory s"
  by (simp_all add: blocked_def in_memory_iff)

text \<open>A call that returns with the lock released.\<close>

definition call_ok :: "msg_state \<Rightarrow> (msg_state \<times> 'r) outcome \<Rightarrow> bool" where
  "call_ok s res \<longleftrightarrow> (\<exists>s' r. res = Done (s', r) \<and> msg_ok s' \<and> (blocked s \<longrightarrow> in_memory s' \<longrightarrow> blocked s'))"

lemma call_okI: "good s s' \<Longrightarrow> call_ok s (Done (msg_unlock s', r))"
  using msg_okI [of s'] by (auto simp: good_def call_ok_def)

lemma call_ok_same: "msg_ok s \<Longrightarrow> call_ok s (Done (s, r))"
  by (auto simp: call_ok_def)

lemma good_refl: "msg_inv s \<Longrightarrow> good s s"
  by (simp add: good_def)

section \<open>Sending\<close>

lemma handed_good:
  assumes "msg_inv s'" "handed p s s'" "msg_inv s" "held s i p"
  shows "good s s'"
proof -
  have ids: "msg_ids s' = msg_ids s" using assms(2) by (simp add: handed_def)
  have "blocked s'" if b: "blocked s"
  proof (rule blocked_upd [OF b])
    fix j q t d assume h: "held s' j q" "t \<in> set (q_senders (mqs s' q))" "waits s' t = Sending d" "\<not> running (procs s' t)"
    have hs: "held s j q" using h(1) by (simp add: ids)
    have f: "queue_full (ss_msg d) (mqs s' q) = queue_full (ss_msg d) (mqs s q)" "q_senders (mqs s' q) = q_senders (mqs s q)"
      using assms(2) by (cases "q = p"; simp add: handed_def queue_full_def)+
    have "sending (waits s t) j q" using h(2) f queue_okD(3) [OF msg_invD(5) [OF assms(3) hs]] by simp
    then have "t \<notin> set (q_receivers (mqs s p))"
      using queue_okD(2) [OF msg_invD(5) [OF assms(3,4)]] by (auto simp: sending_def receiving_def)
    then have "waits s' t = waits s t" "procs s' t = procs s t" using assms(2) by (simp_all add: handed_def)
    then show "queue_full (ss_msg d) (mqs s' q) \<or> held s j q \<and> t \<in> set (q_senders (mqs s q)) \<and> waits s t = Sending d \<and>
        \<not> running (procs s t) \<and> (queue_full (ss_msg d) (mqs s q) \<longrightarrow> queue_full (ss_msg d) (mqs s' q))"
      using h hs f by simp
  qed
  then show ?thesis using assms(1) by (simp add: good_def)
qed

lemma stamp_good:
  assumes "msg_inv s" "held s i p" "\<And>q. q_messages (f q) = q_messages q" "\<And>q. q_cbytes (f q) = q_cbytes q"
    "\<And>q. q_qnum (f q) = q_qnum q" "\<And>q. q_receivers (f q) = q_receivers q" "\<And>q. q_senders (f q) = q_senders q"
    "\<And>q. q_qbytes (f q) = q_qbytes q"
  shows "good s (queue_upd p f s)"
proof -
  have "blocked (queue_upd p f s)" if "blocked s"
    by (rule blocked_upd [OF that]) (auto simp: assms(3-) queue_full_def)
  then show ?thesis using stamp_inv [OF assms(1-7)] by (simp add: good_def)
qed

lemma enqueue_good:
  assumes "msg_inv s" "held s i p" "msg_wf m" "\<And>t. t \<in> set (q_receivers (mqs s p)) \<Longrightarrow> \<not> wants (waits s t) m"
  shows "good s ((queue_upd p (\<lambda>q. q\<lparr>q_cbytes := q_cbytes q + m_ts m, q_qnum := q_qnum q + 1,
      q_messages := q_messages q @ [m]\<rparr>) s)\<lparr>msg_bytes := msg_bytes s + m_ts m, msg_hdrs := msg_hdrs s + 1\<rparr>)"
    (is "good s ?s'")
proof -
  note inv = msg_enqueue_inv [OF assms]
  have "blocked ?s'" if b: "blocked s" and mem: "in_memory ?s'"
  proof (rule blocked_upd [OF b])
    fix j q t d assume h: "held ?s' j q" "t \<in> set (q_senders (mqs ?s' q))" "waits ?s' t = Sending d" "\<not> running (procs ?s' t)"
    have c: "counted (mqs s q)" "counted (mqs ?s' q)"
      using queue_okD(1) [OF msg_invD(5) [OF assms(1)]] queue_okD(1) [OF msg_invD(5) [OF inv]] h(1) by simp_all
    have "msg_wf (ss_msg d)" using msg_invD(6) [OF assms(1), of t] h(3) by (simp add: snd_ok_def)
    then have "queue_full (ss_msg d) (mqs ?s' q)" if "queue_full (ss_msg d) (mqs s q)"
      using that queue_full_mono [OF c in_memoryD [OF mem h(1)], of "ss_msg d" m] by (cases "q = p") simp_all
    then show "queue_full (ss_msg d) (mqs ?s' q) \<or> held s j q \<and> t \<in> set (q_senders (mqs s q)) \<and> waits s t = Sending d \<and>
        \<not> running (procs s t) \<and> (queue_full (ss_msg d) (mqs s q) \<longrightarrow> queue_full (ss_msg d) (mqs ?s' q))"
      using h by (simp split: if_splits)
  qed
  then show ?thesis using inv by (simp add: good_def)
qed

lemma ss_add_good:
  assumes "msg_inv s" "held s i p" "waits s t = Awake" "0 \<le> x" "slot_of x = i" "msg_wf m" "queue_full m (mqs s p)"
  shows "good s (ss_add t p x m flg s)" (is "good s ?s'")
proof -
  have f: "queue_full m' (mqs ?s' q) = queue_full m' (mqs s q)" for m' q by (simp add: ss_add_def queue_full_def)
  have t: "held s j q \<Longrightarrow> t \<notin> set (q_senders (mqs s q))" for j q
    using queue_okD(3) [OF msg_invD(5) [OF assms(1)]] assms(3) by simp
  have "blocked ?s'" if "blocked s"
    by (rule blocked_upd [OF that], unfold f) (use assms(7) t in \<open>auto simp: ss_add_def split: if_splits\<close>)
  then show ?thesis using ss_add_inv [OF assms(1-6)] by (simp add: good_def)
qed

lemma good_in_memory:
  "good s s1 \<Longrightarrow> good s1 s2 \<Longrightarrow> (in_memory s2 \<Longrightarrow> in_memory s1) \<Longrightarrow> good s s2"
  by (auto simp: good_def)

lemma in_memory_handed: "handed p s s' \<Longrightarrow> in_memory s' = in_memory s"
proof -
  assume h: "handed p s s'"
  have "queue_memory (mqs s' q) = queue_memory (mqs s q)" for q
    using h by (cases "q = p") (simp_all add: handed_def queue_memory_def)
  then show ?thesis using h unfolding in_memory_iff by (simp add: handed_def)
qed

lemma in_memory_stamp: "(\<And>q. q_messages (f q) = q_messages q) \<Longrightarrow> in_memory (queue_upd p f s) = in_memory s"
proof -
  assume "\<And>q. q_messages (f q) = q_messages q"
  then have "queue_memory (mqs (queue_upd p f s) q) = queue_memory (mqs s q)" for q by (simp add: queue_memory_def)
  then show ?thesis by (simp add: in_memory_iff del: queue_upd_simps(4))
qed

lemma pipelined_send_ok:
  assumes "msg_inv s" "held s i p" "msg_wf m"
  obtains s' b where "pipelined_send p m s = Done (s', b)" "msg_inv s'" "handed p s s'"
    "hands_over p m (q_receivers (mqs s p)) s s' b"
proof -
  have "distinct (q_receivers (mqs s p))"
    using queue_okD(1) [OF msg_invD(5) [OF assms(1,2)]] by (simp add: counted_def)
  then show thesis
    using pipelined_loop_ok [OF assms subset_refl] that by (auto simp: pipelined_send_def)
qed

lemma msgsnd_retry_ok:
  assumes "msg_inv s" "held s i p" "waits s t = Awake" "0 \<le> x" "slot_of x = i" "msg_wf m"
  shows "call_ok s (msgsnd_retry s t p x m flg)"
proof (cases "msg_checkid s p x \<or> msg_perms_denied s t p S_IWUGO \<or>
    queue_full m (mqs s p) \<and> flg AND ucast IPC_NOWAIT \<noteq> 0")
  case True
  then have "\<exists>e. msgsnd_retry s t p x m flg = Done (msg_unlock s, Msg_returns (Inl e))"
    by (auto simp: msgsnd_retry_def)
  then show ?thesis using call_okI [OF good_refl [OF assms(1)]] by auto
next
  case ok: False
  show ?thesis
  proof (cases "queue_full m (mqs s p)")
    case True
    then have "msgsnd_retry s t p x m flg = Done (msg_unlock (ss_add t p x m flg s), Msg_sleeps)"
      using ok by (simp add: msgsnd_retry_def)
    then show ?thesis using call_okI [OF ss_add_good [OF assms True]] by simp
  next
    case False
    obtain s1 b where s1: "pipelined_send p m s = Done (s1, b)" "msg_inv s1" "handed p s s1"
      "hands_over p m (q_receivers (mqs s p)) s s1 b"
      using pipelined_send_ok [OF assms(1,2,6)] .
    let ?q = "(queue_upd p (\<lambda>q. q\<lparr>q_cbytes := q_cbytes q + m_ts m, q_qnum := q_qnum q + 1,
        q_messages := q_messages q @ [m]\<rparr>) s1)\<lparr>msg_bytes := msg_bytes s1 + m_ts m, msg_hdrs := msg_hdrs s1 + 1\<rparr>"
    let ?s2 = "if b then s1 else ?q"
    let ?f = "\<lambda>q. q\<lparr>q_stime := clock ?s2, q_lspid := ucast (mpid (procs ?s2 t))\<rparr>"
    have h: "held s1 i p" "held ?s2 i p" using assms(2) s1(3) by (simp_all add: handed_def)
    have g1: "good s s1" using handed_good [OF s1(2,3) assms(1,2)] .
    have mem: "in_memory s1" if "in_memory ?q"
    proof -
      have "queue_memory (mqs s1 a) \<le> queue_memory (mqs ?q a)" for a
        by (cases "a = p") (simp_all add: queue_memory_append [where m = m])
      then show ?thesis using that order_le_less_trans unfolding in_memory_iff by fastforce
    qed
    have "good s ?s2"
    proof (cases b)
      case False
      then have "\<And>u. u \<in> set (q_receivers (mqs s1 p)) \<Longrightarrow> \<not> wants (waits s1 u) m"
        using s1(4) by (auto simp: hands_over_def)
      from enqueue_good [OF s1(2) h(1) assms(6) this] show ?thesis
        using good_in_memory [OF g1, of ?q] mem False by simp
    qed (use g1 in simp)
    then have "good s (queue_upd p ?f ?s2)"
      using stamp_good [of ?s2 i p ?f] h(2) by (intro good_in_memory [OF \<open>good s ?s2\<close>])
        (auto simp: good_def in_memory_stamp)
    moreover have "msgsnd_retry s t p x m flg = Done (msg_unlock (queue_upd p ?f ?s2), Msg_returns (Inr 0))"
      using ok False s1(1) by (simp add: msgsnd_retry_def Let_def)
    ultimately show ?thesis by (simp only: call_okI)
  qed
qed

lemma unat_nonneg: "\<not> n <s 0 \<Longrightarrow> unat (n :: ulong) = nat (sint n) \<and> sint n < 2 ^ 31"
proof -
  assume "\<not> n <s 0"
  then have "0 \<le> sint n" "sint n < 2 ^ 31" using sint_lt [of n] by (simp_all add: word_sless_alt)
  moreover have "uint (of_int (sint n) :: ulong) = take_bit 32 (sint n)" by (subst unsigned_of_int) simp
  ultimately show ?thesis by (simp add: take_bit_int_eq_self nat_uint_eq [symmetric] del: nat_uint_eq)
qed

lemma load_msg_wf:
  assumes "load_msg mem src (unat n) = Inr text" "\<not> n <s 0" "\<not> ty <s 1"
  shows "msg_wf \<lparr>m_type = ty, m_ts = n, m_text = text\<rparr>"
proof -
  have "text = msg_parts (take (unat n) src)" "unat n \<le> length src" using load_msg_parts [OF assms(1)] by simp_all
  moreover have "unat n < 2 ^ 31"
    using unat_nonneg [OF assms(2)] by auto
  ultimately show ?thesis using assms(3) by (auto simp: msg_wf_def word_sle_eq word_sless_alt)
qed

lemma call_ok_locked: "call_ok (msg_locked s) res = call_ok s res"
  by (simp add: call_ok_def)

lemma msgsnd_start_ok:
  assumes "msg_ok s" "waits s t = Awake" "x < 0 \<or> id_ok (msg_ids s) x"
  shows "call_ok s (msgsnd_start mem s t x ty src n flg)"
proof (cases "n > msg_ctlmax s \<or> n <s 0 \<or> x < 0 \<or> ty = None \<or> (\<exists>y. ty = Some y \<and> y <s 1) \<or>
    (\<exists>e. load_msg mem src (unat n) = Inl e)")
  case True
  then have "\<exists>e. msgsnd_start mem s t x ty src n flg = Done (s, Msg_returns (Inl e))"
    by (auto simp: msgsnd_start_def split: option.splits sum.splits)
  then show ?thesis using call_ok_same [OF assms(1)] by auto
next
  case False
  then obtain y tx where y: "ty = Some y" "load_msg mem src (unat n) = Inr tx" "\<not> y <s 1" "\<not> n <s 0"
    by (cases "load_msg mem src (unat n)") auto
  have g: "id_ok (msg_ids s) x" "0 \<le> x" using assms(3) False by auto
  have inv: "msg_inv (msg_locked s)" using assms(1) msg_locked_inv by (simp add: msg_ok_def)
  let ?m = "\<lparr>m_type = y, m_ts = n, m_text = tx\<rparr>"
  show ?thesis
  proof (cases rule: msg_lock_cases [OF assms(1) g(1)])
    case 1
    then show ?thesis using y False call_ok_same [OF assms(1)] by (simp add: msgsnd_start_def Let_def)
  next
    case (2 p)
    then have "msgsnd_start mem s t x ty src n flg = msgsnd_retry (msg_locked s) t p x ?m flg"
      using y False by (simp add: msgsnd_start_def Let_def)
    moreover have "call_ok (msg_locked s) (msgsnd_retry (msg_locked s) t p x ?m flg)"
      using 2 assms(2) g load_msg_wf [OF y(2,4,3)] by (intro msgsnd_retry_ok [OF inv]) simp_all
    ultimately show ?thesis by (simp add: call_ok_locked)
  qed
qed

text \<open>What is left of a process that sleeps, after it woke up and left the lists.\<close>

definition left :: "msg_state \<Rightarrow> nat \<Rightarrow> msg_state \<Rightarrow> bool" where
  "left s t s' \<longleftrightarrow> msg_inv s' \<and> waits s' t = Awake \<and> (blocked s \<longrightarrow> blocked s')"

lemma ss_del_left:
  assumes "msg_ok s" "waits s t = Sending d"
  shows "left s t (ss_del t d (msg_locked (set_wait t Awake (set_running t True s))))" (is "left s t ?s'")
proof -
  let ?s1 = "set_wait t Awake (set_running t True s)"
  have inv: "msg_inv s" using assms(1) by (simp add: msg_ok_def)
  have "msg_inv (ss_del t d ?s1)"
  proof (cases "ss_linked d")
    case True
    then show ?thesis using snd_leave_inv [OF inv assms(2)] by (simp add: ss_del_def)
  next
    case False
    have "msg_inv ?s1" by (rule wake_inv [OF inv]) (use assms(2) False in \<open>auto simp: sending_def\<close>)
    then show ?thesis using False by (simp add: ss_del_def)
  qed
  then have "msg_inv ?s'" by (rule msg_inv_cong) (auto simp: ss_del_def split: if_splits)
  moreover have "blocked ?s'" if "blocked s"
    by (rule blocked_upd [OF that]) (auto simp: ss_del_def queue_full_def split: if_splits dest: notin_set_remove1)
  ultimately show ?thesis by (simp add: left_def ss_del_def)
qed

lemma call_ok_left: "left s t s' \<Longrightarrow> call_ok s' res \<Longrightarrow> call_ok s res"
  by (auto simp: left_def call_ok_def)

lemma left_returns: "left s t s' \<Longrightarrow> call_ok s (Done (msg_unlock s', r))"
  using call_okI [OF good_refl] call_ok_left by (metis left_def)

lemma id_ok_slot: "0 \<le> x \<Longrightarrow> int (slot_of x) < ids_size ids \<Longrightarrow> id_ok ids x"
  using int_slot_of [of x] by (simp add: id_ok_def)

lemma msgsnd_wake_ok:
  assumes "msg_ok s" "waits s t = Sending d"
  shows "call_ok s (msgsnd_wake s t d sig)"
proof -
  let ?s1 = "set_wait t Awake (set_running t True s)"
  have inv: "msg_inv s" using assms(1) by (simp add: msg_ok_def)
  have d: "snd_ok (msg_ids s) (running (procs s t)) d" using msg_invD(6) [OF inv, of t] assms(2) by simp
  then have x: "0 \<le> ss_msqid d" "id_ok (msg_ids s) (ss_msqid d)" "msg_wf (ss_msg d)"
    using id_ok_slot by (auto simp: snd_ok_def)
  have lk: "ids_wf (msg_ids ?s1)" "msg_unlocked ?s1" "id_ok (msg_ids ?s1) (ss_msqid d)"
    using inv assms(1) x by (simp_all add: msg_invD(1) msg_ok_def)
  show ?thesis
  proof (cases rule: msg_table.lock_cases [OF lk])
    case absent: 1
    have nl: "\<not> ss_linked d" using d absent(2) by (auto simp: snd_ok_def)
    have "msg_inv ?s1" by (rule wake_inv [OF inv]) (use assms(2) nl in \<open>auto simp: sending_def\<close>)
    moreover have "blocked ?s1" if "blocked s" by (rule blocked_upd [OF that]) (auto split: if_splits)
    ultimately have "call_ok s (Done (?s1, Msg_returns (Inl EIDRM)))" using assms(1) by (simp add: call_ok_def msg_ok_def)
    then show ?thesis using absent by (simp add: msgsnd_wake_def Let_def)
  next
    case found: (2 p)
    note l = ss_del_left [OF assms]
    let ?s2 = "ss_del t d (msg_locked ?s1)"
    have h: "held ?s2 (slot_of (ss_msqid d)) p" using found(2) by (simp add: ss_del_def)
    have "msgsnd_wake s t d sig = (if sig then Done (msg_unlock ?s2, Msg_returns (Inl EINTR))
        else msgsnd_retry ?s2 t p (ss_msqid d) (ss_msg d) (ss_msgflg d))"
      using found by (simp add: msgsnd_wake_def Let_def)
    moreover have "call_ok ?s2 (msgsnd_retry ?s2 t p (ss_msqid d) (ss_msg d) (ss_msgflg d))"
      using l x h by (intro msgsnd_retry_ok) (simp_all add: left_def)
    ultimately show ?thesis
      using left_returns [OF l, of "Msg_returns (Inl EINTR)"] call_ok_left [OF l]
      by (cases sig) (simp_all only: if_True if_False)
  qed
qed

section \<open>Receiving\<close>

lemma take_wake_good:
  assumes "msg_inv s" "held s i p" "k < length (q_messages (mqs s p))"
  shows "ss_wakeup (q_senders (mqs s p)) False (msg_take t p k s) =
      Done (mark_all id (q_senders (mqs s p)) (msg_take t p k s))" (is "_ = Done ?s'")
    and "good s (mark_all id (q_senders (mqs s p)) (msg_take t p k s))"
proof -
  note o = queue_okD [OF msg_invD(5) [OF assms(1,2)]]
  show "ss_wakeup (q_senders (mqs s p)) False (msg_take t p k s) = Done ?s'"
    using ss_wakeup_mark [of "q_senders (mqs s p)" "msg_take t p k s" False] o(3) by (auto simp: sending_def)
  have other: "q \<noteq> p \<Longrightarrow> mqs (msg_take t p k s) q = mqs s q" for q by (simp add: msg_take_def Let_def)
  have "blocked ?s'" if "blocked s"
  proof (rule blocked_upd [OF that])
    fix j q u d assume h: "held ?s' j q" "u \<in> set (q_senders (mqs ?s' q))" "waits ?s' u = Sending d" "\<not> running (procs ?s' u)"
    have "q \<noteq> p" using h(2,4) by (auto simp: mark_all_def)
    then show "queue_full (ss_msg d) (mqs ?s' q) \<or> held s j q \<and> u \<in> set (q_senders (mqs s q)) \<and> waits s u = Sending d \<and>
        \<not> running (procs s u) \<and> (queue_full (ss_msg d) (mqs s q) \<longrightarrow> queue_full (ss_msg d) (mqs ?s' q))"
      using h other by (auto simp: mark_all_def split: if_splits)
  qed
  then show "good s ?s'" using wake_all_inv [OF take_inv [OF assms]] by (simp add: good_def)
qed

text \<open>What the receiver gets: the type and as much of the text as it asked for and as there is.\<close>

lemma msg_deliver_wf:
  assumes "msg_wf m"
  obtains bytes where "m_text m = msg_parts bytes" "length bytes = unat (m_ts m)"
    "msg_deliver s m n ubuf = Done (s, (case ubuf of None \<Rightarrow> Msg_returns (Inl EFAULT)
       | Some room \<Rightarrow> if min (unat n) (unat (m_ts m)) \<le> room then Msg_received (m_type m) (take (unat n) bytes)
         else Msg_returns (Inl EFAULT)))"
proof -
  obtain bytes where b: "m_text m = msg_parts bytes" "length bytes = unat (m_ts m)"
    using assms by (auto simp: msg_wf_def)
  let ?n = "if n > m_ts m then m_ts m else n"
  have n: "unat ?n = min (unat n) (unat (m_ts m))" by (auto simp: word_less_nat_alt min_def)
  have "take (unat ?n) bytes = take (unat n) bytes" using b(2) unfolding n by (simp add: min_def)
  moreover have st: "store_msg room (m_text m) (unat ?n) = Done (if unat ?n \<le> room then Some (take (unat ?n) bytes) else None)" for room
    unfolding b(1) by (rule store_msg_parts) (simp add: n b(2))
  ultimately have "msg_deliver s m n ubuf = Done (s, (case ubuf of None \<Rightarrow> Msg_returns (Inl EFAULT)
       | Some room \<Rightarrow> if min (unat n) (unat (m_ts m)) \<le> room then Msg_received (m_type m) (take (unat n) bytes)
         else Msg_returns (Inl EFAULT)))"
    unfolding msg_deliver_def Let_def st n by (cases ubuf) simp_all
  then show thesis using b that by blast
qed

lemma call_ok_deliver:
  assumes "msg_wf m" "call_ok s (Done (s', r))"
  shows "call_ok s (msg_deliver s' m n ubuf)"
  using msg_deliver_wf [OF assms(1), of s' n ubuf] assms(2) by (metis call_ok_def outcome.inject(1) prod.inject)

lemma rcv_sleep_good:
  assumes "msg_inv s" "held s i p" "waits s t = Awake" "0 \<le> r_msqid r" "slot_of (r_msqid r) = i"
    "r_queue r = p" "r_msg r = Inl EAGAIN"
    "\<And>m. m \<in> set (q_messages (mqs s p)) \<Longrightarrow> \<not> testmsg m (r_msgtype r) (r_mode r)"
  shows "good s (set_running t False (set_wait t (Receiving r)
    (queue_upd p (\<lambda>q. q\<lparr>q_receivers := q_receivers q @ [t]\<rparr>) s)))" (is "good s ?s'")
proof -
  have "blocked ?s'" if "blocked s"
    by (rule blocked_upd [OF that]) (auto simp: queue_full_def split: if_splits)
  then show ?thesis using rcv_sleep_inv [OF assms] by (simp add: good_def)
qed

lemma msgrcv_retry_ok:
  assumes "msg_inv s" "held s i p" "waits s t = Awake" "0 \<le> x" "slot_of x = i"
  shows "call_ok s (msgrcv_retry s t p x n ty md flg ubuf)"
proof (cases "search_loop md ty 0 None (q_messages (mqs s p))")
  case None
  let ?r = "\<lparr>r_mode = md, r_msgtype = ty, r_maxsize = (if flg AND MSG_NOERROR \<noteq> 0 then of_int INT_MAX else n),
    r_msg = Inl EAGAIN, r_queue = p, r_msqid = x, r_msgsz = n, r_msgflg = flg\<rparr>"
  let ?s' = "set_running t False (set_wait t (Receiving ?r)
    (queue_upd p (\<lambda>q. q\<lparr>q_receivers := q_receivers q @ [t]\<rparr>) s))"
  have "good s ?s'"
    by (rule rcv_sleep_good [OF assms(1-3)]) (use None assms(4,5) in \<open>auto simp: search_loop_None\<close>)
  then have "call_ok s (Done (msg_unlock ?s', Msg_sleeps))" by (rule call_okI)
  moreover have "call_ok s (Done (msg_unlock s, e))" for e :: msg_reply by (rule call_okI [OF good_refl [OF assms(1)]])
  ultimately show ?thesis using None by (simp add: msgrcv_retry_def Let_def)
next
  case (Some k)
  then have k: "k < length (q_messages (mqs s p))" using search_loop_range by fastforce
  then have wf: "msg_wf (q_messages (mqs s p) ! k)"
    using queue_okD(1) [OF msg_invD(5) [OF assms(1,2)]] by (simp add: counted_def)
  note tk = take_wake_good [OF assms(1,2) k, of t]
  have "call_ok s (msg_deliver (msg_unlock (mark_all id (q_senders (mqs s p)) (msg_take t p k s)))
      (q_messages (mqs s p) ! k) n ubuf)"
    by (rule call_ok_deliver [OF wf call_okI [OF tk(2)]])
  moreover have "call_ok s (Done (msg_unlock s, e))" for e :: msg_reply by (rule call_okI [OF good_refl [OF assms(1)]])
  ultimately show ?thesis using Some tk(1) by (simp add: msgrcv_retry_def Let_def)
qed

lemma msgrcv_start_ok:
  assumes "msg_ok s" "waits s t = Awake" "x < 0 \<or> id_ok (msg_ids s) x"
  shows "call_ok s (msgrcv_start s t x n ty flg ubuf)"
proof (cases "x < 0 \<or> n <s 0")
  case True
  then show ?thesis using call_ok_same [OF assms(1)] by (simp add: msgrcv_start_def)
next
  case False
  then have g: "id_ok (msg_ids s) x" "0 \<le> x" using assms(3) by auto
  have inv: "msg_inv (msg_locked s)" using assms(1) msg_locked_inv by (simp add: msg_ok_def)
  obtain md ty' where c: "convert_mode ty flg = (md, ty')" by (cases "convert_mode ty flg")
  show ?thesis
  proof (cases rule: msg_lock_cases [OF assms(1) g(1)])
    case 1
    then show ?thesis using c False call_ok_same [OF assms(1)] by (simp add: msgrcv_start_def)
  next
    case (2 p)
    then have "msgrcv_start s t x n ty flg ubuf = msgrcv_retry (msg_locked s) t p x n ty' md flg ubuf"
      using c False by (simp add: msgrcv_start_def)
    moreover have "call_ok (msg_locked s) (msgrcv_retry (msg_locked s) t p x n ty' md flg ubuf)"
      using 2 assms(2) g by (intro msgrcv_retry_ok [OF inv]) simp_all
    ultimately show ?thesis by (simp add: call_ok_locked)
  qed
qed

lemma rcv_left:
  assumes "msg_ok s" "waits s t = Receiving r" "r_msg r = Inl EAGAIN"
  shows "left s t (queue_upd (r_queue r) (\<lambda>q. q\<lparr>q_receivers := remove1 t (q_receivers q)\<rparr>)
    (msg_locked (set_wait t Awake (set_running t True s))))" (is "left s t ?s'")
proof -
  have "msg_inv (queue_upd (r_queue r) (\<lambda>q. q\<lparr>q_receivers := remove1 t (q_receivers q)\<rparr>)
    (set_wait t Awake (set_running t True s)))" (is "msg_inv ?s1")
    using leave_inv [OF _ assms(2,3)] assms(1) by (simp add: msg_ok_def)
  then have "msg_inv ?s'" by (rule msg_inv_cong) simp_all
  moreover have "blocked ?s'" if "blocked s"
    by (rule blocked_upd [OF that]) (auto simp: queue_full_def split: if_splits)
  ultimately show ?thesis by (simp add: left_def)
qed

lemma msgrcv_wake_ok:
  assumes "msg_ok s" "waits s t = Receiving r"
  shows "call_ok s (msgrcv_wake s t r sig ubuf)"
proof -
  let ?s1 = "set_wait t Awake (set_running t True s)"
  have inv: "msg_inv s" using assms(1) by (simp add: msg_ok_def)
  have r: "rcv_ok (msg_ids s) (running (procs s t)) r" using msg_invD(6) [OF inv, of t] assms(2) by simp
  then have x: "0 \<le> r_msqid r" "id_ok (msg_ids s) (r_msqid r)" using id_ok_slot by (auto simp: rcv_ok_def)
  have lk: "ids_wf (msg_ids ?s1)" "msg_unlocked ?s1" "id_ok (msg_ids ?s1) (r_msqid r)"
    using inv assms(1) x by (simp_all add: msg_invD(1) msg_ok_def)
  show ?thesis
  proof (cases "r_msg r = Inl EAGAIN")
    case True
    note l = rcv_left [OF assms True]
    let ?s2 = "queue_upd (r_queue r) (\<lambda>q. q\<lparr>q_receivers := remove1 t (q_receivers q)\<rparr>) (msg_locked ?s1)"
    have h: "held ?s1 (slot_of (r_msqid r)) (r_queue r)" using r True by (simp add: rcv_ok_def)
    note held = msg_table.lock_held [OF lk(1,2) x(1) h]
    have "msgrcv_wake s t r sig ubuf = (if sig then Done (msg_unlock ?s2, Msg_returns (Inl EINTR))
        else msgrcv_retry ?s2 t (r_queue r) (r_msqid r) (r_msgsz r) (r_msgtype r) (r_mode r) (r_msgflg r) ubuf)"
      using held True by (simp add: msgrcv_wake_def Let_def)
    moreover have "call_ok ?s2 (msgrcv_retry ?s2 t (r_queue r) (r_msqid r) (r_msgsz r) (r_msgtype r) (r_mode r) (r_msgflg r) ubuf)"
      using l x h by (intro msgrcv_retry_ok) (simp_all add: left_def)
    ultimately show ?thesis
      using left_returns [OF l, of "Msg_returns (Inl EINTR)"] call_ok_left [OF l]
      by (cases sig) (simp_all only: if_True if_False)
  next
    case False
    have i1: "msg_inv ?s1" by (rule wake_inv [OF inv]) (use assms(2) False in \<open>auto simp: receiving_def\<close>)
    have b1: "blocked ?s1" if "blocked s" by (rule blocked_upd [OF that]) (auto split: if_splits)
    have ok1: "call_ok s (Done (?s1, e))" for e :: msg_reply using i1 b1 assms(1) by (auto simp: call_ok_def msg_ok_def)
    have ok2: "left s t (msg_locked ?s1)"
      unfolding left_def blocked_locked using msg_locked_inv [OF i1] b1 by simp
    show ?thesis
    proof (cases "r_msg r")
      case (Inl e)
      then show ?thesis
        using ok1 [of "Msg_returns (Inl e)"] left_returns [OF ok2, of "Msg_returns (Inl e)"] False
        by (cases rule: msg_table.lock_cases [OF lk]) (simp_all add: msgrcv_wake_def Let_def)
    next
      case (Inr m)
      then have "msg_wf m" using r by (simp add: rcv_ok_def)
      then show ?thesis using call_ok_deliver [OF _ ok1] Inr by (simp add: msgrcv_wake_def Let_def)
    qed
  qed
qed

end
