(* ===== verification/Ipc_Msg_Calls.thy ===== *)
theory Ipc_Msg_Calls
  imports Ipc_Msg_Ops
begin

text \<open>
  Creating, controlling, removing and listing message queues keeps the invariant of
  \<open>Ipc_Msg_Inv\<close>; a removed queue leaves no process asleep.
\<close>

section \<open>Creating a queue\<close>

definition unused_queue :: "msg_state \<Rightarrow> addr \<Rightarrow> bool" where
  "unused_queue s p \<longleftrightarrow> Some p \<notin> set (entries (msg_ids s))"

lemma wait_ok_mono:
  assumes "wait_ok ids b w" "\<And>i p. holds ids i p \<Longrightarrow> holds ids' i p" "ids_size ids \<le> ids_size ids'"
  shows "wait_ok ids' b w"
  using assms by (auto simp: wait_ok_def rcv_ok_def snd_ok_def split: msg_wait.splits)

lemma grown_good:
  assumes "msg_inv s" "ids_wf ids" "entries ids = entries (msg_ids s) @ replicate k None"
  shows "good s (s\<lparr>msg_ids := ids\<rparr>)" (is "good s ?s'")
proof -
  note h = holds_grown [OF assms(3)]
  have sz: "ids_size (msg_ids s) \<le> ids_size ids"
    using ids_wf_size [OF assms(2)] ids_wf_size [OF msg_invD(1) [OF assms(1)]] assms(3) by simp
  have "msg_inv ?s'"
  proof (rule msg_invI)
    show "queue_ok ?s' i p" if "held ?s' i p" for i p
      using msg_invD(5) [OF assms(1), of i p] that h by (simp add: queue_ok_def)
    show "wait_ok (msg_ids ?s') (running (procs ?s' t)) (waits ?s' t)" for t
      using wait_ok_mono [OF msg_invD(6) [OF assms(1), of t], of ids] h sz by simp
    show "i = j" if "held ?s' i p" "held ?s' j p" for i j p using msg_invD(3) [OF assms(1)] that h by simp
  qed (use msg_invD(2,4) [OF assms(1)] assms(2,3) in \<open>simp_all add: totals_def table_sum_append_None\<close>)
  moreover have "blocked ?s'" if "blocked s" by (rule blocked_upd [OF that]) (auto simp: h)
  ultimately show ?thesis by (simp add: good_def)
qed

text \<open>A new queue at an unused address, in a free slot.\<close>

lemma newqueue_good:
  assumes "msg_inv s" "ids_wf ids" "unused_queue s p"
    and slot: "i < length (entries (msg_ids s) @ replicate k None)"
      "(entries (msg_ids s) @ replicate k None) ! i = None"
      "entries ids = (entries (msg_ids s) @ replicate k None)[i := Some p]"
    and d: "q_messages d = []" "q_cbytes d = 0" "q_qnum d = 0" "q_receivers d = []" "q_senders d = []"
  shows "good s (s\<lparr>msg_ids := ids, mqs := (mqs s)(p := d)\<rparr>)" (is "good s ?s'")
proof -
  note h = holds_added [OF slot]
  have dead: "\<not> held s j p" for j using assms(3) holds_in by (auto simp: unused_queue_def)
  have sz: "ids_size (msg_ids s) \<le> ids_size ids"
    using ids_wf_size [OF assms(2)] ids_wf_size [OF msg_invD(1) [OF assms(1)]] slot(3) by simp
  have old: "mqs ?s' q = mqs s q" if "held s j q" for j q using that dead by auto
  have no: "\<not> receiving (waits s t) j p" "\<not> sending (waits s t) j p" for t j
    using msg_invD(6) [OF assms(1), of t] dead
    by (auto simp: wait_ok_def rcv_ok_def snd_ok_def receiving_def sending_def)
  have upd: "(\<lambda>q. f (((mqs s)(p := d)) q)) = (\<lambda>q. f (mqs s q))(p := f d)" for f :: "msg_queue \<Rightarrow> ulong"
    by (auto simp: fun_eq_iff)
  have "msg_inv ?s'"
  proof (rule msg_invI)
    show "queue_ok ?s' j q" if "held ?s' j q" for j q
    proof (cases "q = p")
      case True
      then show ?thesis using no d by (simp add: queue_ok_def counted_def)
    next
      case False
      then show ?thesis using msg_invD(5) [OF assms(1), of j q] that h by (simp add: queue_ok_def)
    qed
    show "wait_ok (msg_ids ?s') (running (procs ?s' t)) (waits ?s' t)" for t
      using wait_ok_mono [OF msg_invD(6) [OF assms(1), of t], of ids] h sz by simp
    show "j = j'" if "held ?s' j q" "held ?s' j' q" for j j' q using msg_invD(3) [OF assms(1)] that h dead by auto
    have "Some p \<notin> set (entries (msg_ids s) @ replicate k None)" using assms(3) by (auto simp: unused_queue_def)
    note ins = table_sum_insert [OF slot(1,2) this]
    show "totals ?s'"
      using msg_invD(4) [OF assms(1)] ins [of "\<lambda>q. q_cbytes (mqs s q)" 0] ins [of "\<lambda>q. q_qnum (mqs s q)" 0] d
      by (simp add: totals_def slot(3) upd [of q_cbytes] upd [of q_qnum] table_sum_append_None del: fun_upd_apply)
  qed (use msg_invD(2) [OF assms(1)] assms(2) in simp_all)
  moreover have "blocked ?s'" if "blocked s"
    by (rule blocked_upd [OF that]) (use d h in \<open>auto split: if_splits\<close>)
  ultimately show ?thesis by (simp add: good_def)
qed

lemma newque_ok:
  assumes "msg_ok s" "\<And>a. p = Some a \<Longrightarrow> unused_queue s a"
  shows "call_ok s (newque s t k flg p mem_ok)"
proof (cases p)
  case None
  then show ?thesis using call_ok_same [OF assms(1)] by (simp add: newque_def)
next
  case (Some a)
  have inv: "msg_inv s" "msg_unlocked s" using assms(1) by (simp_all add: msg_ok_def)
  note add = ipc_addid_spec [OF msg_invD(1) [OF inv(1)] inv(2) msg_invD(2) [OF inv(1)],
    of "msg_cred s t" a "q_perm (mqs s a)" mem_ok]
  show ?thesis
  proof (cases rule: add)
    case (1 ids)
    then obtain j where "entries ids = entries (msg_ids s) @ replicate j None" by blast
    from grown_good [OF inv(1) 1(2) this] have "call_ok s (Done (s\<lparr>msg_ids := ids\<rparr>, Inl ENOSPC :: errno + int))"
      using 1(3) by (auto simp: call_ok_def good_def msg_ok_def)
    then show ?thesis using 1 Some by (simp add: newque_def)
  next
    case (2 ids i)
    then obtain j where j: "nat i < length (entries (msg_ids s) @ replicate j None)"
      "(entries (msg_ids s) @ replicate j None) ! nat i = None"
      "entries ids = (entries (msg_ids s) @ replicate j None)[nat i := Some a]" by blast
    let ?perm = "(q_perm (mqs s a))\<lparr>cuid := euid (msg_cred s t), uid := euid (msg_cred s t),
      gid := egid (msg_cred s t), cgid := egid (msg_cred s t), seq := ids_seq (msg_ids s)\<rparr>"
    let ?d = "\<lparr>q_perm = ?perm\<lparr>mode := ucast flg AND S_IRWXUGO, key := k\<rparr>, q_stime = 0, q_rtime = 0,
      q_ctime = clock s, q_cbytes = 0, q_qnum = 0, q_qbytes = msg_ctlmnb s, q_lspid = 0, q_lrpid = 0,
      q_messages = [], q_receivers = [], q_senders = []\<rparr>"
    have "good s (s\<lparr>msg_ids := ids, mqs := (mqs s)(a := ?d)\<rparr>)"
      using assms(2) [OF Some] by (intro newqueue_good [OF inv(1) 2(2) _ j]) simp_all
    moreover have "newque s t k flg p mem_ok =
        Done (msg_unlock (s\<lparr>msg_ids := ids, mqs := (mqs s)(a := ?d)\<rparr>), Inr (ipc_buildid i (ids_seq (msg_ids s))))"
      using 2 Some by (simp add: newque_def Let_def queue_upd_def)
    ultimately show ?thesis by (simp only: call_okI)
  qed
qed

lemma msgget_ok:
  assumes "msg_ok s" "\<And>a. p = Some a \<Longrightarrow> unused_queue s a"
  shows "call_ok s (sys_msgget s t k flg p mem_ok)"
proof -
  have inv: "msg_inv s" "msg_unlocked s" using assms(1) by (simp_all add: msg_ok_def)
  note wf = msg_invD(1) [OF inv(1)]
  obtain i where i: "ipc_findkey (\<lambda>p. q_perm (mqs s p)) (msg_ids s) k = Done i"
    "i \<noteq> -1 \<Longrightarrow> 0 \<le> i \<and> i < ids_size (msg_ids s) \<and> (\<exists>a. entries (msg_ids s) ! nat i = Some a)"
    using ipc_findkey_spec [OF wf, of "\<lambda>p. q_perm (mqs s p)" k] by force
  have same: "call_ok s (Done (s, r))" for r :: "errno + int" by (rule call_ok_same [OF assms(1)])
  show ?thesis
  proof (cases "k = IPC_PRIVATE \<or> i = -1")
    case True
    then show ?thesis using newque_ok [OF assms] i(1) same by (auto simp: sys_msgget_def)
  next
    case old: False
    then have b: "0 \<le> i" "i < ids_size (msg_ids s)" using i(2) by auto
    obtain a where a: "entries (msg_ids s) ! nat i = Some a" using i(2) old by auto
    have sl: "i mod SEQ_MULTIPLIER = i" using b ids_wf_size [OF wf] by (simp add: ipc_limits)
    have "held s (slot_of i) a" using a b sl ids_wf_size [OF wf] by (simp add: holds_def slot_of_def nat_less_iff)
    then have q: "msg_lock s i = Done (msg_locked s, Some a)" by (rule msg_table.lock_held [OF wf inv(2) b(1)])
    have "call_ok s (Done (msg_unlock (msg_locked s), r))" for r :: "errno + int"
      by (rule call_okI [OF good_unlock(2) [OF inv(1)]])
    then show ?thesis using q i(1) old same by (simp add: sys_msgget_def Let_def)
  qed
qed

section \<open>Removing a queue\<close>

text \<open>The state without the queue \<open>p\<close>, with all its sleepers told.\<close>

lemma removed_inv:
  assumes "msg_inv s" "held s (slot_of x) p" and wf: "ids_wf ids" and entries: "entries ids = (entries (msg_ids s))[slot_of x := None]"
    and w: "\<And>t. waits s' t = (if receiving (waits s t) (slot_of x) p then tell EIDRM (waits s t)
      else if sending (waits s t) (slot_of x) p then detach (waits s t) else waits s t)"
    and run: "\<And>t. running (procs s' t) \<longleftrightarrow>
      running (procs s t) \<or> receiving (waits s t) (slot_of x) p \<or> sending (waits s t) (slot_of x) p"
    and fields: "msg_ids s' = ids\<lparr>ary := False\<rparr>" "mqs s' = mqs s" "msg_ctlmni s' = msg_ctlmni s"
      "msg_bytes s' = msg_bytes s - q_cbytes (mqs s p)" "msg_hdrs s' = msg_hdrs s - of_nat (length (q_messages (mqs s p)))"
  shows "msg_inv s'"
proof (rule msg_invI)
  note o = queue_okD [OF msg_invD(5) [OF assms(1,2)]]
  have same: "receiving (waits s' t) j q = receiving (waits s t) j q" "sending (waits s' t) j q = sending (waits s t) j q"
    "wants (waits s' t) m = wants (waits s t) m" if "j \<noteq> slot_of x" for t j q m
    using that by (cases "waits s t"; auto simp: w receiving_def sending_def wants_def)+
  have hs: "held s' j q \<longleftrightarrow> j \<noteq> slot_of x \<and> held s j q" for j q using holds_removed [OF entries] by (simp add: fields)
  show "queue_ok s' j q" if hq: "held s' j q" for j q
  proof -
    have j: "j \<noteq> slot_of x" "held s j q" using hq hs by auto
    show ?thesis using queue_okD [OF msg_invD(5) [OF assms(1) j(2)]] unfolding queue_ok_def same [OF j(1)] fields(2) by blast
  qed
  have sz: "ids_size (msg_ids s') = ids_size (msg_ids s)"
    using ids_wf_size [OF wf] ids_wf_size [OF msg_invD(1) [OF assms(1)]] entries by (simp add: fields)
  show "wait_ok (msg_ids s') (running (procs s' t)) (waits s' t)" for t
    using msg_invD(6) [OF assms(1), of t] holds_fun [OF assms(2)] unfolding w run
    by (cases "waits s t") (auto simp: rcv_ok_def snd_ok_def sz hs receiving_def sending_def)
  show "j = j'" if "held s' j q" "held s' j' q" for j j' q using msg_invD(3) [OF assms(1)] that hs by auto
  have at: "slot_of x < length (entries (msg_ids s))" "entries (msg_ids s) ! slot_of x = Some p"
    using assms(2) by (simp_all add: holds_def)
  show "totals s'"
    using msg_invD(4) [OF assms(1)] table_sum_clear [OF at, of "\<lambda>q. q_cbytes (mqs s q)"]
      table_sum_clear [OF at, of "\<lambda>q. q_qnum (mqs s q)"] o(1)
    by (simp add: totals_def entries counted_def fields)
  show "ids_wf (msg_ids s')" using wf by (simp add: fields ids_wf_def used_slots_def top_slot_def)
qed (use msg_invD(2) [OF assms(1)] in \<open>simp add: fields\<close>)

lemma freeque_ok:
  assumes "msg_inv s" "held s (slot_of x) p" "0 \<le> x"
  shows "\<exists>s'. freeque x s = Done s' \<and> msg_ok s' \<and> (blocked s \<longrightarrow> blocked s')"
proof -
  let ?i = "x mod SEQ_MULTIPLIER"
  note wf = msg_invD(1) [OF assms(1)]
  note o = queue_okD [OF msg_invD(5) [OF assms(1,2)]]
  have i: "0 \<le> ?i" "?i < ids_size (msg_ids s)" "entries (msg_ids s) ! nat ?i = Some p" "slot_of x = nat ?i"
    using assms(2,3) holds_slot [OF wf assms(2)] int_slot_of [OF assms(3)]
    by (simp_all add: slot_of_def holds_def ipc_limits)
  obtain ids where ids: "ipc_rmid (msg_ids s) x = Done (ids, p)" "ids_wf ids" "entries ids = (entries (msg_ids s))[nat ?i := None]"
    using ipc_rmid_spec [OF wf i(1-3) refl] by blast
  note h = holds_removed [OF ids(3)]
  let ?s1 = "s\<lparr>msg_ids := ids\<rparr>"
  let ?s2 = "mark_all (tell EIDRM) (q_receivers (mqs s p)) ?s1"
  let ?s3 = "mark_all detach (q_senders (mqs s p)) ?s2"
  define s' where "s' = (msg_unlock ?s3)\<lparr>msg_hdrs := msg_hdrs s - of_nat (length (q_messages (mqs s p))),
    msg_bytes := msg_bytes s - q_cbytes (mqs s p)\<rparr>"
  have "expunge_all (q_receivers (mqs s p)) EIDRM ?s1 = Done ?s2"
    by (rule expunge_all_mark) (use o(2) in \<open>auto simp: receiving_def\<close>)
  moreover have "\<exists>d. waits ?s2 t = Sending d" if "t \<in> set (q_senders (mqs s p))" for t
    using o(2,3) [of t] that by (auto simp: sending_def receiving_def mark_all_def)
  then have "ss_wakeup (q_senders (mqs s p)) True ?s2 = Done ?s3" using ss_wakeup_mark [where kill = True] by simp
  ultimately have eq: "freeque x s = Done s'" using ids(1) by (simp add: freeque_def Let_def s'_def)
  have w: "waits s' t = (if receiving (waits s t) (slot_of x) p then tell EIDRM (waits s t)
      else if sending (waits s t) (slot_of x) p then detach (waits s t) else waits s t)" for t
    using o(2,3) [of t] by (auto simp: s'_def mark_all_def receiving_def sending_def)
  have run: "running (procs s' t) \<longleftrightarrow> running (procs s t) \<or> receiving (waits s t) (slot_of x) p \<or> sending (waits s t) (slot_of x) p" for t
    using o(2,3) [of t] by (auto simp: s'_def mark_all_def)
  have hs: "held s' j q \<longleftrightarrow> j \<noteq> slot_of x \<and> held s j q" for j q using h by (simp add: i(4) s'_def)
  have fields: "msg_ids s' = ids\<lparr>ary := False\<rparr>" "mqs s' = mqs s" "msg_ctlmni s' = msg_ctlmni s"
    "msg_bytes s' = msg_bytes s - q_cbytes (mqs s p)" "msg_hdrs s' = msg_hdrs s - of_nat (length (q_messages (mqs s p)))"
    by (simp_all add: s'_def)
  have "msg_inv s'" by (rule removed_inv [OF assms(1,2) ids(2) _ w run fields]) (simp add: ids(3) i(4))
  moreover have "blocked s'" if "blocked s"
    by (rule blocked_upd [OF that]) (use hs run w in \<open>auto simp: fields split: if_splits\<close>)
  ultimately show ?thesis using eq by (simp add: msg_ok_def fields)
qed

section \<open>Control operations\<close>

lemma msgctl_stat_ok:
  assumes "msg_ok s" "id_ok (msg_ids s) x"
  shows "call_ok s (msgctl_stat s t x cmd buf)"
proof -
  have inv: "msg_inv s" using assms(1) by (simp add: msg_ok_def)
  have same: "call_ok s (Done (s, r, out))" for r :: "errno + int" and out :: msg_out
    by (rule call_ok_same [OF assms(1)])
  have u: "call_ok s (Done (msg_unlock (msg_locked s), r, out))" for r :: "errno + int" and out :: msg_out
    by (rule call_okI [OF good_unlock(2) [OF inv]])
  show ?thesis
    by (cases rule: msg_lock_cases [OF assms]) (simp_all add: msgctl_stat_def copy_msg_out_def Let_def same u)
qed

lemma msgctl_set_ok:
  assumes "msg_inv s" "held s i p"
  shows "call_ok s (msgctl_set s t p tbuf)"
proof (cases "sint (newqbytes_of tbuf) > sint (msg_ctlmnb s) \<and> \<not> capable (bset s) (msg_cred s t) CAP_SYS_RESOURCE")
  case True
  then show ?thesis using call_okI [OF good_refl [OF assms(1)]] by (simp add: msgctl_set_def)
next
  case False
  note o = queue_okD [OF msg_invD(5) [OF assms]]
  define perm where "perm = (let p = q_perm (mqs s p) in p\<lparr>uid := uid (msg_perm tbuf), gid := gid (msg_perm tbuf),
    mode := (mode p AND NOT S_IRWXUGO) OR (S_IRWXUGO AND mode (msg_perm tbuf))\<rparr>)"
  define s1 where "s1 = queue_upd p (\<lambda>q. q\<lparr>q_qbytes := newqbytes_of tbuf, q_perm := perm, q_ctime := clock s\<rparr>) s"
  define s2 where "s2 = mark_all id (q_receivers (mqs s p)) s1"
  define s3 where "s3 = mark_all id (q_senders (mqs s p)) s2"
  have same: "q_receivers (mqs s1 q) = q_receivers (mqs s q)" "q_senders (mqs s1 q) = q_senders (mqs s q)"
    "q \<noteq> p \<Longrightarrow> mqs s1 q = mqs s q" "waits s1 = waits s" for q
    by (simp_all add: s1_def)
  have "msg_inv s1" unfolding s1_def by (rule stamp_inv [OF assms]) simp_all
  then have inv: "msg_inv s3" unfolding s3_def s2_def by (intro wake_all_inv)
  have e: "expunge_all (q_receivers (mqs s p)) EAGAIN s1 = Done s2"
    unfolding s2_def using o(2) by (intro expunge_again [of _ _ i p]) (simp add: same)
  have w: "ss_wakeup (q_senders (mqs s p)) False s2 = Done s3"
    using ss_wakeup_mark [of "q_senders (mqs s p)" s2 False] o(3) by (auto simp: s3_def s2_def same sending_def)
  have "blocked s3" if "blocked s"
  proof (rule blocked_upd [OF that])
    fix j q u d assume h: "held s3 j q" "u \<in> set (q_senders (mqs s3 q))" "waits s3 u = Sending d" "\<not> running (procs s3 u)"
    have "q \<noteq> p" using h(2,4) by (auto simp: s3_def s2_def mark_all_def same)
    then show "queue_full (ss_msg d) (mqs s3 q) \<or> held s j q \<and> u \<in> set (q_senders (mqs s q)) \<and> waits s u = Sending d \<and>
        \<not> running (procs s u) \<and> (queue_full (ss_msg d) (mqs s q) \<longrightarrow> queue_full (ss_msg d) (mqs s3 q))"
      using h by (auto simp: s3_def s2_def s1_def mark_all_def split: if_splits)
  qed
  then have "good s s3" using inv by (simp add: good_def)
  moreover have "msgctl_set s t p tbuf = Done (msg_unlock s3, Inr 0, Out_none)"
    using False e w unfolding msgctl_set_def s1_def perm_def Let_def by (simp add: s2_def s1_def)
  ultimately show ?thesis by (simp only: call_okI)
qed

lemma msgctl_down_ok:
  assumes "msg_ok s" "id_ok (msg_ids s) x"
  shows "call_ok s (msgctl_down s t x cmd buf)"
proof -
  have inv: "msg_inv s" using assms(1) by (simp add: msg_ok_def)
  have same: "call_ok s (Done (s, r, out))" for r :: "errno + int" and out :: msg_out
    by (rule call_ok_same [OF assms(1)])
  have u: "call_ok s (Done (msg_unlock (msg_locked s), r, out))" for r :: "errno + int" and out :: msg_out
    by (rule call_okI [OF good_unlock(2) [OF inv]])
  show ?thesis
  proof (cases rule: msg_lock_cases [OF assms])
    case 1
    then show ?thesis using same by (simp add: msgctl_down_def)
  next
    case (2 p)
    have x: "0 \<le> x" using assms(2) by (simp add: id_ok_def)
    have h: "held (msg_locked s) (slot_of x) p" using 2 by simp
    obtain s' where s': "freeque x (msg_locked s) = Done s'" "msg_ok s'" "blocked s \<longrightarrow> blocked s'"
      using freeque_ok [OF msg_locked_inv [OF inv] h x] by auto
    have f: "call_ok s (bind_outcome (freeque x (msg_locked s)) (\<lambda>s. Done (s, Inr 0 :: errno + int, Out_none)))"
      using s' by (simp add: call_ok_def)
    have "call_ok (msg_locked s) (msgctl_set (msg_locked s) t p tb)" for tb
      by (rule msgctl_set_ok [OF msg_locked_inv [OF inv] h])
    then have "call_ok s (msgctl_set (msg_locked s) t p tb)" for tb by (simp only: call_ok_locked)
    then show ?thesis using 2(1) f u by (simp add: msgctl_down_def Let_def)
  qed
qed

lemma msgctl_ok:
  assumes "msg_ok s" "x < 0 \<or> id_ok (msg_ids s) x"
  shows "call_ok s (sys_msgctl s t x cmd buf)"
proof -
  have same: "call_ok s (Done (s, r, out))" for r :: "errno + int" and out :: msg_out
    by (rule call_ok_same [OF assms(1)])
  show ?thesis
    using assms(2) msgctl_stat_ok [OF assms(1)] msgctl_down_ok [OF assms(1)] same
    by (auto simp: sys_msgctl_def copy_msg_out_def Let_def)
qed

section \<open>The file in /proc\<close>

lemma locked_unlock: "msg_unlocked s \<Longrightarrow> msg_unlock (msg_locked s) = s"
  by (cases s, cases "msg_ids s") (simp add: msg_unlock_def ipc_unlock_def spin_unlock_def)

text \<open>The conversions that the line uses.\<close>

lemma format_spec_d10:
  "format_spec (CHR ''1'' # CHR ''0'' # CHR ''d'' # rest) pos (Va_int v # args) =
     Some (layout (scast v) 10 10 (-1) SIGN, [], rest, args)"
  by (simp add: format_spec_def field_width_def precision_def qualifier_def skip_atoi_def
      format_conv_def format_int_def format_value_def number_eq is_digit_def Let_def SIGN_def)

lemma format_spec_o4:
  "format_spec (CHR ''4'' # CHR ''o'' # rest) pos (Va_int v # args) = Some (layout (ucast v) 8 4 (-1) 0, [], rest, args)"
  by (simp add: format_spec_def field_width_def precision_def qualifier_def skip_atoi_def
      format_conv_def format_int_def format_value_def number_eq is_digit_def Let_def)

lemma format_spec_u5:
  "format_spec (CHR ''5'' # CHR ''u'' # rest) pos (Va_int v # args) = Some (layout (ucast v) 10 5 (-1) 0, [], rest, args)"
  by (simp add: format_spec_def field_width_def precision_def qualifier_def skip_atoi_def
      format_conv_def format_int_def format_value_def number_eq is_digit_def Let_def)

lemma format_spec_lu10:
  "format_spec (CHR ''1'' # CHR ''0'' # CHR ''l'' # CHR ''u'' # rest) pos (Va_int v # args) =
     Some (layout (ucast v) 10 10 (-1) 0, [], rest, args)"
  by (simp add: format_spec_def field_width_def precision_def qualifier_def skip_atoi_def
      format_conv_def format_int_def format_value_def number_eq is_digit_def Let_def)

lemmas format_specs = format_spec_d10 format_spec_o4 format_spec_u5 format_spec_lu10

lemma msg_proc_line_text:
  "msg_proc_line i q =
     (let d10 = (\<lambda>v. layout (scast (v :: ulong)) 10 10 (-1) SIGN);
          u5 = (\<lambda>v. '' '' @ layout (ucast (v :: ulong)) 10 5 (-1) 0);
          u10 = (\<lambda>v. '' '' @ layout (ucast (v :: ulong)) 10 10 (-1) 0);
          p = q_perm q
      in Some (d10 (of_int (key p)) @ '' '' @ d10 (of_int (ipc_buildid i (seq p))) @
           ''  '' @ layout (ucast (ucast (mode p) :: ulong)) 8 4 (-1) 0 @ '' '' @
           u5 (q_cbytes q) @ u5 (q_qnum q) @ u5 (ucast (q_lspid q)) @ u5 (ucast (q_lrpid q)) @
           u5 (ucast (uid p)) @ u5 (ucast (gid p)) @ u5 (ucast (cuid p)) @ u5 (ucast (cgid p)) @
           u10 (of_int (q_stime q)) @ u10 (of_int (q_rtime q)) @ u10 (of_int (q_ctime q)) @ [CHR 0x0A]))"
  by (simp add: msg_proc_line_def msg_proc_format_def sprintf_def vsprintf_def format_specs Let_def)

lemma msg_proc_loop_ok:
  assumes "msg_ok s" "\<And>i. i \<in> set is \<Longrightarrow> 0 \<le> i \<and> i < ids_size (msg_ids s)"
  shows "\<exists>r. msg_proc_loop offset n is buf pos start s = Done (s, r)"
  using assms(2)
proof (induction "is" arbitrary: buf pos start)
  case (Cons i "is")
  have i: "0 \<le> i" "i < ids_size (msg_ids s)" using Cons.prems by auto
  have "ids_wf (msg_ids s)" using assms(1) by (simp add: msg_ok_def msg_invD(1))
  then have "i mod SEQ_MULTIPLIER = i" using i ids_wf_size [of "msg_ids s"] by (simp add: ipc_limits)
  then have g: "id_ok (msg_ids s) i" using i by (simp add: id_ok_def)
  have u: "msg_unlock (msg_locked s) = s" using assms(1) locked_unlock by (simp add: msg_ok_def)
  have IH: "\<exists>r. msg_proc_loop offset n is b ps st s = Done (s, r)" for b ps st
    using Cons.IH Cons.prems by simp
  show ?case
  proof (cases rule: msg_lock_cases [OF assms(1) g])
    case 1
    then show ?thesis using IH by simp
  next
    case (2 p)
    obtain line where "msg_proc_line i (mqs s p) = Some line" by (simp add: msg_proc_line_text Let_def)
    then show ?thesis using 2(1) u IH by (auto simp: Let_def)
  qed
qed auto

lemma msg_proc_ok:
  assumes "msg_ok s"
  shows "\<exists>r. sysvipc_msg_read_proc offset n s = Done (s, r)"
proof -
  have "max_id (msg_ids s) < ids_size (msg_ids s)"
    using msg_invD(1) [of s] assms by (simp add: msg_ok_def ids_wf_def top_slot_def)
  then obtain b st eof where "msg_proc_loop offset n [0..max_id (msg_ids s)] msg_proc_header 0 0 s = Done (s, b, st, eof)"
    using msg_proc_loop_ok [OF assms, of "[0..max_id (msg_ids s)]" offset n msg_proc_header 0 0] by fastforce
  then show ?thesis by (simp add: sysvipc_msg_read_proc_def Let_def)
qed

end
