(* ===== verification/Ipc_Msg_Runs.thy ===== *)
theory Ipc_Msg_Runs
  imports Ipc_Msg_Calls
begin

text \<open>
  Histories of a system of processes that use message queues: any sequence of calls and wake-ups
  from the state after boot. The theory states the properties of the component: the invariant
  along every history, that calls complete, that nobody sleeps who could go on, what sending and
  receiving do, and two cases in which the code does not do what it should.
\<close>

section \<open>Histories\<close>

definition msg_boot :: msg_state where
  "msg_boot =
     \<lparr>msg_ids = \<lparr>ids_size = 0, in_use = 0, max_id = 0, ids_seq = 0, seq_max = 0, ary = False, entries = []\<rparr>,
      msg_ctlmax = MSGMAX, msg_ctlmnb = MSGMNB, msg_ctlmni = MSGMNI, msg_bytes = 0, msg_hdrs = 0,
      mqs = (\<lambda>_. \<lparr>q_perm = \<lparr>key = 0, uid = 0, gid = 0, cuid = 0, cgid = 0, mode = 0, seq = 0\<rparr>,
        q_stime = 0, q_rtime = 0, q_ctime = 0, q_cbytes = 0, q_qnum = 0, q_qbytes = 0, q_lspid = 0, q_lrpid = 0,
        q_messages = [], q_receivers = [], q_senders = []\<rparr>),
      waits = (\<lambda>_. Awake),
      procs = (\<lambda>t. \<lparr>euid = 0, egid = 0, fsgid = 0, groups = [], cap_effective = 0, mpid = of_nat t, running = True\<rparr>),
      clock = 0, bset = - 1\<rparr>"

datatype msg_call =
    Msg_get nat int ulong "addr option" bool
  | Msg_ctl nat int msg_cmd msg_buf
  | Msg_send nat nat int "ulong option" "8 word list" ulong ulong
  | Msg_receive nat int ulong ulong ulong "nat option"
  | Msg_wake nat bool "nat option"
  | Msg_read int int
  | Msg_time int

fun run_msg :: "msg_call \<Rightarrow> msg_state \<Rightarrow> msg_state outcome" where
  "run_msg (Msg_get t k f p m) s = bind_outcome (sys_msgget s t k f p m) (\<lambda>(s, _). Done s)"
| "run_msg (Msg_ctl t x c b) s = bind_outcome (sys_msgctl s t x c b) (\<lambda>(s, _). Done s)"
| "run_msg (Msg_send mem t x ty src n f) s = bind_outcome (msgsnd_start mem s t x ty src n f) (\<lambda>(s, _). Done s)"
| "run_msg (Msg_receive t x n ty f b) s = bind_outcome (msgrcv_start s t x n ty f b) (\<lambda>(s, _). Done s)"
| "run_msg (Msg_wake t sig b) s = bind_outcome (msg_wake s t sig b) (\<lambda>(s, _). Done s)"
| "run_msg (Msg_read off n) s = bind_outcome (sysvipc_msg_read_proc off n s) (\<lambda>(s, _). Done s)"
| "run_msg (Msg_time c) s = Done (s\<lparr>clock := c\<rparr>)"

text \<open>
  What can happen: memory for a new queue is unused, only a process that is not asleep calls, and
  a sleeper wakes up when it was woken or a signal arrives.
\<close>

fun msg_possible :: "msg_call \<Rightarrow> msg_state \<Rightarrow> bool" where
  "msg_possible (Msg_get t k f p m) s \<longleftrightarrow> waits s t = Awake \<and> (p = None \<or> p \<notin> set (entries (msg_ids s)))"
| "msg_possible (Msg_ctl t x c b) s \<longleftrightarrow> waits s t = Awake"
| "msg_possible (Msg_send mem t x ty src n f) s \<longleftrightarrow> waits s t = Awake"
| "msg_possible (Msg_receive t x n ty f b) s \<longleftrightarrow> waits s t = Awake"
| "msg_possible (Msg_wake t sig b) s \<longleftrightarrow> waits s t \<noteq> Awake \<and> (running (procs s t) \<or> sig)"
| "msg_possible (Msg_read off n) s \<longleftrightarrow> True"
| "msg_possible (Msg_time c) s \<longleftrightarrow> True"

text \<open>The slot of the identifier is not the one just past the end of the array.\<close>

fun msg_supported :: "msg_call \<Rightarrow> msg_state \<Rightarrow> bool" where
  "msg_supported (Msg_ctl t x c b) s \<longleftrightarrow> x < 0 \<or> id_ok (msg_ids s) x"
| "msg_supported (Msg_send mem t x ty src n f) s \<longleftrightarrow> x < 0 \<or> id_ok (msg_ids s) x"
| "msg_supported (Msg_receive t x n ty f b) s \<longleftrightarrow> x < 0 \<or> id_ok (msg_ids s) x"
| "msg_supported c s \<longleftrightarrow> True"

inductive msg_history :: "msg_state \<Rightarrow> bool" where
  boot: "msg_init msg_boot True = Done s \<Longrightarrow> msg_history s"
| call: "msg_history s \<Longrightarrow> msg_possible c s \<Longrightarrow> run_msg c s = Done s' \<Longrightarrow> in_memory s' \<Longrightarrow> msg_history s'"

section \<open>The invariant along a history\<close>

lemma call_ok_run:
  "call_ok s res \<Longrightarrow> \<exists>s'. bind_outcome res (\<lambda>(s, _). Done s) = Done s' \<and> msg_ok s' \<and> (blocked s \<longrightarrow> in_memory s' \<longrightarrow> blocked s')"
  by (auto simp: call_ok_def)

lemma msg_call_ok:
  assumes "msg_ok s" "msg_possible c s" "msg_supported c s"
  shows "\<exists>s'. run_msg c s = Done s' \<and> msg_ok s' \<and> (blocked s \<longrightarrow> in_memory s' \<longrightarrow> blocked s')"
proof (cases c)
  case (Msg_get t k f p m)
  have "call_ok s (sys_msgget s t k f p m)"
    by (rule msgget_ok [OF assms(1)]) (use assms(2) Msg_get in \<open>auto simp: unused_queue_def\<close>)
  from call_ok_run [OF this] show ?thesis using Msg_get by simp
next
  case (Msg_ctl t x cm b)
  then show ?thesis using call_ok_run [OF msgctl_ok [OF assms(1), of x]] assms(3) by simp
next
  case (Msg_send mem t x ty src n f)
  then show ?thesis using call_ok_run [OF msgsnd_start_ok [OF assms(1)]] assms(2,3) by simp
next
  case (Msg_receive t x n ty f b)
  then show ?thesis using call_ok_run [OF msgrcv_start_ok [OF assms(1)]] assms(2,3) by simp
next
  case (Msg_wake t sig b)
  have "call_ok s (msg_wake s t sig b)"
    using assms(1,2) Msg_wake msgrcv_wake_ok msgsnd_wake_ok by (cases "waits s t") (auto simp: msg_wake_def)
  from call_ok_run [OF this] show ?thesis using Msg_wake by simp
next
  case (Msg_read off n)
  then show ?thesis using msg_proc_ok [OF assms(1), of off n] assms(1) by auto
next
  case (Msg_time c)
  have "msg_inv (s\<lparr>clock := c\<rparr>)" if "msg_inv s" by (rule msg_inv_cong [OF that]) simp_all
  moreover have "blocked (s\<lparr>clock := c\<rparr>) = blocked s" by (simp add: blocked_def)
  ultimately show ?thesis using assms(1) Msg_time by (simp add: msg_ok_def)
qed

text \<open>A call that reads past the end of the array does not return; without the lock it changes nothing.\<close>

lemma msg_call_unsupported:
  assumes "msg_ok s" "\<not> msg_supported c s" "run_msg c s = Done s'"
  shows "s' = s"
proof -
  have bad: "msg_lock s x = Bug" if "\<not> x < 0" "\<not> id_ok (msg_ids s) x" for x
    using msg_table.lock_past_end [of s x] that assms(1) msg_invD(1) by (simp add: msg_ok_def)
  show ?thesis
  proof (cases c)
    case (Msg_ctl t x cm b)
    then show ?thesis
      using assms(2,3) bad [of x]
      by (auto simp: sys_msgctl_def msgctl_stat_def msgctl_down_def copy_msg_out_def Let_def split: if_splits)
  next
    case (Msg_send mem t x ty src n f)
    then show ?thesis
      using assms(2,3) bad [of x] by (auto simp: msgsnd_start_def Let_def split: if_splits option.splits sum.splits)
  next
    case (Msg_receive t x n ty f b)
    then show ?thesis
      using assms(2,3) bad [of x] by (auto simp: msgrcv_start_def split: if_splits prod.splits)
  qed (use assms(2) in simp_all)
qed

lemma msg_boot_ok: "msg_init msg_boot True = Done s \<Longrightarrow> msg_ok s \<and> blocked s"
proof -
  assume "msg_init msg_boot True = Done s"
  then have s: "s = msg_boot\<lparr>msg_ids := \<lparr>ids_size = 128, in_use = 0, max_id = -1, ids_seq = 0, seq_max = 0xffff,
      ary = False, entries = replicate 128 None\<rparr>\<rparr>"
    by (simp add: msg_init_def msg_boot_def ipc_init_ids_def MSGMNI_def ipc_limits Let_def)
  have dead: "\<not> held s i p" for i p by (simp add: s holds_def)
  have "msg_inv s"
    by (rule msg_invI) (simp_all add: dead, simp_all add: s totals_def msg_boot_def table_sum_def sum_list_replicate
        ids_wf_def used_slots_def top_slot_def ipc_limits MSGMNI_def)
  then show ?thesis using dead by (simp add: msg_ok_def blocked_def s)
qed

lemma msg_history_ok: "msg_history s \<Longrightarrow> msg_ok s \<and> blocked s"
proof (induction rule: msg_history.induct)
  case (call s c s')
  then show ?case using msg_call_ok [of s c] msg_call_unsupported [of s c s'] by (cases "msg_supported c s") auto
qed (rule msg_boot_ok)

section \<open>Running a list of calls\<close>

fun run_msgs :: "msg_call list \<Rightarrow> msg_state \<Rightarrow> msg_state outcome" where
  "run_msgs [] s = Done s"
| "run_msgs (c # cs) s =
     (if msg_possible c s
      then bind_outcome (run_msg c s) (\<lambda>s. if in_memory s then run_msgs cs s else Bug)
      else Bug)"

lemma run_msgs_history: "msg_history s \<Longrightarrow> run_msgs cs s = Done s' \<Longrightarrow> msg_history s'"
proof (induction cs arbitrary: s)
  case (Cons c cs)
  then show ?case by (auto split: if_splits intro: msg_history.call)
qed simp

definition msg_booted :: "msg_state outcome" where
  "msg_booted = msg_init msg_boot True"

lemma msg_booted_history: "bind_outcome msg_booted (run_msgs cs) = Done s \<Longrightarrow> msg_history s"
  by (auto simp: msg_booted_def intro: run_msgs_history msg_history.boot)

section \<open>Which message is received\<close>







lemma concat_seg_parts: "concat (seg_parts bytes) = bytes"
proof (induction bytes rule: seg_parts.induct)
  case (1 bytes)
  then show ?case by (cases "bytes = []") (auto simp: seg_parts.simps [of bytes] seg_parts.simps [of "[]"])
qed

lemma concat_msg_parts: "concat (msg_parts bytes) = bytes"
  by (simp add: msg_parts_def concat_seg_parts)



lemma msgsnd_retry_sent:
  assumes "msg_inv s" "held s i p" "msg_wf m" "msgsnd_retry s t p x m flg = Done (s', Msg_returns (Inr 0))"
  obtains s1 b where "hands_over p m (q_receivers (mqs s p)) s s1 b" "waits s' = waits s1"
    "q_messages (mqs s' p) = (if b then q_messages (mqs s p) else q_messages (mqs s p) @ [m])"
proof -
  obtain s1 b where s1: "pipelined_send p m s = Done (s1, b)" "handed p s s1"
    "hands_over p m (q_receivers (mqs s p)) s s1 b"
    using pipelined_send_ok [OF assms(1-3)] .
  then have "q_messages (mqs s1 p) = q_messages (mqs s p)" by (simp add: handed_def)
  moreover have "waits s' = waits s1"
    "q_messages (mqs s' p) = (if b then q_messages (mqs s1 p) else q_messages (mqs s1 p) @ [m])"
    using assms(4) s1(1) by (auto simp: msgsnd_retry_def Let_def split: if_splits)
  ultimately show thesis using that s1(3) by simp
qed

text \<open>The receiver that was handed a message gets it when it wakes up.\<close>

lemma msg_wake_handed:
  assumes "waits s u = Receiving (r\<lparr>r_msg := Inr m\<rparr>)" "msg_wf m" "min (unat (r_msgsz r)) (unat (m_ts m)) \<le> room"
  shows "\<exists>s'. msg_wake s u sig (Some room) = Done (s', Msg_received (m_type m) (take (unat (r_msgsz r)) (concat (m_text m))))"
  by (rule msg_deliver_wf [OF assms(2), of "set_wait u Awake (set_running u True s)" "r_msgsz r" "Some room"])
    (use assms(1,3) in \<open>auto simp: msg_wake_def msgrcv_wake_def concat_msg_parts Let_def\<close>)

section \<open>Examples\<close>

text \<open>Process 9 makes the queue at address 0, which gets the identifier 0, removes it, or sets its limit.\<close>

definition get_queue :: msg_call where
  "get_queue = Msg_get 9 IPC_PRIVATE 0x1ff (Some 0) True"

definition remove_queue :: msg_call where
  "remove_queue = Msg_ctl 9 0 IPC_RMID \<lparr>buf_null = True, buf_in = None, buf_writable = False\<rparr>"

definition limit_buf :: "ulong \<Rightarrow> msg_buf" where
  "limit_buf n =
     \<lparr>buf_null = False,
      buf_in = Some \<lparr>msg_perm = \<lparr>key = 0, uid = 0, gid = 0, cuid = 0, cgid = 0, mode = 0x1ff, seq = 0\<rparr>,
        msg_stime = 0, msg_rtime = 0, msg_ctime = 0, msg_lcbytes = 0, msg_lqbytes = n, msg_cbytes = 0,
        msg_qnum = 0, msg_qbytes = 0, msg_lspid = 0, msg_lrpid = 0\<rparr>,
      buf_writable = False\<rparr>"

definition set_limit :: "ulong \<Rightarrow> msg_call" where
  "set_limit n = Msg_ctl 9 0 IPC_SET (limit_buf n)"

definition receive_any :: "nat \<Rightarrow> msg_call" where
  "receive_any t = Msg_receive t 0 100 0 0 (Some 100)"

definition send_text :: "nat \<Rightarrow> ulong \<Rightarrow> 8 word list \<Rightarrow> msg_call" where
  "send_text t ty bytes = Msg_send 1 t 0 (Some ty) bytes (of_nat (length bytes)) 0"

definition reply_is :: "(msg_state \<times> msg_reply) outcome \<Rightarrow> msg_reply \<Rightarrow> bool" where
  "reply_is res r \<longleftrightarrow> (case res of Done (_, r') \<Rightarrow> r' = r | Bug \<Rightarrow> False)"

section \<open>Properties\<close>

text \<open>
  C9: The message queues are consistent along every history. After any sequence of \<open>msgget\<close>,
  \<open>msgctl\<close>, \<open>msgsnd\<close>, \<open>msgrcv\<close> and wake-ups that return, the counters of the identifier array, of each
  queue and of the system agree with the messages, each list of a queue holds exactly the
  processes that sleep on it, every sleeper finds its queue again or was told that it is gone, and
  the spinlock is released.
\<close>

theorem msg_history_consistent: "msg_history s \<Longrightarrow> msg_inv s \<and> msg_unlocked s"
  using msg_history_ok by (simp add: msg_ok_def)

theorem msg_history_consistent_witness:
  "\<exists>s. bind_outcome msg_booted (run_msgs [get_queue, receive_any 1]) = Done s \<and> msg_inv s \<and> msg_unlocked s \<and>
     q_receivers (mqs s 0) = [1]"
proof -
  have "case bind_outcome msg_booted (run_msgs [get_queue, receive_any 1]) of Bug \<Rightarrow> False | Done s \<Rightarrow> q_receivers (mqs s 0) = [1]"
    by code_simp
  then obtain s where s: "bind_outcome msg_booted (run_msgs [get_queue, receive_any 1]) = Done s" "q_receivers (mqs s 0) = [1]"
    by (rule outcome_caseE)
  then show ?thesis using msg_history_consistent [OF msg_booted_history [OF s(1)]] by blast
qed

text \<open>
  C10: No process sleeps that could go on. In every state that a history reaches, a process that
  sleeps in \<open>msgrcv\<close> and was not woken is on the list of a queue that exists and that holds no message
  it waits for; a process that sleeps in \<open>msgsnd\<close> and was not woken is on the list of a queue that
  exists and is too full for its message.
\<close>

theorem msg_no_lost_wakeup:
  assumes "msg_history s" and "\<not> running (procs s t)"
  shows "case waits s t of Awake \<Rightarrow> True
    | Receiving r \<Rightarrow> held s (slot_of (r_msqid r)) (r_queue r) \<and> t \<in> set (q_receivers (mqs s (r_queue r))) \<and>
        (\<forall>m\<in>set (q_messages (mqs s (r_queue r))). \<not> testmsg m (r_msgtype r) (r_mode r))
    | Sending d \<Rightarrow> held s (slot_of (ss_msqid d)) (ss_queue d) \<and> t \<in> set (q_senders (mqs s (ss_queue d))) \<and>
        queue_full (ss_msg d) (mqs s (ss_queue d))"
proof -
  have inv: "msg_inv s" "blocked s" using msg_history_ok [OF assms(1)] by (simp_all add: msg_ok_def)
  show ?thesis
  proof (cases "waits s t")
    case (Receiving r)
    then have r: "r_msg r = Inl EAGAIN" "held s (slot_of (r_msqid r)) (r_queue r)"
      using msg_invD(6) [OF inv(1), of t] assms(2) by (auto simp: rcv_ok_def)
    note o = queue_okD [OF msg_invD(5) [OF inv(1) r(2)]]
    have t: "t \<in> set (q_receivers (mqs s (r_queue r)))" using o(2) Receiving r(1) by (simp add: receiving_def)
    then show ?thesis using o(4) [OF t] r Receiving by (auto simp: wants_def)
  next
    case (Sending d)
    then have d: "ss_linked d" "held s (slot_of (ss_msqid d)) (ss_queue d)"
      using msg_invD(6) [OF inv(1), of t] assms(2) by (auto simp: snd_ok_def)
    have t: "t \<in> set (q_senders (mqs s (ss_queue d)))"
      using queue_okD(3) [OF msg_invD(5) [OF inv(1) d(2)]] Sending d(1) by (simp add: sending_def)
    then show ?thesis using blockedD [OF inv(2) d(2) t Sending assms(2)] d Sending by simp
  qed simp
qed

theorem msg_no_lost_wakeup_witness:
  "\<exists>s d. bind_outcome msg_booted (run_msgs [get_queue, set_limit 2, send_text 1 3 [7, 8], send_text 2 5 [9]]) = Done s \<and>
     waits s 2 = Sending d \<and> queue_full (ss_msg d) (mqs s (ss_queue d))"
proof -
  let ?cs = "[get_queue, set_limit 2, send_text 1 3 [7, 8], send_text 2 5 [9]]"
  have "case bind_outcome msg_booted (run_msgs ?cs) of Bug \<Rightarrow> False
    | Done s \<Rightarrow> \<not> running (procs s 2) \<and> (case waits s 2 of Sending d \<Rightarrow> True | _ \<Rightarrow> False)"
    by code_simp
  then obtain s where s: "bind_outcome msg_booted (run_msgs ?cs) = Done s"
    "\<not> running (procs s 2) \<and> (case waits s 2 of Sending d \<Rightarrow> True | _ \<Rightarrow> False)"
    by (rule outcome_caseE)
  then obtain d where d: "waits s 2 = Sending d" "\<not> running (procs s 2)" by (cases "waits s 2") auto
  then have "queue_full (ss_msg d) (mqs s (ss_queue d))"
    using msg_no_lost_wakeup [OF msg_booted_history [OF s(1)] d(2)] by simp
  then show ?thesis using s(1) d(1) by blast
qed

text \<open>
  C26: Every call on message queues completes, in every state that a history reaches, without
  reading outside a table, without a \<open>BUG\<close> check firing and with all structures that it follows still
  there, except when the slot of the identifier lies just past the end of the array.
\<close>

theorem msg_call_completes:
  "msg_history s \<Longrightarrow> msg_possible c s \<Longrightarrow> msg_supported c s \<Longrightarrow> \<exists>s'. run_msg c s = Done s' \<and> msg_inv s'"
  using msg_call_ok [of s c] msg_history_ok [of s] by (auto simp: msg_ok_def)

theorem msg_call_completes_witness:
  "\<exists>s s'. bind_outcome msg_booted (run_msgs [get_queue]) = Done s \<and> run_msg (send_text 1 3 [7]) s = Done s' \<and> msg_inv s'"
proof -
  have "case bind_outcome msg_booted (run_msgs [get_queue]) of Bug \<Rightarrow> False
    | Done s \<Rightarrow> msg_possible (send_text 1 3 [7]) s \<and> msg_supported (send_text 1 3 [7]) s"
    by code_simp
  then obtain s where s: "bind_outcome msg_booted (run_msgs [get_queue]) = Done s"
    "msg_possible (send_text 1 3 [7]) s \<and> msg_supported (send_text 1 3 [7]) s"
    by (rule outcome_caseE)
  then show ?thesis using msg_call_completes [OF msg_booted_history [OF s(1)], of "send_text 1 3 [7]"] by blast
qed



text \<open>
  C12: What \<open>msgsnd\<close> does when it succeeds. The message, with the sender's type and text, goes to the
  first sleeping receiver that accepts its type and its size, which gets that type and text when it
  wakes up, and then it is not put into the queue; when there is no such receiver, it becomes the last
  message of the queue.
\<close>

theorem msgsnd_correct:
  assumes "msg_history s" and "msgsnd_start mem s t x (Some ty) src n flg = Done (s', Msg_returns (Inr 0))"
  shows "\<exists>p. held s (slot_of x) p \<and>
    (let m = \<lparr>m_type = ty, m_ts = n, m_text = msg_parts (take (unat n) src)\<rparr>
     in case find (\<lambda>u. accepts (waits s u) m) (q_receivers (mqs s p)) of
          None \<Rightarrow> q_messages (mqs s' p) = q_messages (mqs s p) @ [m]
        | Some u \<Rightarrow> q_messages (mqs s' p) = q_messages (mqs s p) \<and>
            (\<exists>r. waits s u = Receiving r \<and> (\<forall>sig room. min (unat (r_msgsz r)) (unat n) \<le> room \<longrightarrow>
               (\<exists>s''. msg_wake s' u sig (Some room) =
                  Done (s'', Msg_received ty (take (unat (r_msgsz r)) (take (unat n) src)))))))"
proof -
  let ?m = "\<lparr>m_type = ty, m_ts = n, m_text = msg_parts (take (unat n) src)\<rparr>"
  have ok: "msg_ok s" and inv: "msg_inv (msg_locked s)" using msg_history_ok [OF assms(1)] msg_locked_inv by (simp_all add: msg_ok_def)
  have x: "0 \<le> x" "\<not> n > msg_ctlmax s" "\<not> n <s 0" "\<not> ty <s 1" "msg_lock s x \<noteq> Bug"
    using assms(2) by (auto simp: msgsnd_start_def Let_def split: if_splits sum.splits)
  then have g: "id_ok (msg_ids s) x" using msg_table.lock_past_end [of s x] ok msg_invD(1) by (auto simp: msg_ok_def)
  obtain tx where l: "load_msg mem src (unat n) = Inr tx"
    using assms(2) x by (auto simp: msgsnd_start_def split: sum.splits)
  have m: "tx = msg_parts (take (unat n) src)" using load_msg_parts [OF l] by simp
  have wf: "msg_wf ?m" using load_msg_wf [OF l x(3,4)] m by simp
  obtain p where p: "msg_lock s x = Done (msg_locked s, Some p)" "held s (slot_of x) p"
    by (rule msg_lock_cases [OF ok g]) (use assms(2) l x in \<open>auto simp: msgsnd_start_def Let_def\<close>)
  then have r: "msgsnd_retry (msg_locked s) t p x ?m flg = Done (s', Msg_returns (Inr 0))"
    using assms(2) l m x by (simp add: msgsnd_start_def Let_def)
  have h: "held (msg_locked s) (slot_of x) p" using p(2) by simp
  obtain s1 b where s1: "hands_over p ?m (q_receivers (mqs (msg_locked s) p)) (msg_locked s) s1 b" "waits s' = waits s1"
    "q_messages (mqs s' p) = (if b then q_messages (mqs (msg_locked s) p) else q_messages (mqs (msg_locked s) p) @ [?m])"
    using msgsnd_retry_sent [OF inv h wf r] .
  show ?thesis
  proof (cases b)
    case True
    then obtain u r where u: "find (\<lambda>u. accepts (waits s u) ?m) (q_receivers (mqs s p)) = Some u"
      "waits s u = Receiving r" "waits s' u = Receiving (r\<lparr>r_msg := Inr ?m\<rparr>)"
      using s1 by (auto simp: hands_over_def)
    then show ?thesis
      using p(2) s1(3) True msg_wake_handed [OF u(3) wf] by (auto simp: Let_def concat_msg_parts)
  next
    case False
    then show ?thesis using p(2) s1 by (auto simp: hands_over_def Let_def)
  qed
qed

theorem msgsnd_correct_witness:
  "\<exists>s s' p. bind_outcome msg_booted (run_msgs [get_queue]) = Done s \<and>
     msgsnd_start 1 s 2 0 (Some 3) [7, 8] 2 0 = Done (s', Msg_returns (Inr 0)) \<and> held s (slot_of 0) p"
proof -
  have "case bind_outcome msg_booted (run_msgs [get_queue]) of Bug \<Rightarrow> False
    | Done s \<Rightarrow> reply_is (msgsnd_start 1 s 2 0 (Some 3) [7, 8] 2 0) (Msg_returns (Inr 0))"
    by code_simp
  then obtain s where s: "bind_outcome msg_booted (run_msgs [get_queue]) = Done s"
    "reply_is (msgsnd_start 1 s 2 0 (Some 3) [7, 8] 2 0) (Msg_returns (Inr 0))"
    by (rule outcome_caseE)
  then obtain s' where s': "msgsnd_start 1 s 2 0 (Some 3) [7, 8] 2 0 = Done (s', Msg_returns (Inr 0))"
    by (auto simp: reply_is_def split: outcome.splits)
  show ?thesis using msgsnd_correct [OF msg_booted_history [OF s(1)] s'] s(1) s' by blast
qed

text \<open>
  C39: \<open>msgrcv\<close> does not check the sequence number of its identifier. There is a history after which the
  queue that had identifier 0 is gone and another queue has its slot: \<open>msgsnd\<close> refuses identifier 0 with
  \<open>EIDRM\<close>, and \<open>msgrcv\<close> takes a message from the other queue.
\<close>

theorem msgrcv_stale_id:
  "\<exists>s. msg_history s \<and> held s (slot_of 0) 0 \<and> msg_checkid s 0 0 \<and>
     reply_is (msgsnd_start 1 s 1 0 (Some 3) [7] 1 0) (Msg_returns (Inl EIDRM)) \<and>
     reply_is (msgrcv_start s 1 0 100 0 0 (Some 100)) (Msg_received 3 [7])"
proof -
  let ?cs = "[get_queue, remove_queue, get_queue, Msg_send 1 2 0x8000 (Some 3) [7] 1 0]"
  have "case bind_outcome msg_booted (run_msgs ?cs) of Bug \<Rightarrow> False
    | Done s \<Rightarrow> held s (slot_of 0) 0 \<and> msg_checkid s 0 0 \<and>
        reply_is (msgsnd_start 1 s 1 0 (Some 3) [7] 1 0) (Msg_returns (Inl EIDRM)) \<and>
        reply_is (msgrcv_start s 1 0 100 0 0 (Some 100)) (Msg_received 3 [7])"
    by code_simp
  then show ?thesis by (rule outcome_caseE) (use msg_booted_history in blast)
qed

text \<open>
  C40: The limit of a queue is checked as a signed number. There is a history after which a process
  without the capability \<open>CAP_SYS_RESOURCE\<close> sets the limit of its queue to almost 4 gigabytes, although
  \<open>msg_ctlmnb\<close> is 16384; a limit of 16385 is refused.
\<close>

theorem msgctl_limit_sign:
  "\<exists>s s'. msg_history s \<and> msg_ctlmnb s = 16384 \<and> \<not> capable (bset s) (msg_cred s 9) CAP_SYS_RESOURCE \<and>
     sys_msgctl s 9 0 IPC_SET (limit_buf 0xffffffff) = Done (s', Inr 0, Out_none) \<and> q_qbytes (mqs s' 0) = 0xffffffff \<and>
     (\<exists>s''. sys_msgctl s 9 0 IPC_SET (limit_buf 16385) = Done (s'', Inl EPERM, Out_none))"
proof -
  have "case bind_outcome msg_booted (run_msgs [get_queue]) of Bug \<Rightarrow> False
    | Done s \<Rightarrow> msg_ctlmnb s = 16384 \<and> \<not> capable (bset s) (msg_cred s 9) CAP_SYS_RESOURCE \<and>
        (case sys_msgctl s 9 0 IPC_SET (limit_buf 0xffffffff) of Bug \<Rightarrow> False
         | Done (s', r) \<Rightarrow> r = (Inr 0, Out_none) \<and> q_qbytes (mqs s' 0) = 0xffffffff) \<and>
        (case sys_msgctl s 9 0 IPC_SET (limit_buf 16385) of Bug \<Rightarrow> False | Done (s'', r) \<Rightarrow> r = (Inl EPERM, Out_none))"
    by code_simp
  then obtain s where s: "bind_outcome msg_booted (run_msgs [get_queue]) = Done s"
    "msg_ctlmnb s = 16384" "\<not> capable (bset s) (msg_cred s 9) CAP_SYS_RESOURCE"
    "case sys_msgctl s 9 0 IPC_SET (limit_buf 0xffffffff) of Bug \<Rightarrow> False
       | Done (s', r) \<Rightarrow> r = (Inr 0, Out_none) \<and> q_qbytes (mqs s' 0) = 0xffffffff"
    "case sys_msgctl s 9 0 IPC_SET (limit_buf 16385) of Bug \<Rightarrow> False | Done (s'', r) \<Rightarrow> r = (Inl EPERM, Out_none)"
    by (elim outcome_caseE) blast
  then show ?thesis
    using msg_booted_history [OF s(1)] by (auto split: outcome.splits)
qed

end
