(* ===== verification/Resource.thy ===== *)
theory Resource
  imports Format "HOL-Library.Monad_Syntax"
begin

text \<open>
  The resource trees of \<open>kernel/resource.c\<close>: which driver owns which I/O ports and which bus
  addresses. A resource is a range of addresses; the resources below it are ranges inside its own
  that do not overlap, kept in a list by address. Drivers enter ranges of their own
  (\<open>request_resource\<close>), look for a free range (\<open>allocate_resource\<close>), or have the kernel
  allocate the structure (\<open>__request_region\<close>).

  The structures are kept in a store and linked by \<open>parent\<close>, \<open>sibling\<close> and \<open>child\<close>
  pointers, as in the source; a pointer to a pointer, \<open>struct resource **p\<close>, is a \<open>link\<close>. Nothing
  in the code prevents a cyclic list, so its loops are partial functions: \<open>None\<close> is a call that
  does not return, because it loops, waits for a lock that nobody will release, or follows a null
  pointer. \<open>get_option\<close> of \<open>init/main.c\<close> is here because \<open>reserve=\<close> on the command line is
  parsed with it.
\<close>

section \<open>Data\<close>

record resource =
  r_name :: "string option"
  r_start :: ulong
  r_end :: ulong
  r_flags :: ulong
  r_parent :: "nat option"
  r_sibling :: "nat option"
  r_child :: "nat option"

datatype link = Child nat | Sibling nat

text \<open>
  \<open>kmalloc_pool\<close> has the addresses that \<open>kmalloc\<close> will hand out, \<open>resource_lock\<close> says whether the
  lock is held for writing, and \<open>complaints\<close> collects the ranges that \<open>__release_region\<close> complains
  about on the console.
\<close>

record res_state =
  res :: "nat \<Rightarrow> resource"
  kmalloc_pool :: "nat list"
  resource_lock :: bool
  complaints :: "(ulong \<times> ulong) list"

definition IORESOURCE_IO :: ulong where "IORESOURCE_IO = 0x100"
definition IORESOURCE_MEM :: ulong where "IORESOURCE_MEM = 0x200"
definition IORESOURCE_BUSY :: ulong where "IORESOURCE_BUSY = 0x80000000"
definition MAXRESERVE :: nat where "MAXRESERVE = 4"

text \<open>
  The addresses of the static structures: the two roots, and the array \<open>reserve\<close> of
  \<open>reserve_setup\<close>.
\<close>

definition ioport_resource :: nat where "ioport_resource = 0"
definition iomem_resource :: nat where "iomem_resource = 1"
definition reserve :: "nat \<Rightarrow> nat" where "reserve i = 2 + i"

definition cleared :: resource where
  "cleared = \<lparr>r_name = None, r_start = 0, r_end = 0, r_flags = 0, r_parent = None, r_sibling = None,
     r_child = None\<rparr>"

definition initial_res :: "nat \<Rightarrow> resource" where
  "initial_res =
     (\<lambda>_. cleared)
       (ioport_resource := cleared\<lparr>r_name := Some ''PCI IO'', r_end := 0xFFFF,
          r_flags := IORESOURCE_IO\<rparr>,
        iomem_resource := cleared\<lparr>r_name := Some ''PCI mem'', r_end := 0xFFFFFFFF,
          r_flags := IORESOURCE_MEM\<rparr>)"

definition set_res :: "nat \<Rightarrow> (resource \<Rightarrow> resource) \<Rightarrow> res_state \<Rightarrow> res_state" where
  "set_res r f s = s\<lparr>res := (res s)(r := f (res s r))\<rparr>"

fun load :: "res_state \<Rightarrow> link \<Rightarrow> nat option" where
  "load s (Child r) = r_child (res s r)"
| "load s (Sibling r) = r_sibling (res s r)"

fun store :: "link \<Rightarrow> nat option \<Rightarrow> res_state \<Rightarrow> res_state" where
  "store (Child r) v s = set_res r (\<lambda>x. x\<lparr>r_child := v\<rparr>) s"
| "store (Sibling r) v s = set_res r (\<lambda>x. x\<lparr>r_sibling := v\<rparr>) s"

definition write_lock :: "res_state \<Rightarrow> res_state option" where
  "write_lock s = (if resource_lock s then None else Some (s\<lparr>resource_lock := True\<rparr>))"

definition write_unlock :: "res_state \<Rightarrow> res_state" where
  "write_unlock s = s\<lparr>resource_lock := False\<rparr>"

definition kmalloc_res :: "res_state \<Rightarrow> (nat \<times> res_state) option" where
  "kmalloc_res s =
     (case kmalloc_pool s of [] \<Rightarrow> None | a # pool \<Rightarrow> Some (a, s\<lparr>kmalloc_pool := pool\<rparr>))"

definition kfree_res :: "nat \<Rightarrow> res_state \<Rightarrow> res_state" where
  "kfree_res a s = s\<lparr>kmalloc_pool := a # kmalloc_pool s\<rparr>"

section \<open>Requesting and releasing\<close>

definition link_in :: "nat \<Rightarrow> nat \<Rightarrow> nat option \<Rightarrow> link \<Rightarrow> res_state \<Rightarrow> res_state" where
  "link_in root new tmp p s =
     set_res new (\<lambda>x. x\<lparr>r_parent := Some root\<rparr>)
       (store p (Some new) (set_res new (\<lambda>x. x\<lparr>r_sibling := tmp\<rparr>) s))"

partial_function (option) request_loop ::
  "nat \<Rightarrow> nat \<Rightarrow> ulong \<Rightarrow> ulong \<Rightarrow> link \<Rightarrow> res_state \<Rightarrow> (nat option \<times> res_state) option"
where
  "request_loop root new start fin p s =
     (case load s p of
        None \<Rightarrow> Some (None, link_in root new None p s)
      | Some tmp \<Rightarrow>
          if r_start (res s tmp) > fin then Some (None, link_in root new (Some tmp) p s)
          else if r_end (res s tmp) < start then request_loop root new start fin (Sibling tmp) s
          else Some (Some tmp, s))"

definition request_resource_nolock ::
  "nat \<Rightarrow> nat \<Rightarrow> res_state \<Rightarrow> (nat option \<times> res_state) option"
where
  "request_resource_nolock root new s =
     (let start = r_start (res s new);
          fin = r_end (res s new)
      in if fin < start then Some (Some root, s)
         else if start < r_start (res s root) then Some (Some root, s)
         else if fin > r_end (res s root) then Some (Some root, s)
         else request_loop root new start fin (Child root) s)"

definition request_resource :: "nat \<Rightarrow> nat \<Rightarrow> res_state \<Rightarrow> ((errno + unit) \<times> res_state) option" where
  "request_resource root new s = do {
     s \<leftarrow> write_lock s;
     (conflict, s) \<leftarrow> request_resource_nolock root new s;
     Some (if conflict \<noteq> None then Inl EBUSY else Inr (), write_unlock s)
   }"

definition unlink_res :: "nat \<Rightarrow> link \<Rightarrow> res_state \<Rightarrow> res_state" where
  "unlink_res old p s =
     set_res old (\<lambda>x. x\<lparr>r_parent := None\<rparr>) (store p (r_sibling (res s old)) s)"

partial_function (option) release_res_loop ::
  "nat \<Rightarrow> link \<Rightarrow> res_state \<Rightarrow> ((errno + unit) \<times> res_state) option"
where
  "release_res_loop old p s =
     (case load s p of
        None \<Rightarrow> Some (Inl EINVAL, s)
      | Some q \<Rightarrow>
          if q = old then Some (Inr (), unlink_res old p s)
          else release_res_loop old (Sibling q) s)"

definition release_resource :: "nat \<Rightarrow> res_state \<Rightarrow> ((errno + unit) \<times> res_state) option" where
  "release_resource old s =
     (case r_parent (res s old) of
        None \<Rightarrow> None
      | Some par \<Rightarrow> release_res_loop old (Child par) s)"

section \<open>Finding a free range\<close>

text \<open>On i386 no device restricts where a range may be.\<close>

definition resource_fixup :: "'dev \<Rightarrow> nat \<Rightarrow> ulong \<Rightarrow> ulong \<Rightarrow> ulong" where
  "resource_fixup dev new start len = start"

partial_function (option) find_loop ::
  "'dev \<Rightarrow> nat \<Rightarrow> ulong \<Rightarrow> ulong \<Rightarrow> ulong \<Rightarrow> ulong \<Rightarrow> nat option \<Rightarrow> ulong \<Rightarrow> res_state \<Rightarrow>
    ((errno + unit) \<times> res_state) option"
where
  "find_loop dev new len mn mx align this start s =
     (case this of
        None \<Rightarrow> Some (Inl EBUSY, s)
      | Some t \<Rightarrow>
          let fin = r_start (res s t);
              start = (if start < mn then mn else start);
              fin = (if fin > mx then mx else fin);
              start = (start + align - 1) AND NOT (align - 1);
              start = resource_fixup dev new start len
          in if start < fin \<and> fin - start \<ge> len
             then Some (Inr (), set_res new (\<lambda>x. x\<lparr>r_start := start, r_end := start + len - 1\<rparr>) s)
             else find_loop dev new len mn mx align (r_sibling (res s t)) (r_end (res s t) + 1) s)"

definition find_resource ::
  "nat \<Rightarrow> nat \<Rightarrow> ulong \<Rightarrow> ulong \<Rightarrow> ulong \<Rightarrow> ulong \<Rightarrow> 'dev \<Rightarrow> res_state \<Rightarrow>
    ((errno + unit) \<times> res_state) option"
where
  "find_resource root new len mn mx align dev s =
     find_loop dev new len mn mx align (r_child (res s root)) (r_start (res s root)) s"

definition allocate_resource ::
  "nat \<Rightarrow> nat \<Rightarrow> ulong \<Rightarrow> ulong \<Rightarrow> ulong \<Rightarrow> ulong \<Rightarrow> 'dev \<Rightarrow> res_state \<Rightarrow>
    ((errno + unit) \<times> res_state) option"
where
  "allocate_resource root new len mn mx align dev s = do {
     s \<leftarrow> write_lock s;
     (err, s) \<leftarrow> find_resource root new len mn mx align dev s;
     (err, s) \<leftarrow> (case err of
        Inl e \<Rightarrow> Some (Inl e, s)
      | Inr _ \<Rightarrow> do {
          (conflict, s) \<leftarrow> request_resource_nolock root new s;
          Some (if conflict \<noteq> None then Inl EBUSY else Inr (), s)
        });
     Some (err, write_unlock s)
   }"

section \<open>Regions\<close>

partial_function (option) region_loop ::
  "nat \<Rightarrow> nat \<Rightarrow> res_state \<Rightarrow> (bool \<times> res_state) option"
where
  "region_loop par new s = do {
     (conflict, s) \<leftarrow> request_resource_nolock par new s;
     (case conflict of
        None \<Rightarrow> Some (True, s)
      | Some c \<Rightarrow>
          if c \<noteq> par \<and> r_flags (res s c) AND IORESOURCE_BUSY = 0 then region_loop c new s
          else Some (False, s))
   }"

text \<open>When the loop gives up, the structure is freed and \<open>NULL\<close> returned with the lock held.\<close>

definition request_region_at ::
  "nat \<Rightarrow> ulong \<Rightarrow> ulong \<Rightarrow> string \<Rightarrow> res_state \<Rightarrow> (nat option \<times> res_state) option"
where
  "request_region_at par start n name s =
     (case kmalloc_res s of
        None \<Rightarrow> Some (None, s)
      | Some (a, s) \<Rightarrow> do {
          let s = set_res a (\<lambda>_. cleared\<lparr>r_name := Some name, r_start := start,
                    r_end := start + n - 1, r_flags := IORESOURCE_BUSY\<rparr>) s;
          s \<leftarrow> write_lock s;
          (ok, s) \<leftarrow> region_loop par a s;
          Some (if ok then (Some a, write_unlock s) else (None, kfree_res a s))
        })"

definition check_region_at ::
  "nat \<Rightarrow> ulong \<Rightarrow> ulong \<Rightarrow> res_state \<Rightarrow> ((errno + unit) \<times> res_state) option"
where
  "check_region_at par start n s = do {
     (r, s) \<leftarrow> request_region_at par start n ''check-region'' s;
     (case r of
        None \<Rightarrow> Some (Inl EBUSY, s)
      | Some a \<Rightarrow> do {
          (_, s) \<leftarrow> release_resource a s;
          Some (Inr (), kfree_res a s)
        })
   }"

partial_function (option) release_region_loop ::
  "ulong \<Rightarrow> ulong \<Rightarrow> link \<Rightarrow> res_state \<Rightarrow> res_state option"
where
  "release_region_loop start fin p s =
     (case load s p of
        None \<Rightarrow> Some (s\<lparr>complaints := complaints s @ [(start, fin)]\<rparr>)
      | Some r \<Rightarrow>
          if r_start (res s r) = start \<and> r_end (res s r) = fin \<and>
             r_flags (res s r) AND IORESOURCE_BUSY = 0
          then Some (kfree_res r (store p (r_sibling (res s r)) s))
          else release_region_loop start fin (Sibling r) s)"

definition release_region_at :: "nat \<Rightarrow> ulong \<Rightarrow> ulong \<Rightarrow> res_state \<Rightarrow> res_state option" where
  "release_region_at par start n s = release_region_loop start (start + n - 1) (Child par) s"

definition request_region where "request_region = request_region_at ioport_resource"
definition request_mem_region where "request_mem_region = request_region_at iomem_resource"
definition check_region where "check_region = check_region_at ioport_resource"
definition check_mem_region where "check_mem_region = check_region_at iomem_resource"
definition release_region where "release_region = release_region_at ioport_resource"
definition release_mem_region where "release_mem_region = release_region_at iomem_resource"

section \<open>Ranges reserved on the command line\<close>

text \<open>
  \<open>get_option\<close> returns its code, the value it stores if any, and the rest of the string. Its callers
  read the value only when it was stored.
\<close>

definition the_default :: "ulong option \<Rightarrow> ulong" where
  "the_default v = (case v of None \<Rightarrow> 0 | Some n \<Rightarrow> n)"

definition get_option :: "string \<Rightarrow> int \<times> ulong option \<times> string" where
  "get_option cur =
     (if cur = [] then (0, None, cur)
      else
        let (v, str) = simple_strtol cur 0
        in if str = cur then (0, Some v, str)
           else (case str of
                   c # rest \<Rightarrow> if c = CHR '','' then (2, Some v, rest) else (1, Some v, str)
                 | [] \<Rightarrow> (1, Some v, str)))"

function get_options_loop :: "nat \<Rightarrow> nat \<Rightarrow> string \<Rightarrow> ulong list \<Rightarrow> nat \<times> string \<times> ulong list" where
  "get_options_loop nints i str ints =
     (if i < nints then
        let (code, v, str) = get_option str;
            ints = (case v of None \<Rightarrow> ints | Some v \<Rightarrow> ints[i := v])
        in if code = 0 then (i, str, ints)
           else if code = 1 then (i + 1, str, ints)
           else get_options_loop nints (i + 1) str ints
      else (i, str, ints))"
  by pat_completeness auto
termination
  by (relation "measure (\<lambda>(nints, i, str, ints). nints - i)") auto

declare get_options_loop.simps [simp del]

definition get_options :: "string \<Rightarrow> nat \<Rightarrow> ulong list \<Rightarrow> string \<times> ulong list" where
  "get_options str nints ints =
     (let (i, str, ints) = get_options_loop nints 1 str ints
      in (str, ints[0 := of_nat (i - 1)]))"

partial_function (option) reserve_setup_loop :: "nat \<Rightarrow> string \<Rightarrow> res_state \<Rightarrow> res_state option" where
  "reserve_setup_loop reserved str s =
     (let (code, v, str) = get_option str; io_start = the_default v
      in if code \<noteq> 2 then Some s
         else
           let (code, v, str) = get_option str; io_num = the_default v
           in if code = 0 then Some s
              else if reserved < MAXRESERVE then do {
                let a = reserve reserved;
                let s = set_res a (\<lambda>x. x\<lparr>r_name := Some ''reserved'', r_start := io_start,
                          r_end := io_start + io_num - 1, r_child := None\<rparr>) s;
                (r, s) \<leftarrow> request_resource
                  (if sint io_start \<ge> 0x10000 then iomem_resource else ioport_resource) a s;
                reserve_setup_loop (case r of Inr _ \<Rightarrow> reserved + 1 | Inl _ \<Rightarrow> reserved) str s
              }
              else reserve_setup_loop reserved str s)"

definition reserve_setup :: "string \<Rightarrow> res_state \<Rightarrow> res_state option" where
  "reserve_setup str s = reserve_setup_loop 0 str s"

section \<open>Reports\<close>

text \<open>
  No \<open>snprintf\<close> is defined in the sources, so it is an argument: for a size, a format and its
  arguments, the text that it writes and its return value. The buffer is the list of the writes
  with their offsets.
\<close>

type_synonym snprintf = "int \<Rightarrow> string \<Rightarrow> va list \<Rightarrow> string \<times> int"

partial_function (option) do_resource_list ::
  "snprintf \<Rightarrow> nat option \<Rightarrow> string \<Rightarrow> int \<Rightarrow> int \<Rightarrow> int \<Rightarrow> (int \<times> string) list \<Rightarrow> res_state \<Rightarrow>
    (int \<times> (int \<times> string) list) option"
where
  "do_resource_list snprintf this fmt offset0 buf fin out s =
     (let offset = (if offset0 < 0 then 0 else offset0)
      in case this of
           None \<Rightarrow> Some (buf, out)
         | Some t \<Rightarrow>
             if fin - buf < 80 then Some (buf, out)
             else
               let name = (case r_name (res s t) of None \<Rightarrow> ''<BAD>'' | Some n \<Rightarrow> n);
                   (text, n) = snprintf (fin - buf) (drop (nat offset) fmt)
                     [Va_int (r_start (res s t)), Va_int (r_end (res s t)), Va_string (Some name)];
                   out = out @ [(buf, text)];
                   buf = buf + n
               in do {
                 (buf, out) \<leftarrow> (case r_child (res s t) of
                    None \<Rightarrow> Some (buf, out)
                  | Some c \<Rightarrow> do_resource_list snprintf (Some c) fmt (offset - 2) buf fin out s);
                 do_resource_list snprintf (r_sibling (res s t)) fmt offset buf fin out s
               })"

lemmas resource_loops [code] = request_loop.simps release_res_loop.simps find_loop.simps region_loop.simps
  release_region_loop.simps reserve_setup_loop.simps do_resource_list.simps

definition get_resource_list ::
  "snprintf \<Rightarrow> nat \<Rightarrow> int \<Rightarrow> res_state \<Rightarrow> (int \<times> (int \<times> string) list) option"
where
  "get_resource_list snprintf root len s =
     (if resource_lock s then None
      else do_resource_list snprintf (r_child (res s root))
             (if root = ioport_resource then ''        %04lx-%04lx : %s'' @ [CHR 0x0A]
              else ''        %08lx-%08lx : %s'' @ [CHR 0x0A])
             8 0 len [] s)"

section \<open>Lists of siblings\<close>

text \<open>
  \<open>seg h p xs q\<close>: following the \<open>sibling\<close> pointers from \<open>p\<close> one meets the resources \<open>xs\<close> and
  arrives at \<open>q\<close>. \<open>link_at p xs\<close> is the pointer variable that the loops hold after passing \<open>xs\<close>.
\<close>

fun seg :: "(nat \<Rightarrow> resource) \<Rightarrow> nat option \<Rightarrow> nat list \<Rightarrow> nat option \<Rightarrow> bool" where
  "seg h p [] q \<longleftrightarrow> p = q"
| "seg h p (x # xs) q \<longleftrightarrow> p = Some x \<and> seg h (r_sibling (h x)) xs q"

definition hd_opt :: "'a list \<Rightarrow> 'a option" where
  "hd_opt xs = (case xs of [] \<Rightarrow> None | x # _ \<Rightarrow> Some x)"

definition link_at :: "link \<Rightarrow> nat list \<Rightarrow> link" where
  "link_at p xs = (if xs = [] then p else Sibling (last xs))"

lemma hd_opt_simps [simp]: "hd_opt [] = None" "hd_opt (x # xs) = Some x"
  by (simp_all add: hd_opt_def)

lemma link_at_simps [simp]:
  "link_at p [] = p" "link_at p (xs @ [x]) = Sibling x" "link_at p (x # xs) = link_at (Sibling x) xs"
  by (simp_all add: link_at_def)

lemma seg_append: "seg h p (xs @ ys) q \<longleftrightarrow> (\<exists>m. seg h p xs m \<and> seg h m ys q)"
  by (induction xs arbitrary: p) auto

lemma seg_cong:
  "(\<And>x. x \<in> set xs \<Longrightarrow> r_sibling (h' x) = r_sibling (h x)) \<Longrightarrow> seg h' p xs q = seg h p xs q"
  by (induction xs arbitrary: p) auto

lemma seg_end_hd: "seg h p xs None \<Longrightarrow> p = hd_opt xs"
  by (cases xs) auto

lemma load_link_at: "seg (res s) (load s p) xs m \<Longrightarrow> load s (link_at p xs) = m"
  by (induction xs arbitrary: p) auto

section \<open>The walks along a list\<close>

lemma request_loop_walk:
  assumes "seg (res s) (load s p) xs m"
    and "\<forall>c\<in>set xs. r_start (res s c) \<le> fin \<and> r_end (res s c) < start"
  shows "request_loop root new start fin p s = request_loop root new start fin (link_at p xs) s"
  using assms
proof (induction xs arbitrary: p)
  case (Cons x xs)
  have "request_loop root new start fin p s = request_loop root new start fin (Sibling x) s"
    using Cons.prems by (subst request_loop.simps) auto
  then show ?case using Cons by simp
qed simp

lemma request_loop_spec:
  assumes "seg (res s) (load s p) (xs @ ys) None"
    and "\<forall>c\<in>set xs. r_start (res s c) \<le> fin \<and> r_end (res s c) < start"
    and "ys = [] \<or> \<not> (r_start (res s (hd ys)) \<le> fin \<and> r_end (res s (hd ys)) < start)"
  shows "request_loop root new start fin p s =
    Some (if ys = [] \<or> fin < r_start (res s (hd ys))
          then (None, link_in root new (hd_opt ys) (link_at p xs) s) else (Some (hd ys), s))"
proof -
  obtain m where m: "seg (res s) (load s p) xs m" "seg (res s) m ys None"
    using assms(1) by (auto simp: seg_append)
  have l: "load s (link_at p xs) = hd_opt ys"
    using m(1) seg_end_hd [OF m(2)] by (simp add: load_link_at)
  have "request_loop root new start fin p s = request_loop root new start fin (link_at p xs) s"
    using m(1) assms(2) by (rule request_loop_walk)
  also have "\<dots> = Some (if ys = [] \<or> fin < r_start (res s (hd ys))
      then (None, link_in root new (hd_opt ys) (link_at p xs) s) else (Some (hd ys), s))"
    using assms(3) l by (subst request_loop.simps) (cases ys, auto)
  finally show ?thesis .
qed

lemma release_res_loop_spec:
  assumes "seg (res s) (load s p) (xs @ old # ys) None" and "old \<notin> set xs"
  shows "release_res_loop old p s = Some (Inr (), unlink_res old (link_at p xs) s)"
  using assms
proof (induction xs arbitrary: p)
  case Nil
  then show ?case by (subst release_res_loop.simps) simp
next
  case (Cons x xs)
  then have "release_res_loop old p s = release_res_loop old (Sibling x) s"
    by (subst release_res_loop.simps) auto
  with Cons show ?case by simp
qed

lemma release_region_loop_none:
  assumes "seg (res s) (load s p) xs None"
    and "\<forall>c\<in>set xs. \<not> (r_start (res s c) = start \<and> r_end (res s c) = fin \<and>
      r_flags (res s c) AND IORESOURCE_BUSY = 0)"
  shows "release_region_loop start fin p s = Some (s\<lparr>complaints := complaints s @ [(start, fin)]\<rparr>)"
  using assms
proof (induction xs arbitrary: p)
  case Nil
  then show ?case by (subst release_region_loop.simps) simp
next
  case (Cons x xs)
  then have "release_region_loop start fin p s = release_region_loop start fin (Sibling x) s"
    by (subst release_region_loop.simps) auto
  with Cons show ?case by simp
qed

section \<open>What linking and unlinking change\<close>

lemma res_set_res: "res (set_res r f s) x = (if x = r then f (res s r) else res s x)"
  by (simp add: set_res_def)

lemma set_res_rest [simp]:
  "kmalloc_pool (set_res r f s) = kmalloc_pool s" "resource_lock (set_res r f s) = resource_lock s"
  "complaints (set_res r f s) = complaints s"
  by (simp_all add: set_res_def)

lemma store_rest [simp]:
  "kmalloc_pool (store p v s) = kmalloc_pool s" "resource_lock (store p v s) = resource_lock s"
  "complaints (store p v s) = complaints s"
  by (cases p; simp)+

lemma store_fields [simp]:
  "r_name (res (store p v s) x) = r_name (res s x)" "r_start (res (store p v s) x) = r_start (res s x)"
  "r_end (res (store p v s) x) = r_end (res s x)" "r_flags (res (store p v s) x) = r_flags (res s x)"
  "r_parent (res (store p v s) x) = r_parent (res s x)"
  "r_child (res (store p v s) x) = (if p = Child x then v else r_child (res s x))"
  "r_sibling (res (store p v s) x) = (if p = Sibling x then v else r_sibling (res s x))"
  by (cases p; simp add: res_set_res)+

lemma link_in_fields [simp]:
  "r_name (res (link_in root new tmp p s) x) = r_name (res s x)"
  "r_start (res (link_in root new tmp p s) x) = r_start (res s x)"
  "r_end (res (link_in root new tmp p s) x) = r_end (res s x)"
  "r_flags (res (link_in root new tmp p s) x) = r_flags (res s x)"
  "r_parent (res (link_in root new tmp p s) x) = (if x = new then Some root else r_parent (res s x))"
  "r_child (res (link_in root new tmp p s) x) = (if p = Child x then Some new else r_child (res s x))"
  "r_sibling (res (link_in root new tmp p s) x) =
     (if p = Sibling x then Some new else if x = new then tmp else r_sibling (res s x))"
  "kmalloc_pool (link_in root new tmp p s) = kmalloc_pool s"
  "resource_lock (link_in root new tmp p s) = resource_lock s"
  "complaints (link_in root new tmp p s) = complaints s"
  by (simp_all add: link_in_def res_set_res)

lemma unlink_res_fields [simp]:
  "r_name (res (unlink_res old p s) x) = r_name (res s x)"
  "r_start (res (unlink_res old p s) x) = r_start (res s x)"
  "r_end (res (unlink_res old p s) x) = r_end (res s x)"
  "r_flags (res (unlink_res old p s) x) = r_flags (res s x)"
  "r_parent (res (unlink_res old p s) x) = (if x = old then None else r_parent (res s x))"
  "r_child (res (unlink_res old p s) x) = (if p = Child x then r_sibling (res s old) else r_child (res s x))"
  "r_sibling (res (unlink_res old p s) x) =
     (if p = Sibling x then r_sibling (res s old) else r_sibling (res s x))"
  "kmalloc_pool (unlink_res old p s) = kmalloc_pool s"
  "resource_lock (unlink_res old p s) = resource_lock s"
  "complaints (unlink_res old p s) = complaints s"
  by (simp_all add: unlink_res_def res_set_res)

lemma seg_link_in:
  assumes "seg (res s) (r_child (res s root)) (xs @ ys) None"
    and "distinct (xs @ ys)" and "new \<notin> set (xs @ ys)"
  shows "let s' = link_in root new (hd_opt ys) (link_at (Child root) xs) s
    in seg (res s') (r_child (res s' root)) (xs @ new # ys) None"
proof (cases xs rule: rev_cases)
  case Nil
  have "seg (res (link_in root new (hd_opt ys) (Child root) s)) (hd_opt ys) ys None"
    using assms Nil seg_end_hd [of "res s" _ ys] by (subst seg_cong [where h = "res s"]) auto
  then show ?thesis using Nil by simp
next
  case (snoc ws w)
  let ?s = "link_in root new (hd_opt ys) (Sibling w) s"
  obtain m where m: "seg (res s) (r_child (res s root)) ws (Some w)" "r_sibling (res s w) = m"
    "seg (res s) m ys None"
    using assms(1) snoc by (auto simp: seg_append)
  have "seg (res ?s) (r_child (res s root)) ws (Some w)"
    using m(1) assms(2,3) snoc by (subst seg_cong [where h = "res s"]) auto
  moreover have "seg (res ?s) (hd_opt ys) ys None"
    using m(3) seg_end_hd [OF m(3)] assms(2,3) snoc by (subst seg_cong [where h = "res s"]) auto
  ultimately show ?thesis using snoc assms(3) by (auto simp: seg_append)
qed

lemma seg_unlink:
  assumes "seg (res s) (r_child (res s r)) (xs @ old # ys) None" and "distinct (xs @ old # ys)"
  shows "let s' = unlink_res old (link_at (Child r) xs) s
    in seg (res s') (r_child (res s' r)) (xs @ ys) None"
proof (cases xs rule: rev_cases)
  case Nil
  then show ?thesis
    using assms by (simp add: seg_cong [of ys "res (unlink_res old (Child r) s)" "res s"])
next
  case (snoc ws w)
  let ?s = "unlink_res old (Sibling w) s"
  have m: "seg (res s) (r_child (res s r)) ws (Some w)" "seg (res s) (r_sibling (res s old)) ys None"
    using assms(1) snoc by (auto simp: seg_append)
  have "seg (res ?s) (r_child (res s r)) ws (Some w)"
    using m(1) assms(2) snoc by (subst seg_cong [where h = "res s"]) auto
  moreover have "seg (res ?s) (r_sibling (res s old)) ys None"
    using m(2) assms(2) snoc by (subst seg_cong [where h = "res s"]) auto
  ultimately show ?thesis using snoc by (auto simp: seg_append)
qed

section \<open>Consistent trees\<close>

text \<open>
  \<open>kids r\<close> are the resources below \<open>r\<close>, for every structure that is not free memory: the list that
  the pointers give, by address and without overlap, each inside \<open>r\<close> and with \<open>r\<close> as its parent.
  The last two conditions say that a resource with a parent is in its list and that no resource is
  below itself.
\<close>

abbreviation owned :: "res_state \<Rightarrow> nat \<Rightarrow> bool" where
  "owned s r \<equiv> r \<notin> set (kmalloc_pool s)"

definition apart :: "res_state \<Rightarrow> nat list \<Rightarrow> bool" where
  "apart s xs = sorted_wrt (\<lambda>a b. r_end (res s a) < r_start (res s b)) xs"

definition inside :: "res_state \<Rightarrow> nat \<Rightarrow> nat \<Rightarrow> bool" where
  "inside s r c \<longleftrightarrow> owned s c \<and> r_parent (res s c) = Some r \<and> r_start (res s r) \<le> r_start (res s c) \<and>
     r_start (res s c) \<le> r_end (res s c) \<and> r_end (res s c) \<le> r_end (res s r)"

definition forest :: "res_state \<Rightarrow> (nat \<Rightarrow> nat list) \<Rightarrow> bool" where
  "forest s kids \<longleftrightarrow>
     distinct (kmalloc_pool s) \<and> owned s ioport_resource \<and> owned s iomem_resource \<and>
     (\<forall>r. owned s r \<longrightarrow> seg (res s) (r_child (res s r)) (kids r) None \<and> apart s (kids r) \<and>
        (\<forall>c\<in>set (kids r). inside s r c)) \<and>
     (\<forall>c r. owned s c \<and> r_parent (res s c) = Some r \<longrightarrow> owned s r \<and> c \<in> set (kids r)) \<and>
     (\<exists>rank :: nat \<Rightarrow> nat. \<forall>r. owned s r \<longrightarrow> (\<forall>c\<in>set (kids r). rank c < rank r))"

lemma forestD:
  assumes "forest s kids"
  shows "distinct (kmalloc_pool s)" "owned s ioport_resource" "owned s iomem_resource"
    and "owned s r \<Longrightarrow> seg (res s) (r_child (res s r)) (kids r) None"
    and "owned s r \<Longrightarrow> apart s (kids r)"
    and "owned s r \<Longrightarrow> c \<in> set (kids r) \<Longrightarrow> inside s r c"
    and "owned s c \<Longrightarrow> r_parent (res s c) = Some r \<Longrightarrow> owned s r"
    and "owned s c \<Longrightarrow> r_parent (res s c) = Some r \<Longrightarrow> c \<in> set (kids r)"
  using assms unfolding forest_def by blast+

lemma forestI:
  fixes rank :: "nat \<Rightarrow> nat"
  assumes "distinct (kmalloc_pool s)" "owned s ioport_resource" "owned s iomem_resource"
    and "\<And>r. owned s r \<Longrightarrow> seg (res s) (r_child (res s r)) (kids r) None"
    and "\<And>r. owned s r \<Longrightarrow> apart s (kids r)"
    and "\<And>r c. owned s r \<Longrightarrow> c \<in> set (kids r) \<Longrightarrow> inside s r c"
    and "\<And>c r. owned s c \<Longrightarrow> r_parent (res s c) = Some r \<Longrightarrow> owned s r \<and> c \<in> set (kids r)"
    and "\<And>r c. owned s r \<Longrightarrow> c \<in> set (kids r) \<Longrightarrow> rank c < rank r"
  shows "forest s kids"
  unfolding forest_def using assms by blast

lemma forest_rank:
  assumes "forest s kids"
  obtains rank :: "nat \<Rightarrow> nat" where "\<And>r c. owned s r \<Longrightarrow> c \<in> set (kids r) \<Longrightarrow> rank c < rank r"
  using assms unfolding forest_def by blast

lemma apart_cong:
  "(\<And>c. c \<in> set xs \<Longrightarrow> r_start (res s' c) = r_start (res s c) \<and> r_end (res s' c) = r_end (res s c)) \<Longrightarrow>
    apart s' xs = apart s xs"
  by (induction xs) (auto simp: apart_def)

lemma apart_distinct:
  assumes "apart s xs" and "\<And>c. c \<in> set xs \<Longrightarrow> r_start (res s c) \<le> r_end (res s c)"
  shows "distinct xs"
  using assms
proof (induction xs)
  case (Cons x xs)
  then have "\<forall>c\<in>set xs. r_end (res s x) < r_start (res s c)" by (simp add: apart_def)
  then have "x \<notin> set xs" using Cons.prems(2) [of x] by force
  then show ?case using Cons by (simp add: apart_def)
qed simp

lemma forest_distinct: "forest s kids \<Longrightarrow> owned s r \<Longrightarrow> distinct (kids r)"
  using apart_distinct forestD(5,6) unfolding inside_def by metis

lemma forest_not_below:
  assumes "forest s kids" and "owned s r" and "c \<in> set (kids r)"
  shows "c \<in> set (kids q) \<Longrightarrow> owned s q \<Longrightarrow> q = r"
  using forestD(6) [OF assms(1,2,3)] forestD(6) [OF assms(1), of q c] by (simp add: inside_def)

lemma forest_leaf: "forest s kids \<Longrightarrow> owned s r \<Longrightarrow> r_child (res s r) = None \<Longrightarrow> kids r = []"
  using forestD(4) by (cases "kids r") force+

text \<open>A resource that is in no list and has none below it.\<close>

definition detached :: "res_state \<Rightarrow> nat \<Rightarrow> bool" where
  "detached s a \<longleftrightarrow> owned s a \<and> r_parent (res s a) = None \<and> r_child (res s a) = None"

lemma detached_not_below:
  "forest s kids \<Longrightarrow> detached s a \<Longrightarrow> owned s r \<Longrightarrow> a \<notin> set (kids r)"
  using forestD(6) unfolding detached_def inside_def by fastforce

text \<open>The fields of a detached resource may be changed at will.\<close>

lemma forest_set_detached:
  assumes "forest s kids" and "detached s a"
    and "\<And>x. r_parent (f x) = r_parent x" and "\<And>x. r_child (f x) = r_child x"
  shows "forest (set_res a f s) kids"
proof -
  let ?s = "set_res a f s"
  have a: "\<And>r. owned s r \<Longrightarrow> a \<notin> set (kids r)" using assms(1,2) by (rule detached_not_below)
  have leaf: "kids a = []" using forest_leaf [OF assms(1)] assms(2) by (simp add: detached_def)
  have seg: "seg (res ?s) (r_child (res ?s r)) (kids r) None" if "owned s r" for r
  proof -
    have "seg (res ?s) (r_child (res ?s r)) (kids r) None = seg (res s) (r_child (res ?s r)) (kids r) None"
      using a [OF that] by (intro seg_cong) (auto simp: res_set_res)
    then show ?thesis using forestD(4) [OF assms(1) that] assms(4) by (auto simp: res_set_res)
  qed
  have ap: "apart ?s (kids r)" if "owned s r" for r
  proof -
    have "apart ?s (kids r) = apart s (kids r)"
      using a [OF that] by (intro apart_cong) (auto simp: res_set_res)
    then show ?thesis using forestD(5) [OF assms(1) that] by simp
  qed
  have ins: "inside ?s r c" if "owned s r" "c \<in> set (kids r)" for r c
  proof -
    have "c \<noteq> a" "r \<noteq> a" using a [OF that(1)] that(2) leaf by auto
    then show ?thesis using forestD(6) [OF assms(1) that] by (simp add: inside_def res_set_res)
  qed
  have par: "r_parent (res ?s c) = r_parent (res s c)" for c using assms(3) by (simp add: res_set_res)
  obtain rank :: "nat \<Rightarrow> nat" where rank: "\<And>r c. owned s r \<Longrightarrow> c \<in> set (kids r) \<Longrightarrow> rank c < rank r"
    using forest_rank [OF assms(1)] by blast
  show ?thesis
  proof (rule forestI [where rank = rank])
    fix c r assume "owned ?s c" "r_parent (res ?s c) = Some r"
    then show "owned ?s r \<and> c \<in> set (kids r)" using forestD(7,8) [OF assms(1), of c r] par by simp
  qed (use forestD(1,2,3) [OF assms(1)] seg ap ins rank in simp_all)
qed

lemma forest_link_in:
  assumes "forest s kids" and "owned s root" and "detached s new" and "new \<noteq> root"
    and "kids root = xs @ ys"
    and "r_start (res s root) \<le> r_start (res s new)" "r_start (res s new) \<le> r_end (res s new)"
      "r_end (res s new) \<le> r_end (res s root)"
    and "\<forall>c\<in>set xs. r_end (res s c) < r_start (res s new)"
    and "\<forall>c\<in>set ys. r_end (res s new) < r_start (res s c)"
  shows "forest (link_in root new (hd_opt ys) (link_at (Child root) xs) s) (kids(root := xs @ new # ys))"
proof -
  let ?p = "link_at (Child root) xs" and ?k = "kids(root := xs @ new # ys)"
  let ?s = "link_in root new (hd_opt ys) ?p s"
  have n: "\<And>r. owned s r \<Longrightarrow> new \<notin> set (kids r)" using assms(1,3) by (rule detached_not_below)
  have leaf: "kids new = []" using forest_leaf [OF assms(1)] assms(3) by (simp add: detached_def)
  have p: "?p \<noteq> Child r" if "r \<noteq> root" for r using that by (simp add: link_at_def)
  have q: "?p \<noteq> Sibling c" if "c \<notin> set xs" for c using that by (auto simp: link_at_def)
  have seg: "seg (res ?s) (r_child (res ?s r)) (?k r) None" if "owned s r" for r
  proof (cases "r = root")
    case True
    then show ?thesis
      using seg_link_in [of s root xs ys new] forestD(4) [OF assms(1,2)] forest_distinct [OF assms(1,2)]
        n [OF assms(2)] assms(5) by (simp add: Let_def)
  next
    case False
    have "?p \<noteq> Sibling c" if c: "c \<in> set (kids r)" for c
      using forest_not_below [OF assms(1,2) _ c \<open>owned s r\<close>] False assms(5) by (intro q) auto
    then have "seg (res ?s) (r_child (res s r)) (kids r) None = seg (res s) (r_child (res s r)) (kids r) None"
      using n [OF that] by (intro seg_cong) auto
    then show ?thesis using False p [OF False] forestD(4) [OF assms(1) that] by simp
  qed
  have ap: "apart ?s (?k r)" if "owned s r" for r
    using forestD(5) [OF assms(1) that] assms(5,7,9,10)
    by (auto simp: apart_def sorted_wrt_append)
  have ins: "inside ?s r c" if "owned s r" "c \<in> set (?k r)" for r c
    using forestD(6) [OF assms(1) that(1), of c] that(2) n [OF that(1)] assms(3,5,6,7,8)
    by (cases "r = root") (auto simp: inside_def detached_def)
  have par: "owned s r \<and> c \<in> set (?k r)" if "owned s c" "r_parent (res ?s c) = Some r" for c r
    using that forestD(7,8) [OF assms(1) that(1), of r] assms(2,5)
    by (cases "c = new") (auto split: if_splits)
  obtain rank :: "nat \<Rightarrow> nat" where rank: "\<And>r c. owned s r \<Longrightarrow> c \<in> set (kids r) \<Longrightarrow> rank c < rank r"
    using forest_rank [OF assms(1)] by blast
  have rk: "(if c = new then 0 else Suc (rank c)) < (if r = new then 0 else Suc (rank r))"
    if "owned s r" "c \<in> set (?k r)" for r c
    using that rank [of root c] rank [of r c] leaf assms(2,4,5) by (auto split: if_splits)
  show ?thesis
    by (rule forestI [where rank = "\<lambda>x. if x = new then 0 else Suc (rank x)"])
      (use forestD(1,2,3) [OF assms(1)] seg ap ins par rk in \<open>simp_all only: link_in_fields(8) simp_thms\<close>)
qed

lemma forest_unlink:
  assumes "forest s kids" and "owned s r" and "kids r = xs @ old # ys"
  shows "forest (unlink_res old (link_at (Child r) xs) s) (kids(r := xs @ ys))"
proof -
  let ?p = "link_at (Child r) xs" and ?k = "kids(r := xs @ ys)"
  let ?s = "unlink_res old ?p s"
  have d: "distinct (xs @ old # ys)" using forest_distinct [OF assms(1,2)] assms(3) by simp
  have below: "old \<in> set (kids r)" using assms(3) by simp
  have p: "?p \<noteq> Child q" if "q \<noteq> r" for q using that by (simp add: link_at_def)
  have q: "?p \<noteq> Sibling c" if "c \<notin> set xs" for c using that by (auto simp: link_at_def)
  have seg: "seg (res ?s) (r_child (res ?s x)) (?k x) None" if "owned s x" for x
  proof (cases "x = r")
    case True
    then show ?thesis
      using seg_unlink [of s r xs old ys] forestD(4) [OF assms(1,2)] d assms(3) by (simp add: Let_def)
  next
    case False
    have "?p \<noteq> Sibling c" if c: "c \<in> set (kids x)" for c
      using forest_not_below [OF assms(1,2) _ c \<open>owned s x\<close>] False assms(3) by (intro q) auto
    then have "seg (res ?s) (r_child (res s x)) (kids x) None = seg (res s) (r_child (res s x)) (kids x) None"
      by (intro seg_cong) auto
    then show ?thesis using False p [OF False] forestD(4) [OF assms(1) that] by simp
  qed
  have ap: "apart ?s (?k x)" if "owned s x" for x
    using forestD(5) [OF assms(1) that] assms(3) by (auto simp: apart_def sorted_wrt_append)
  have ins: "inside ?s x c" if "owned s x" "c \<in> set (?k x)" for x c
  proof -
    have c: "c \<in> set (kids x)" using that(2) assms(3) by (cases "x = r") auto
    have "c \<noteq> old" using forest_not_below [OF assms(1,2) below _ that(1)] that(2) c d by (cases "x = r") auto
    then show ?thesis using forestD(6) [OF assms(1) that(1) c] by (simp add: inside_def)
  qed
  have par: "owned s x \<and> c \<in> set (?k x)" if "owned s c" "r_parent (res ?s c) = Some x" for c x
    using that forestD(7,8) [OF assms(1) that(1), of x] assms(3) by (auto split: if_splits)
  obtain rank :: "nat \<Rightarrow> nat" where rank: "\<And>r c. owned s r \<Longrightarrow> c \<in> set (kids r) \<Longrightarrow> rank c < rank r"
    using forest_rank [OF assms(1)] by blast
  have rk: "rank c < rank x" if "owned s x" "c \<in> set (?k x)" for x c
    using that rank [of x c] assms(3) by (auto split: if_splits)
  show ?thesis
    by (rule forestI [where rank = rank])
      (use forestD(1,2,3) [OF assms(1)] seg ap ins par rk in \<open>simp_all only: unlink_res_fields(8) simp_thms\<close>)
qed

text \<open>Memory for a structure comes from the pool and goes back to it.\<close>

lemma forest_kmalloc:
  assumes "forest s kids" and "kmalloc_res s = Some (a, s')"
    and "r_parent v = None" and "r_child v = None"
  shows "forest (set_res a (\<lambda>_. v) s') (kids(a := []))" and "detached (set_res a (\<lambda>_. v) s') a"
    and "\<not> owned s a" and "owned s r \<Longrightarrow> owned (set_res a (\<lambda>_. v) s') r"
proof -
  obtain pool where p: "kmalloc_pool s = a # pool" "s' = s\<lparr>kmalloc_pool := pool\<rparr>"
    using assms(2) by (auto simp: kmalloc_res_def split: list.splits)
  let ?s = "set_res a (\<lambda>_. v) s'" and ?k = "kids(a := [])"
  have d: "distinct (a # pool)" using forestD(1) [OF assms(1)] p by simp
  have own: "owned ?s r \<longleftrightarrow> r = a \<or> owned s r" for r using p d by auto
  have na: "a \<notin> set (kids r)" if "owned s r" for r
    using forestD(6) [OF assms(1) that, of a] p by (auto simp: inside_def)
  have seg: "seg (res ?s) (r_child (res ?s r)) (?k r) None" if "owned ?s r" for r
  proof (cases "r = a")
    case True
    then show ?thesis using assms(4) by (simp add: res_set_res)
  next
    case False
    then have r: "owned s r" using own that by simp
    have "seg (res ?s) (r_child (res s r)) (kids r) None = seg (res s) (r_child (res s r)) (kids r) None"
      using na [OF r] p by (intro seg_cong) (auto simp: res_set_res)
    then show ?thesis using False forestD(4) [OF assms(1) r] p by (simp add: res_set_res)
  qed
  have ap: "apart ?s (?k r)" if "owned ?s r" for r
  proof (cases "r = a")
    case False
    then have r: "owned s r" using own that by simp
    have "apart ?s (kids r) = apart s (kids r)"
      using na [OF r] p by (intro apart_cong) (auto simp: res_set_res)
    then show ?thesis using False forestD(5) [OF assms(1) r] by simp
  qed (simp add: apart_def)
  have ins: "inside ?s r c" if "owned ?s r" "c \<in> set (?k r)" for r c
  proof -
    have r: "r \<noteq> a" "owned s r" "c \<in> set (kids r)" using that own by (auto split: if_splits)
    then have "c \<noteq> a" using na by auto
    then show ?thesis using forestD(6) [OF assms(1) r(2,3)] r(1) own p by (auto simp: inside_def res_set_res)
  qed
  have par: "owned ?s r \<and> c \<in> set (?k r)" if "owned ?s c" "r_parent (res ?s c) = Some r" for c r
  proof -
    have "c \<noteq> a" using that(2) assms(3) by (auto simp: res_set_res)
    then have c: "owned s c" "r_parent (res s c) = Some r" using that own p by (auto simp: res_set_res)
    then have "owned s r" "c \<in> set (kids r)" using forestD(7,8) [OF assms(1)] by auto
    then show ?thesis using own p by auto
  qed
  obtain rank :: "nat \<Rightarrow> nat" where rank: "\<And>r c. owned s r \<Longrightarrow> c \<in> set (kids r) \<Longrightarrow> rank c < rank r"
    using forest_rank [OF assms(1)] by blast
  have rk: "rank c < rank r" if "owned ?s r" "c \<in> set (?k r)" for r c
    using that rank own by (auto split: if_splits)
  have base: "distinct (kmalloc_pool ?s)" "owned ?s ioport_resource" "owned ?s iomem_resource"
    using d p own forestD(2,3) [OF assms(1)] by simp_all
  show "forest ?s ?k" by (rule forestI [OF base seg ap ins par rk])
  show "detached ?s a" using d p assms(3,4) by (simp add: detached_def res_set_res)
  show "\<not> owned s a" using p by simp
  show "owned s r \<Longrightarrow> owned ?s r" using own by simp
qed

lemma forest_kfree:
  assumes "forest s kids" and "detached s a" and "a \<noteq> ioport_resource" "a \<noteq> iomem_resource"
  shows "forest (kfree_res a s) kids"
proof -
  let ?s = "kfree_res a s"
  have own: "owned ?s r \<longleftrightarrow> r \<noteq> a \<and> owned s r" for r by (auto simp: kfree_res_def)
  have same: "res ?s = res s" by (simp add: kfree_res_def)
  have na: "a \<notin> set (kids r)" if "owned s r" for r using assms(1,2) that by (rule detached_not_below)
  have leaf: "kids a = []" using forest_leaf [OF assms(1)] assms(2) by (simp add: detached_def)
  have d: "distinct (kmalloc_pool ?s)"
    using forestD(1) [OF assms(1)] assms(2) by (simp add: kfree_res_def detached_def)
  have ins: "inside ?s r c" if "owned ?s r" "c \<in> set (kids r)" for r c
    using that own na forestD(6) [OF assms(1), of r c] by (auto simp: inside_def same)
  have ap: "apart ?s (kids r)" if "owned ?s r" for r
    using that own forestD(5) [OF assms(1)] by (simp add: apart_def same)
  have par: "owned ?s r \<and> c \<in> set (kids r)" if "owned ?s c" "r_parent (res ?s c) = Some r" for c r
  proof -
    have c: "owned s c" "r_parent (res s c) = Some r" using that own same by simp_all
    have r: "owned s r" "c \<in> set (kids r)" using forestD(7,8) [OF assms(1) c] .
    then show ?thesis using own leaf by (cases "r = a") simp_all
  qed
  obtain rank :: "nat \<Rightarrow> nat" where rank: "\<And>r c. owned s r \<Longrightarrow> c \<in> set (kids r) \<Longrightarrow> rank c < rank r"
    using forest_rank [OF assms(1)] by blast
  have rk: "rank c < rank r" if "owned ?s r" "c \<in> set (kids r)" for r c using that rank own by simp
  have seg: "seg (res ?s) (r_child (res ?s r)) (kids r) None" if "owned ?s r" for r
    using that own forestD(4) [OF assms(1)] by (simp add: same)
  have roots: "owned ?s ioport_resource" "owned ?s iomem_resource"
    using own forestD(2,3) [OF assms(1)] assms(3,4) by auto
  show ?thesis by (rule forestI [OF d roots seg ap ins par rk])
qed

lemma forest_other_fields:
  assumes "res s' = res s" and "kmalloc_pool s' = kmalloc_pool s"
  shows "forest s' kids = forest s kids" and "detached s' a = detached s a"
  using assms by (simp_all add: forest_def apart_def inside_def detached_def)

section \<open>Requesting a range\<close>

text \<open>
  A range fits below \<open>root\<close> if it is inside it and overlaps with nothing there. \<open>linked\<close> is the state
  in which it has been put in its place in the list, \<open>place\<close> the list.
\<close>

definition fits :: "res_state \<Rightarrow> (nat \<Rightarrow> nat list) \<Rightarrow> nat \<Rightarrow> nat \<Rightarrow> bool" where
  "fits s kids root new \<longleftrightarrow>
     r_start (res s root) \<le> r_start (res s new) \<and> r_start (res s new) \<le> r_end (res s new) \<and>
     r_end (res s new) \<le> r_end (res s root) \<and>
     (\<forall>c\<in>set (kids root). r_end (res s c) < r_start (res s new) \<or> r_end (res s new) < r_start (res s c))"

definition below_new :: "res_state \<Rightarrow> nat \<Rightarrow> nat \<Rightarrow> bool" where
  "below_new s new c \<longleftrightarrow> r_end (res s c) < r_start (res s new)"

definition place :: "res_state \<Rightarrow> nat \<Rightarrow> nat list \<Rightarrow> nat list" where
  "place s new xs = takeWhile (below_new s new) xs @ new # dropWhile (below_new s new) xs"

definition linked :: "res_state \<Rightarrow> (nat \<Rightarrow> nat list) \<Rightarrow> nat \<Rightarrow> nat \<Rightarrow> res_state" where
  "linked s kids root new =
     link_in root new (hd_opt (dropWhile (below_new s new) (kids root)))
       (link_at (Child root) (takeWhile (below_new s new) (kids root))) s"

lemma set_place: "set (place s new xs) = insert new (set xs)"
proof -
  have "set (takeWhile (below_new s new) xs @ dropWhile (below_new s new) xs) = set xs" by simp
  then show ?thesis unfolding set_append place_def by auto
qed

lemma linked_rest [simp]:
  "kmalloc_pool (linked s kids root new) = kmalloc_pool s"
  "resource_lock (linked s kids root new) = resource_lock s"
  "complaints (linked s kids root new) = complaints s"
  "r_name (res (linked s kids root new) x) = r_name (res s x)"
  "r_start (res (linked s kids root new) x) = r_start (res s x)"
  "r_end (res (linked s kids root new) x) = r_end (res s x)"
  "r_flags (res (linked s kids root new) x) = r_flags (res s x)"
  "r_parent (res (linked s kids root new) x) = (if x = new then Some root else r_parent (res s x))"
  by (simp_all add: linked_def)

lemma after_first_apart:
  assumes "apart s xs" and "\<And>c. c \<in> set xs \<Longrightarrow> r_start (res s c) \<le> r_end (res s c)"
    and "x = hd xs" and "c \<in> set xs"
  shows "r_start (res s x) \<le> r_start (res s c)"
proof (cases xs)
  case (Cons y ys)
  then have "c = x \<or> r_end (res s x) < r_start (res s c)" using assms(1,3,4) by (auto simp: apart_def)
  moreover have "r_start (res s x) \<le> r_end (res s x)" using assms(2,3) Cons by simp
  ultimately show ?thesis by (meson order.strict_implies_order order_refl order_trans)
qed (use assms(4) in simp)

lemma fits_split:
  assumes "forest s kids" and "owned s root" and "r_start (res s new) \<le> r_end (res s new)"
  defines "ys \<equiv> dropWhile (below_new s new) (kids root)"
  shows "(\<forall>c\<in>set (kids root). r_end (res s c) < r_start (res s new) \<or> r_end (res s new) < r_start (res s c)) \<longleftrightarrow>
    ys = [] \<or> r_end (res s new) < r_start (res s (hd ys))"
proof -
  let ?xs = "takeWhile (below_new s new) (kids root)"
  have split: "kids root = ?xs @ ys" by (simp add: ys_def)
  have xs: "\<forall>c\<in>set ?xs. r_end (res s c) < r_start (res s new)"
    by (auto dest: set_takeWhileD simp: below_new_def)
  have hd: "ys \<noteq> [] \<Longrightarrow> \<not> r_end (res s (hd ys)) < r_start (res s new)"
    unfolding ys_def using hd_dropWhile [of "below_new s new" "kids root"] by (simp add: below_new_def)
  have in_kids: "set ys \<subseteq> set (kids root)" by (auto simp: ys_def dest: set_dropWhileD)
  have "apart s (?xs @ ys)" using forestD(5) [OF assms(1,2)] split by simp
  then have ap: "apart s ys" unfolding apart_def sorted_wrt_append by blast
  have le: "r_start (res s c) \<le> r_end (res s c)" if "c \<in> set ys" for c
    using forestD(6) [OF assms(1,2), of c] that in_kids by (auto simp: inside_def)
  have after: "\<forall>c\<in>set ys. r_end (res s new) < r_start (res s c)"
    if "r_end (res s new) < r_start (res s (hd ys))"
    using that after_first_apart [OF ap le refl] by (meson less_le_trans)
  have un: "set (kids root) = set ?xs \<union> set ys" by (subst split) (rule set_append)
  show ?thesis
  proof
    assume "\<forall>c\<in>set (kids root). r_end (res s c) < r_start (res s new) \<or> r_end (res s new) < r_start (res s c)"
    then show "ys = [] \<or> r_end (res s new) < r_start (res s (hd ys))"
      using hd in_kids by (cases ys) auto
  next
    assume "ys = [] \<or> r_end (res s new) < r_start (res s (hd ys))"
    then show "\<forall>c\<in>set (kids root). r_end (res s c) < r_start (res s new) \<or> r_end (res s new) < r_start (res s c)"
      unfolding un using xs after by auto
  qed
qed

lemma request_nolock_spec:
  assumes "forest s kids" and "owned s root"
  shows "\<exists>c. request_resource_nolock root new s =
    Some (if fits s kids root new then (None, linked s kids root new) else (Some c, s)) \<and>
    (c = root \<or> c \<in> set (kids root))"
proof (cases "r_end (res s new) < r_start (res s new) \<or> r_start (res s new) < r_start (res s root) \<or>
    r_end (res s root) < r_end (res s new)")
  case True
  then show ?thesis by (intro exI [of _ root]) (auto simp: request_resource_nolock_def fits_def Let_def)
next
  case False
  let ?xs = "takeWhile (below_new s new) (kids root)" and ?ys = "dropWhile (below_new s new) (kids root)"
  let ?fits = "?ys = [] \<or> r_end (res s new) < r_start (res s (hd ?ys))"
  have le: "r_start (res s new) \<le> r_end (res s new)" using False by (simp add: not_less)
  have fits: "fits s kids root new \<longleftrightarrow> ?fits"
    using False fits_split [OF assms le] by (auto simp: fits_def)
  have before: "\<forall>c\<in>set ?xs. r_start (res s c) \<le> r_end (res s new) \<and> r_end (res s c) < r_start (res s new)"
  proof
    fix c assume "c \<in> set ?xs"
    then have "c \<in> set (kids root)" "r_end (res s c) < r_start (res s new)"
      by (auto dest: set_takeWhileD simp: below_new_def)
    then show "r_start (res s c) \<le> r_end (res s new) \<and> r_end (res s c) < r_start (res s new)"
      using forestD(6) [OF assms] le by (force simp: inside_def)
  qed
  have stop: "?ys = [] \<or> \<not> (r_start (res s (hd ?ys)) \<le> r_end (res s new) \<and> r_end (res s (hd ?ys)) < r_start (res s new))"
    using hd_dropWhile [of "below_new s new" "kids root"] by (auto simp: below_new_def)
  have "request_resource_nolock root new s =
      Some (if ?fits then (None, linked s kids root new) else (Some (hd ?ys), s))"
    using False request_loop_spec [OF _ before stop, of "Child root" root new] forestD(4) [OF assms]
    by (auto simp: request_resource_nolock_def linked_def)
  moreover have "?fits \<or> hd ?ys \<in> set (kids root)"
    using set_dropWhileD [of "hd ?ys" "below_new s new" "kids root"] hd_in_set [of ?ys] by blast
  ultimately show ?thesis unfolding fits by (intro exI [of _ "if ?fits then root else hd ?ys"]) auto
qed

lemma forest_linked:
  assumes "forest s kids" and "owned s root" and "detached s new" and "new \<noteq> root"
    and "fits s kids root new"
  shows "forest (linked s kids root new) (kids(root := place s new (kids root)))"
proof -
  let ?xs = "takeWhile (below_new s new) (kids root)" and ?ys = "dropWhile (below_new s new) (kids root)"
  have xs: "\<forall>c\<in>set ?xs. r_end (res s c) < r_start (res s new)"
    by (auto dest: set_takeWhileD simp: below_new_def)
  have ys: "\<forall>c\<in>set ?ys. r_end (res s new) < r_start (res s c)"
  proof (cases ?ys)
    case (Cons y zs)
    then have y: "\<not> r_end (res s y) < r_start (res s new)"
      using hd_dropWhile [of "below_new s new" "kids root"] by (simp add: below_new_def)
    have k: "kids root = ?xs @ y # zs" unfolding Cons [symmetric] by simp
    then have mem: "y \<in> set (kids root)" by (metis in_set_conv_decomp)
    then have "r_end (res s new) < r_start (res s y)" using assms(5) y by (auto simp: fits_def)
    moreover have "apart s (?xs @ y # zs)" using forestD(5) [OF assms(1,2)] k by simp
    then have "apart s (y # zs)" unfolding apart_def sorted_wrt_append by blast
    moreover have "r_start (res s y) \<le> r_end (res s y)"
      using forestD(6) [OF assms(1,2) mem] by (simp add: inside_def)
    ultimately show ?thesis unfolding Cons by (auto simp: apart_def)
  next
    case Nil
    then show ?thesis by (simp only: list.set empty_iff ball_simps)
  qed
  show ?thesis
    unfolding linked_def place_def
    using assms(5) by (intro forest_link_in assms(1-4) xs ys) (simp_all add: fits_def)
qed

lemma lock_twice: "\<not> resource_lock s \<Longrightarrow> s\<lparr>resource_lock := True, resource_lock := False\<rparr> = s"
  "\<not> resource_lock s \<Longrightarrow> s\<lparr>resource_lock := False\<rparr> = s"
  by (cases s; simp)+

lemma set_res_lock: "set_res r f (s\<lparr>resource_lock := b\<rparr>) = (set_res r f s)\<lparr>resource_lock := b\<rparr>"
  by (cases s) (simp add: set_res_def)

lemma store_lock: "store p v (s\<lparr>resource_lock := b\<rparr>) = (store p v s)\<lparr>resource_lock := b\<rparr>"
  by (cases p) (simp_all add: set_res_lock)

lemma linked_lock: "linked (s\<lparr>resource_lock := b\<rparr>) kids root new = (linked s kids root new)\<lparr>resource_lock := b\<rparr>"
proof -
  have "below_new (s\<lparr>resource_lock := b\<rparr>) new = below_new s new" by (simp add: fun_eq_iff below_new_def)
  then show ?thesis by (simp add: linked_def link_in_def set_res_lock store_lock)
qed

lemma request_nolock_unlock:
  assumes "forest s kids" and "owned s root"
  shows "\<exists>c. request_resource_nolock root new (s\<lparr>resource_lock := b\<rparr>) =
    Some (if fits s kids root new then (None, (linked s kids root new)\<lparr>resource_lock := b\<rparr>)
          else (Some c, s\<lparr>resource_lock := b\<rparr>)) \<and> (c = root \<or> c \<in> set (kids root))"
proof -
  have "forest (s\<lparr>resource_lock := b\<rparr>) kids" using assms(1) forest_other_fields(1) [of "s\<lparr>resource_lock := b\<rparr>" s] by simp
  moreover have "fits (s\<lparr>resource_lock := b\<rparr>) kids root new = fits s kids root new" by (simp add: fits_def)
  ultimately show ?thesis
    using request_nolock_spec [of "s\<lparr>resource_lock := b\<rparr>" kids root new] assms(2)
    unfolding linked_lock by (simp cong: if_cong)
qed

lemma request_resource_spec:
  assumes "forest s kids" and "owned s root" and "\<not> resource_lock s"
  shows "request_resource root new s =
    Some (if fits s kids root new then (Inr (), linked s kids root new) else (Inl EBUSY, s))"
  using request_nolock_unlock [OF assms(1,2), of new True] assms(3)
  by (auto simp: request_resource_def write_lock_def write_unlock_def lock_twice)

lemma release_resource_spec:
  assumes "forest s kids" and "owned s old" and "r_parent (res s old) = Some r"
  shows "\<exists>s'. release_resource old s = Some (Inr (), s') \<and> forest s' (kids(r := remove1 old (kids r))) \<and>
    r_parent (res s' old) = None \<and> kmalloc_pool s' = kmalloc_pool s \<and> resource_lock s' = resource_lock s \<and>
    r_child (res s' old) = r_child (res s old)"
proof -
  have r: "owned s r" "old \<in> set (kids r)" using forestD(7,8) [OF assms] by simp_all
  then obtain xs ys where k: "kids r = xs @ old # ys" "old \<notin> set xs"
    using split_list_first by metis
  let ?s = "unlink_res old (link_at (Child r) xs) s"
  have "release_resource old s = Some (Inr (), ?s)"
    using release_res_loop_spec [of s "Child r" xs old ys] forestD(4) [OF assms(1) r(1)] k assms(3)
    by (simp add: release_resource_def)
  moreover have "remove1 old (kids r) = xs @ ys" using k by (simp add: remove1_append)
  moreover have "forest ?s (kids(r := xs @ ys))" using forest_unlink [OF assms(1) r(1) k(1)] .
  moreover have "r \<noteq> old" using forest_rank [OF assms(1)] r less_irrefl by metis
  then have "link_at (Child r) xs \<noteq> Child old" by (simp add: link_at_def)
  ultimately show ?thesis by auto
qed


end
