(* ===== verification/Resource_Runs.thy ===== *)
theory Resource_Runs
  imports Resource
begin

text \<open>
  The calls of \<open>kernel/resource.c\<close> on consistent trees: regions, which descend into the tree,
  the search for a free range, and histories of calls by several drivers.
\<close>

section \<open>Regions\<close>

lemma region_loop_spec:
  assumes "forest s kids" and "owned s par" and "detached s new" and "new \<noteq> par"
  shows "region_loop par new (s\<lparr>resource_lock := b\<rparr>) = Some (False, s\<lparr>resource_lock := b\<rparr>) \<or>
    (\<exists>r. owned s r \<and> r \<noteq> new \<and> fits s kids r new \<and>
      region_loop par new (s\<lparr>resource_lock := b\<rparr>) = Some (True, (linked s kids r new)\<lparr>resource_lock := b\<rparr>))"
proof -
  obtain rank :: "nat \<Rightarrow> nat" where rank: "\<And>r c. owned s r \<Longrightarrow> c \<in> set (kids r) \<Longrightarrow> rank c < rank r"
    using forest_rank [OF assms(1)] by blast
  show ?thesis using assms(2,4)
  proof (induction "rank par" arbitrary: par rule: less_induct)
    case less
    obtain c where c: "request_resource_nolock par new (s\<lparr>resource_lock := b\<rparr>) =
        Some (if fits s kids par new then (None, (linked s kids par new)\<lparr>resource_lock := b\<rparr>)
              else (Some c, s\<lparr>resource_lock := b\<rparr>))" "c = par \<or> c \<in> set (kids par)"
      using request_nolock_unlock [OF assms(1) less.prems(1)] by blast
    show ?case
    proof (cases "fits s kids par new")
      case True
      then show ?thesis using c(1) less.prems by (subst (2) region_loop.simps) auto
    next
      case no: False
      show ?thesis
      proof (cases "c \<noteq> par \<and> r_flags (res s c) AND IORESOURCE_BUSY = 0")
        case True
        then have mem: "c \<in> set (kids par)" using c(2) by simp
        then have "rank c < rank par" "owned s c"
          using rank less.prems(1) forestD(6) [OF assms(1) less.prems(1)] by (auto simp: inside_def)
        moreover have "new \<noteq> c" using detached_not_below [OF assms(1,3) less.prems(1)] mem by auto
        moreover have "region_loop par new (s\<lparr>resource_lock := b\<rparr>) = region_loop c new (s\<lparr>resource_lock := b\<rparr>)"
          using c(1) no True by (subst region_loop.simps) simp
        ultimately show ?thesis using less.hyps by simp
      next
        case False
        then show ?thesis using c(1) no by (subst region_loop.simps) auto
      qed
    qed
  qed
qed

text \<open>What a region is before it is linked.\<close>

definition region_res :: "ulong \<Rightarrow> ulong \<Rightarrow> string \<Rightarrow> resource" where
  "region_res start n name = cleared\<lparr>r_name := Some name, r_start := start, r_end := start + n - 1,
     r_flags := IORESOURCE_BUSY\<rparr>"

lemma region_res_fields [simp]:
  "r_name (region_res start n name) = Some name" "r_start (region_res start n name) = start"
  "r_end (region_res start n name) = start + n - 1" "r_flags (region_res start n name) = IORESOURCE_BUSY"
  "r_parent (region_res start n name) = None" "r_child (region_res start n name) = None"
  "r_sibling (region_res start n name) = None"
  by (simp_all add: region_res_def cleared_def)

text \<open>The state after the structure has been allocated and filled in.\<close>

definition region_new :: "ulong \<Rightarrow> ulong \<Rightarrow> string \<Rightarrow> res_state \<Rightarrow> res_state" where
  "region_new start n name s =
     set_res (hd (kmalloc_pool s)) (\<lambda>_. region_res start n name) (s\<lparr>kmalloc_pool := tl (kmalloc_pool s)\<rparr>)"

lemma region_new_forest:
  assumes "forest s kids" and "kmalloc_pool s = a # pool"
  shows "forest (region_new start n name s) (kids(a := []))" and "detached (region_new start n name s) a"
    and "\<not> owned s a" and "owned s r \<Longrightarrow> owned (region_new start n name s) r"
    and "resource_lock (region_new start n name s) = resource_lock s"
    and "res (region_new start n name s) = (res s)(a := region_res start n name)"
    and "kmalloc_pool (region_new start n name s) = pool"
  using forest_kmalloc [OF assms(1), of a "s\<lparr>kmalloc_pool := pool\<rparr>" "region_res start n name"] assms(2)
  by (simp_all add: kmalloc_res_def region_new_def set_res_def)

lemma request_region_spec:
  fixes start n :: ulong and name :: string
  assumes "forest s kids" and "owned s par" and "\<not> resource_lock s" and "kmalloc_pool s = a # pool"
  defines "s1 \<equiv> region_new start n name s" and "k1 \<equiv> kids(a := [])"
  shows "request_region_at par start n name s =
      Some (None, kfree_res a (s1\<lparr>resource_lock := True\<rparr>)) \<or>
    (\<exists>r. owned s1 r \<and> r \<noteq> a \<and> fits s1 k1 r a \<and>
      request_region_at par start n name s = Some (Some a, linked s1 k1 r a))"
proof -
  have new: "forest s1 k1" "detached s1 a" "\<not> owned s a" "resource_lock s1 = resource_lock s"
    unfolding s1_def k1_def by (rule region_new_forest [OF assms(1,4)])+
  have "owned s1 par" unfolding s1_def by (rule region_new_forest(4) [OF assms(1,4,2)])
  with new(3) have par: "owned s1 par" "a \<noteq> par" using assms(2) by auto
  have lock: "\<not> resource_lock s1" using new(4) assms(3) by simp
  have start: "request_region_at par start n name s = do {
      (ok, s) \<leftarrow> region_loop par a (s1\<lparr>resource_lock := True\<rparr>);
      Some (if ok then (Some a, write_unlock s) else (None, kfree_res a s)) }"
    using assms(4) lock
    by (simp add: request_region_at_def kmalloc_res_def region_new_def region_res_def write_lock_def s1_def)
  have "(linked s1 k1 r a)\<lparr>resource_lock := False\<rparr> = linked s1 k1 r a" for r
    using lock by (intro lock_twice(2)) simp
  then show ?thesis
    using region_loop_spec [OF new(1) par(1) new(2) par(2), of True] start
    by (auto simp: write_unlock_def)
qed


lemma locked_hangs:
  assumes "resource_lock s"
  shows "request_resource root new s = None" and "allocate_resource root new len mn mx align dev s = None"
    and "kmalloc_pool s \<noteq> [] \<Longrightarrow> request_region_at root start n name s = None"
    and "kmalloc_pool s \<noteq> [] \<Longrightarrow> check_region_at root start n s = None"
    and "get_resource_list snprintf root sz s = None"
  using assms
  by (auto simp: request_resource_def allocate_resource_def request_region_at_def check_region_at_def
      get_resource_list_def write_lock_def kmalloc_res_def split: list.splits)

section \<open>Finding a free range\<close>

definition with_range :: "nat \<Rightarrow> ulong \<Rightarrow> ulong \<Rightarrow> res_state \<Rightarrow> res_state" where
  "with_range new start len s = set_res new (\<lambda>x. x\<lparr>r_start := start, r_end := start + len - 1\<rparr>) s"









lemma with_range_rest [simp]:
  "kmalloc_pool (with_range new a len s) = kmalloc_pool s"
  "resource_lock (with_range new a len s) = resource_lock s"
  "complaints (with_range new a len s) = complaints s"
  "r_start (res (with_range new a len s) x) = (if x = new then a else r_start (res s x))"
  "r_end (res (with_range new a len s) x) = (if x = new then a + len - 1 else r_end (res s x))"
  "r_parent (res (with_range new a len s) x) = r_parent (res s x)"
  "r_child (res (with_range new a len s) x) = r_child (res s x)"
  by (simp_all add: with_range_def res_set_res)







section \<open>Histories of calls\<close>

text \<open>
  What drivers do with the trees. \<open>Prepare\<close> is the driver filling in a structure of its own before it
  hands it over. A driver requests only structures that it has not handed over yet, releases only
  those that it has, and never asks to release a region whose range is that of a structure of its
  own, since \<open>__release_region\<close> frees the memory.
\<close>

datatype res_call =
    Prepare nat "string option" ulong ulong ulong
  | Request nat nat
  | Release nat
  | Allocate nat nat ulong ulong ulong ulong
  | Request_region nat ulong ulong string
  | Check_region nat ulong ulong
  | Release_region nat ulong ulong

fun run_res :: "res_call \<Rightarrow> res_state \<Rightarrow> res_state option" where
  "run_res (Prepare a name start fin flags) s =
     Some (set_res a (\<lambda>x. x\<lparr>r_name := name, r_start := start, r_end := fin, r_flags := flags\<rparr>) s)"
| "run_res (Request root new) s = map_option snd (request_resource root new s)"
| "run_res (Release old) s = map_option snd (release_resource old s)"
| "run_res (Allocate root new len mn mx align) s =
     map_option snd (allocate_resource root new len mn mx align () s)"
| "run_res (Request_region par start n name) s = map_option snd (request_region_at par start n name s)"
| "run_res (Check_region par start n) s = map_option snd (check_region_at par start n s)"
| "run_res (Release_region par start n) s = release_region_at par start n s"


definition res_booted :: "res_state \<Rightarrow> bool" where
  "res_booted s \<longleftrightarrow> (\<forall>a. owned s a \<longrightarrow> res s a = initial_res a) \<and> distinct (kmalloc_pool s) \<and>
     owned s ioport_resource \<and> owned s iomem_resource \<and> \<not> resource_lock s"


lemma initial_res_alone [simp]: "r_child (initial_res a) = None" "r_parent (initial_res a) = None"
  by (simp_all add: initial_res_def cleared_def)

lemma booted_forest: "res_booted s \<Longrightarrow> forest s (\<lambda>_. [])"
  by (rule forestI [where rank = "\<lambda>_. 0"]) (auto simp: res_booted_def apart_def)






section \<open>Properties\<close>



lemma remove1_place: "new \<notin> set xs \<Longrightarrow> remove1 new (place s new xs) = xs"
  by (auto simp: place_def remove1_append dest: set_takeWhileD)

lemma allocate_resource_no_children:
  assumes "forest s kids" and "owned s root" and "\<not> resource_lock s" and "kids root = []"
  shows "allocate_resource root new len mn mx align dev s = Some (Inl EBUSY, s)"
proof -
  have "r_child (res s root) = None" using forestD(4) [OF assms(1,2)] assms(4) by simp
  then have "find_resource root new len mn mx align dev (s\<lparr>resource_lock := True\<rparr>) = Some (Inl EBUSY, s\<lparr>resource_lock := True\<rparr>)"
    unfolding find_resource_def by (subst find_loop.simps) simp
  then show ?thesis
    using assms(3) by (simp add: allocate_resource_def write_lock_def write_unlock_def lock_twice)
qed

text \<open>
  An example: the keyboard controller's ports are a busy region, and a driver has structures of its
  own at the addresses 20 and 21 for other ports.
\<close>

definition boot_res :: res_state where
  "boot_res = \<lparr>res = initial_res, kmalloc_pool = [10, 11, 12], resource_lock = False, complaints = []\<rparr>"

definition keyboard_res :: res_state where
  "keyboard_res = the (run_res (Request_region ioport_resource 0x60 16 ''keyboard'') boot_res)"

definition timer_res :: res_state where
  "timer_res = the (run_res (Prepare 20 (Some ''timer'') 0x40 0x5F 0) keyboard_res)"

definition one_region :: "nat \<Rightarrow> nat list" where
  "one_region = (\<lambda>_. [])(ioport_resource := [10])"

lemma boot_res_booted: "res_booted boot_res"
  by (simp add: res_booted_def boot_res_def ioport_resource_def iomem_resource_def)

lemma boot_res_forest: "forest boot_res (\<lambda>_. [])"
  using boot_res_booted by (rule booted_forest)

lemma keyboard_res_eq:
  "request_region_at ioport_resource 0x60 16 ''keyboard'' boot_res = Some (Some 10, keyboard_res)"
proof -
  have "map_option fst (request_region_at ioport_resource 0x60 16 ''keyboard'' boot_res) = Some (Some 10)"
    by code_simp
  then show ?thesis
    by (cases "request_region_at ioport_resource 0x60 16 ''keyboard'' boot_res") (auto simp: keyboard_res_def)
qed

lemma boot_res_ioport: "owned boot_res ioport_resource" by (simp add: boot_res_def ioport_resource_def)

lemma keyboard_res_forest: "forest keyboard_res one_region"
proof -
  let ?s = "region_new 0x60 16 ''keyboard'' boot_res" and ?k = "(\<lambda>_. [])(10 := []) :: nat \<Rightarrow> nat list"
  have pool: "kmalloc_pool boot_res = 10 # [11, 12]" and lock: "\<not> resource_lock boot_res"
    by (simp_all add: boot_res_def)
  have par: "r_parent (res keyboard_res 10) = Some ioport_resource" by code_simp
  obtain q where q: "owned ?s q" "q \<noteq> 10" "fits ?s ?k q 10" "keyboard_res = linked ?s ?k q 10"
    using request_region_spec [OF boot_res_forest boot_res_ioport lock pool, of "0x60" 16 "''keyboard''"]
      keyboard_res_eq by auto
  have "q = ioport_resource" using par unfolding q(4) linked_rest by simp
  moreover have "forest (linked ?s ?k q 10) (?k(q := place ?s 10 (?k q)))"
    using region_new_forest(1,2) [OF boot_res_forest pool] q(1,2,3) by (intro forest_linked) auto
  moreover have "?k(ioport_resource := place ?s 10 (?k ioport_resource)) = one_region"
    by (simp add: one_region_def place_def fun_eq_iff)
  ultimately show ?thesis unfolding q(4) by (simp only:)
qed

lemma timer_res_forest: "forest timer_res one_region" and timer_res_detached: "detached timer_res 20"
  and timer_res_facts: "owned timer_res ioport_resource" "\<not> resource_lock timer_res"
proof -
  have "detached keyboard_res 20" by code_simp
  then show "forest timer_res one_region"
    unfolding timer_res_def run_res.simps option.sel
    by (intro forest_set_detached keyboard_res_forest) simp_all
  show "detached timer_res 20" "owned timer_res ioport_resource" "\<not> resource_lock timer_res" by code_simp+
qed



text \<open>
  C18: \<open>request_resource\<close> is exact. On a consistent tree it always returns. It succeeds if and only if
  the new range is not empty, lies inside \<open>root\<close> and overlaps with no resource below it; then the new
  resource is in its place in the list and no range has changed. Otherwise it answers \<open>-EBUSY\<close> and
  has changed nothing.
\<close>

theorem request_resource_correct:
  assumes "forest s kids" and "\<not> resource_lock s" and "owned s root" and "detached s new" and "new \<noteq> root"
  shows "(fits s kids root new \<longrightarrow>
      (\<exists>s'. request_resource root new s = Some (Inr (), s') \<and> \<not> resource_lock s' \<and>
        forest s' (kids(root := place s new (kids root))) \<and>
        (\<forall>r. r_start (res s' r) = r_start (res s r) \<and> r_end (res s' r) = r_end (res s r) \<and>
          r_flags (res s' r) = r_flags (res s r)))) \<and>
    (\<not> fits s kids root new \<longrightarrow> request_resource root new s = Some (Inl EBUSY, s))"
  using request_resource_spec [OF assms(1,3,2), of new] forest_linked [OF assms(1,3-5)] assms(2) by simp

theorem request_resource_correct_witness:
  "fits timer_res one_region ioport_resource 20 \<and>
    (\<exists>s'. request_resource ioport_resource 20 timer_res = Some (Inr (), s') \<and>
      forest s' (one_region(ioport_resource := [20, 10])))"
proof -
  have "fits timer_res one_region ioport_resource 20"
    "place timer_res 20 (one_region ioport_resource) = [20, 10]" by code_simp+
  moreover have "(20 :: nat) \<noteq> ioport_resource" by code_simp
  ultimately show ?thesis
    using request_resource_correct [OF timer_res_forest timer_res_facts(2,1) timer_res_detached] by auto
qed

text \<open>
  Releasing undoes requesting: after a successful \<open>request_resource\<close>, \<open>release_resource\<close> succeeds
  and the lists below every resource are the ones from before.
\<close>

theorem request_release_roundtrip:
  assumes "forest s kids" and "\<not> resource_lock s" and "owned s root" and "detached s new" and "new \<noteq> root"
    and "request_resource root new s = Some (Inr (), s')"
  shows "\<exists>s''. release_resource new s' = Some (Inr (), s'') \<and> forest s'' kids \<and> r_parent (res s'' new) = None"
proof -
  have fits: "fits s kids root new" and s': "s' = linked s kids root new"
    using request_resource_spec [OF assms(1,3,2), of new] assms(6) by (auto split: if_splits)
  let ?k = "kids(root := place s new (kids root))"
  have f: "forest s' ?k" unfolding s' using assms(1,3,4,5) fits by (rule forest_linked)
  have new: "owned s' new" "r_parent (res s' new) = Some root" using assms(4) by (simp_all add: s' detached_def)
  have "new \<notin> set (kids root)" using assms(1,4,3) by (rule detached_not_below)
  then have "?k(root := remove1 new (?k root)) = kids" by (simp add: remove1_place)
  then show ?thesis using release_resource_spec [OF f new] by auto
qed

theorem request_release_roundtrip_witness:
  "\<exists>s' s''. request_resource ioport_resource 20 timer_res = Some (Inr (), s') \<and>
    release_resource 20 s' = Some (Inr (), s'') \<and> forest s'' one_region"
proof -
  have "fits timer_res one_region ioport_resource 20" and n: "(20 :: nat) \<noteq> ioport_resource" by code_simp+
  then obtain s' where s': "request_resource ioport_resource 20 timer_res = Some (Inr (), s')"
    using request_resource_spec [OF timer_res_forest timer_res_facts, of 20] by simp
  then show ?thesis
    using request_release_roundtrip [OF timer_res_forest timer_res_facts(2,1) timer_res_detached n s'] by blast
qed



text \<open>
  A refused region blocks all further requests. Whenever \<open>__request_region\<close> returns \<open>NULL\<close> for
  another reason than lack of memory, it keeps the resource lock, and from then on no call that
  needs the lock returns.
\<close>

theorem refused_region_blocks:
  assumes "forest s kids" and "owned s par" and "kmalloc_pool s \<noteq> []"
    and "request_region_at par start n name s = Some (None, s')"
  shows "resource_lock s' \<and> (\<forall>root new. request_resource root new s' = None) \<and>
    (\<forall>root new len mn mx align. allocate_resource root new len mn mx align () s' = None) \<and>
    (\<forall>root start n name. request_region_at root start n name s' = None) \<and>
    (\<forall>root start n. check_region_at root start n s' = None)"
proof -
  obtain a pool where pool: "kmalloc_pool s = a # pool" using assms(3) by (cases "kmalloc_pool s") auto
  have lock: "\<not> resource_lock s" using assms(3,4) locked_hangs(3) by fastforce
  have "s' = kfree_res a ((region_new start n name s)\<lparr>resource_lock := True\<rparr>)"
    using request_region_spec [OF assms(1,2) lock pool, of start n name] assms(4) by auto
  then have "resource_lock s'" "kmalloc_pool s' \<noteq> []" by (simp_all add: kfree_res_def)
  then show ?thesis by (simp add: locked_hangs)
qed

theorem refused_region_blocks_witness:
  "\<exists>s'. request_region_at ioport_resource 0x64 1 ''mouse'' keyboard_res = Some (None, s') \<and>
    request_region_at ioport_resource 0x3F8 8 ''serial'' s' = None"
proof -
  have "map_option fst (request_region_at ioport_resource 0x64 1 ''mouse'' keyboard_res) = Some None"
    by code_simp
  then obtain s' where s': "request_region_at ioport_resource 0x64 1 ''mouse'' keyboard_res = Some (None, s')"
    by (cases "request_region_at ioport_resource 0x64 1 ''mouse'' keyboard_res") auto
  have "owned keyboard_res ioport_resource" "kmalloc_pool keyboard_res \<noteq> []" by code_simp+
  then show ?thesis using refused_region_blocks [OF keyboard_res_forest _ _ s'] s' by blast
qed



section \<open>Two more defects, as runs\<close>

text \<open>
  \<open>reserve_setup\<close> counts from zero each time it is called, but its array is static: a second
  \<open>reserve=\<close> on the command line overwrites the structure that the first one has linked, and the
  first reservation is lost.
\<close>

lemma reserve_twice_loses_first:
  "(case reserve_setup ''0x300,32'' boot_res of
      None \<Rightarrow> False
    | Some s \<Rightarrow> r_start (res s (reserve 0)) = 0x300 \<and> r_parent (res s (reserve 0)) = Some ioport_resource \<and>
        (case reserve_setup ''0x100,16'' s of
           None \<Rightarrow> False
         | Some s' \<Rightarrow> r_start (res s' (reserve 0)) = 0x100 \<and> r_end (res s' (reserve 0)) = 0x10F \<and>
             r_child (res s' ioport_resource) = Some (reserve 0) \<and> r_sibling (res s' (reserve 0)) = None))"
  by code_simp

text \<open>
  When rounding up wraps around, \<open>allocate_resource\<close> hands out a range below the bound \<open>min\<close>.
\<close>

lemma allocate_below_min:
  "(case Option.bind
       (run_res (Prepare 20 None 0x1000 0xFFFFF000 0) boot_res)
       (\<lambda>s. Option.bind (run_res (Request iomem_resource 20) s)
       (\<lambda>s. Option.bind (run_res (Prepare 21 None 0xFFFFFF00 0xFFFFFFFF 0) s)
       (\<lambda>s. Option.bind (run_res (Request iomem_resource 21) s)
       (allocate_resource iomem_resource 22 0x100 0x80000000 0xFFFFFFFF 0x10000 ())))) of
      Some (Inr _, s) \<Rightarrow> r_start (res s 22) = 0
    | _ \<Rightarrow> False)"
  by code_simp


end
