(* ===== verification/Spec2Isabelle.thy ===== *)
theory Spec2Isabelle
  imports Mmap_Map Page_Boot Ipc_Sem_Runs Ipc_Msg_Runs Resource_Runs
begin

text \<open>
  A verification development for parts of the Linux kernel, version 2.3.29, on the i386:
  \<open>unsigned long\<close> and pointers are 32-bit words and overflow wraps around.

  \<^bold>\<open>The program and its parts.\<close> A process has an address space: an ordered list of memory
  areas with an AVL tree beside it as an index. The page allocator hands out physical page frames
  from the free lists of a buddy system per zone; before it runs, the boot memory allocator hands
  out frames from a bitmap and turns the rest over to the page allocator. \<open>vsprintf\<close> formats the
  text that the kernel prints, in particular the files below \<open>/proc\<close>. The System V IPC code keeps a
  table of identifiers for semaphore sets and one for message queues, and lets processes sleep until
  an operation on a set can be carried out, a message arrives or a queue has space. Drivers reserve
  ranges of I/O ports and memory in trees of resources.

  \<^bold>\<open>Conventions.\<close> \<open>Kernel_Prelude\<close> has the words, the error numbers and the type
  \<open>outcome\<close>: \<open>Done x\<close> is a call that returns \<open>x\<close>, \<open>Bug\<close> one that stops in a \<open>BUG()\<close> check,
  dereferences NULL, reads outside an array or takes a lock that it already holds. Errors are values
  of a sum, \<open>Inl e\<close> for \<open>-e\<close>. A function of the source is one definition of the same name, its
  loops are recursive functions of their own, and its state is a record that it takes and returns.
  Pointers are natural numbers or words that index stores; a linked list is the list of its
  elements. Calls into code that is not modelled are either recorded as events (page table and cache
  operations, callbacks without a result) or arguments (the \<open>mmap\<close> operation of a driver,
  \<open>try_to_free_pages\<close>, whether memory for a structure is available).

  \<^bold>\<open>Memory areas\<close> (\<open>mm/mmap_avl.c\<close>, \<open>mm/mmap.c\<close>, \<open>include/linux/mm.h\<close>).
  \<open>Mmap_Avl\<close> translates the AVL tree with its explicit stack of links as a list of frames and shows
  that insertion and removal keep the order, the heights and the balance, find the neighbours, and
  never overrun the stack of 41 links. The locale \<open>area_index\<close> states what the code above relies on,
  and its interpretation shows that the tree provides it. \<open>Mmap_Areas\<close> has the state of an
  address space, \<open>find_vma\<close>
  with its cache, \<open>get_unmapped_area\<close>, and the invariant \<open>vm_wf\<close> that list, tree, cache and
  counter agree. \<open>Mmap_Modify\<close> translates insertion, \<open>merge_segments\<close>, \<open>unmap_fixup\<close>,
  \<open>do_munmap\<close>, \<open>do_mmap\<close>, \<open>do_brk\<close>, \<open>sys_brk\<close> and \<open>exit_mmap\<close>. \<open>Mmap_Unmap\<close> and
  \<open>Mmap_Map\<close> show that each of them keeps \<open>vm_wf\<close> and changes what is mapped in exactly the range it
  should, on every branch, and that page tables are only cleared where nothing is mapped; one lemma
  shows that \<open>unmap_fixup\<close> gives the two halves of a split area each other's file offset.

  \<^bold>\<open>Page allocator\<close> (\<open>mm/page_alloc.c\<close>, \<open>include/linux/mm.h\<close>). \<open>Buddy_Blocks\<close> is the abstract
  buddy system on sets of blocks. \<open>Page_Alloc\<close> translates free lists, bitmaps and \<open>mem_map\<close>,
  \<open>__free_pages_ok\<close>, \<open>expand\<close>, \<open>rmqueue\<close>. \<open>Page_Buddy\<close> shows that they implement the
  abstract system for one zone; \<open>Page_Zones\<close> lifts this to the whole memory and to histories of
  allocations and releases, through the locale \<open>frame_pool\<close>, which is interpreted on the model.
  \<open>Page_Requests\<close> has the zone lists, balancing and \<open>__alloc_pages\<close>.

  \<^bold>\<open>Boot\<close> (\<open>mm/bootmem.c\<close>, \<open>free_area_init\<close>). \<open>Bootmem\<close> translates the bitmap allocator and shows
  that it never hands out a frame twice. \<open>Page_Boot\<close> shows that \<open>free_area_init\<close> and
  \<open>free_all_bootmem\<close> together establish the invariant of the page allocator with exactly the frames
  that were free at boot.

  \<^bold>\<open>Formatted output\<close> (\<open>lib/vsprintf.c\<close>, \<open>lib/ctype.c\<close>, \<open>asm-i386/div64.h\<close>). \<open>Format\<close>
  shows that \<open>number\<close> produces the layout that the flags describe, that its output is read back by
  \<open>simple_strtoul\<close> and that the 64-bit division is exact.

  \<^bold>\<open>System V IPC\<close> (\<open>ipc/util.c\<close>, \<open>ipc/util.h\<close>, \<open>ipc/sem.c\<close>, \<open>ipc/msg.c\<close>). \<open>Ipc_Ids\<close>
  has the table of identifiers with its spinlock as a flag and the permission check. \<open>Ipc_Table\<close> has the
  contract of a component with such a table, as the locale \<open>ipc_table\<close>, which is interpreted on
  \<open>sem_lock\<close> and on \<open>msg_lock\<close>. \<open>Ipc_Semop\<close> has
  \<open>try_atomic_semop\<close>, which carries out all operations or none. \<open>Ipc_Sem\<close> and
  \<open>Ipc_Sem_Calls\<close> translate the rest of \<open>sem.c\<close>; \<open>sys_semop\<close> is cut at \<open>schedule()\<close> into the part
  before and the part after the wake-up. \<open>Ipc_Sem\<close> also has the invariant \<open>sem_inv\<close> of sets, queues
  and undo structures, \<open>Ipc_Sem_Inv\<close> and \<open>Ipc_Sem_Ops\<close> show that every call keeps it, and
  \<open>Ipc_Sem_Runs\<close> composes
  the calls to histories of several processes: the invariant along every history, completion of every
  call outside the two defects, a liveness property of \<open>update_queue\<close>, and the defects themselves as
  concrete histories. For message queues, \<open>Ipc_Text\<close> has the copying of message texts into segments
  and back, and \<open>Ipc_Msg\<close> translates the rest of \<open>msg.c\<close>, with \<open>sys_msgsnd\<close> and \<open>sys_msgrcv\<close> cut at
  \<open>schedule()\<close>. \<open>Ipc_Msg_Inv\<close> has the invariant \<open>msg_inv\<close> of queues, messages and sleepers;
  \<open>Ipc_Msg_Ops\<close> (sending and receiving) and \<open>Ipc_Msg_Calls\<close> (the other calls) show that every call
  keeps it. \<open>Ipc_Msg_Runs\<close> has the histories: the invariant, completion of every call, that no process
  sleeps which could go on, which message \<open>msgrcv\<close> takes, where \<open>msgsnd\<close> puts one, and two defects. The
  histories assume that the messages of a queue fit into the \<open>2 ^ 30\<close> bytes of kernel memory.

  \<^bold>\<open>Resources\<close> (\<open>kernel/resource.c\<close>, \<open>get_option\<close> and \<open>get_options\<close> of \<open>init/main.c\<close>). \<open>Resource\<close>
  translates the tree of resources with its parent, sibling and child pointers and the lock as a flag,
  and has the invariant \<open>forest\<close>. \<open>Resource_Runs\<close> shows that requests, allocations and releases keep it
  along every history, that \<open>request_resource\<close> refuses exactly the ranges that overlap, that
  \<open>allocate_resource\<close> finds a range exactly when there is one before the last resource, and two defects
  of the regions.

  \<^bold>\<open>Bounds and fuel.\<close> No definition uses fuel. Loops are structural or have a termination proof by a
  measure. Where termination depends on the data, in the digit loop of \<open>Format\<close> and in the loops of
  \<open>Resource\<close> over pointers, they are partial functions whose value \<open>None\<close> is a loop that does not end;
  the theorems show that they return. Theorems on pages bound the number of frames as the source does
  (the zone bitmaps and \<open>MAX_ORDER\<close>), and theorems on boot memory bound it by \<open>2 ^ 20\<close> frames,
  which is all that 32-bit physical addresses can name.

  \<^bold>\<open>Not modelled.\<close> Page tables, page contents, the page cache, swapping and the slab allocator
  (\<open>mm/memory.c\<close>, \<open>filemap.c\<close>, \<open>vmscan.c\<close>, \<open>slab.c\<close>) and what is built on them (\<open>mprotect.c\<close>,
  \<open>mremap.c\<close>, \<open>ipc/shm.c\<close>), because their state is the contents of raw memory; scheduling,
  interrupts and timers, because the models are sequences of atomic steps;
  the file systems, the network, the drivers and the other architectures, which work on hardware or on
  the parts just named. Locks that make a whole call atomic are left out; the spinlock of the IPC
  table is kept because code runs between its acquisition and its release in other functions.
\<close>

end
